(* ===== verification/CPrelude.thy ===== *)
theory CPrelude
  imports Main "HOL-Library.Word"
begin

text \<open>
  Shared vocabulary of the development: the errors of the C abstract machine, the
  error-or-value results in which every operation that can go wrong is written, bytes and
  machine words, and the handful of C library routines (\<open>memcpy\<close>, \<open>memset\<close>, \<open>strlen\<close>,
  \<open>strnlen\<close>, \<open>strncmp\<close>, \<open>strcmp\<close>) as bounds-checked functions on byte lists.
  A C pointer into a buffer is modelled by the bytes that may be read from it on, so reading
  or writing outside the object is a value of the model (\<open>OutOfBoundsRead\<close>,
  \<open>OutOfBoundsWrite\<close>) and never an unspecified term.
\<close>

unbundle bit_operations_syntax

named_theorems c_simps \<open>evaluation rules of the C primitives and of the result type\<close>

section \<open>Errors and results\<close>

datatype c_error =
    NullDeref           \<comment> \<open>a null pointer is dereferenced\<close>
  | UninitDeref         \<comment> \<open>a pointer that was never assigned is dereferenced\<close>
  | UseAfterFree        \<comment> \<open>a block that is not allocated (any more) is accessed\<close>
  | InvalidFree         \<comment> \<open>free of something that is not the start of a live block\<close>
  | WrongCell           \<comment> \<open>a block is accessed as an object of another type\<close>
  | OutOfBoundsRead
  | OutOfBoundsWrite
  | Deadlock            \<comment> \<open>a mutex that is held and never released is locked\<close>
  | BadUnlock           \<comment> \<open>a mutex that is not held is unlocked\<close>
  | BadSize             \<comment> \<open>an array of length zero is declared\<close>
  | UninitTable         \<comment> \<open>a hash table is used before its initialisation\<close>
  | UninitRead          \<comment> \<open>a variable that was never assigned is read\<close>
  | IntOverflow         \<comment> \<open>a signed integer overflows\<close>

type_synonym 'a res = "c_error + 'a"

definition bind_r :: "'a res \<Rightarrow> ('a \<Rightarrow> 'b res) \<Rightarrow> 'b res" where
  "bind_r m f = (case m of Inl e \<Rightarrow> Inl e | Inr x \<Rightarrow> f x)"

lemma bind_r_Inl [simp]: "bind_r (Inl e) f = Inl e"
  and bind_r_Inr [simp]: "bind_r (Inr x) f = f x"
  by (simp_all add: bind_r_def)

lemma bind_r_eq_Inr:
  "bind_r m f = Inr y \<longleftrightarrow> (\<exists>x. m = Inr x \<and> f x = Inr y)"
  by (cases m) auto

lemma bind_r_eq_Inl:
  "bind_r m f = Inl e \<longleftrightarrow> m = Inl e \<or> (\<exists>x. m = Inr x \<and> f x = Inl e)"
  by (cases m) auto

lemma bind_r_InrE:
  assumes "bind_r m f = Inr y"
  obtains x where "m = Inr x" and "f x = Inr y"
  using assms by (auto simp: bind_r_eq_Inr)

lemma bind_r_assoc: "bind_r (bind_r m f) g = bind_r m (\<lambda>x. bind_r (f x) g)"
  by (cases m) auto

text \<open>The error of a failed guard.\<close>

definition check :: "bool \<Rightarrow> c_error \<Rightarrow> unit res" where
  "check P e = (if P then Inr () else Inl e)"

lemma check_simps [simp]: "check True e = Inr ()" "check False e = Inl e"
  by (simp_all add: check_def)

lemma check_eq_Inr [simp]: "check P e = Inr u \<longleftrightarrow> P"
  by (simp add: check_def)

section \<open>Bytes and words\<close>

type_synonym byte = "8 word"
type_synonym u8 = "8 word"
type_synonym u16 = "16 word"
type_synonym u32 = "32 word"

text \<open>The bytes of a string literal, without the terminating NUL.\<close>

definition bytes :: "string \<Rightarrow> byte list" where
  "bytes s = map of_char s"

lemma bytes_simps [simp, c_simps]:
  "bytes [] = []" "bytes (c # s) = of_char c # bytes s"
  by (simp_all add: bytes_def)

lemma length_bytes [simp]: "length (bytes s) = length s"
  by (simp add: bytes_def)

text \<open>
  The two bytes of a \<open>uint16_t\<close> as \<open>memcpy\<close> copies them on the little-endian machines the
  program targets (x86), and the word read back from two bytes.
\<close>

definition le16 :: "u16 \<Rightarrow> byte list" where
  "le16 w = [ucast w, ucast (drop_bit 8 w)]"

definition un_le16 :: "byte list \<Rightarrow> u16" where
  "un_le16 bs = ucast (bs ! 0) OR push_bit 8 (ucast (bs ! 1))"

lemma length_le16 [simp]: "length (le16 w) = 2"
  by (simp add: le16_def)

lemma un_le16_le16 [simp]: "un_le16 (le16 w) = w"
  unfolding un_le16_def le16_def
  by (rule bit_word_eqI) (auto simp: bit_simps)

lemma of_nat_eq_unat: "unat (w :: 'a :: len word) = m \<Longrightarrow> of_nat m = w"
  by auto

text \<open>The four bytes of an \<open>int\<close>, stored the same way.\<close>

definition le32 :: "u32 \<Rightarrow> byte list" where
  "le32 w = [ucast w, ucast (drop_bit 8 w), ucast (drop_bit 16 w), ucast (drop_bit 24 w)]"

definition un_le32 :: "byte list \<Rightarrow> u32" where
  "un_le32 bs = ucast (bs ! 0) OR push_bit 8 (ucast (bs ! 1))
     OR push_bit 16 (ucast (bs ! 2)) OR push_bit 24 (ucast (bs ! 3))"

lemma length_le32 [simp]: "length (le32 w) = 4"
  by (simp add: le32_def)

lemma un_le32_le32 [simp]: "un_le32 (le32 w @ r) = w"
  unfolding un_le32_def le32_def
proof (rule bit_word_eqI, goal_cases)
  case (1 n)
  then show ?case by (cases "n < 24"; cases "n < 16") (auto simp: bit_simps)
qed

text \<open>Words read as \<open>int\<close>.\<close>

lemma unat_small:
  assumes "0 \<le> sint (w :: u32)"
  shows "unat w < 2 ^ 31"
proof -
  from assms have b: "\<not> bit w 31" by (simp add: sint_uint bit_uint_iff)
  have "take_bit 31 w = w"
  proof (rule bit_word_eqI)
    fix n assume "n < LENGTH(32)"
    then show "bit (take_bit 31 w) n = bit w n" using b by (cases "n = 31") (auto simp: bit_take_bit_iff)
  qed
  then have "unat w = take_bit 31 (unat w)" by (metis unsigned_take_bit_eq)
  then show ?thesis by (metis take_bit_nat_less_exp)
qed

lemma sint_of_nat_small: "n < 2 ^ 31 \<Longrightarrow> sint (of_nat n :: u32) = int n"
  by (simp add: signed_of_nat signed_take_bit_int_eq_self)

section \<open>Memory blocks\<close>

text \<open>
  \<open>c_read mem off n\<close> is \<open>memcpy\<close> out of a block, \<open>c_write buf off src\<close> is \<open>memcpy\<close> or
  \<open>memset\<close> into one; both fail when the block is too short.
\<close>

definition c_read :: "byte list \<Rightarrow> nat \<Rightarrow> nat \<Rightarrow> byte list res" where
  "c_read mem off n =
     (if off + n \<le> length mem then Inr (take n (drop off mem)) else Inl OutOfBoundsRead)"

definition c_write :: "byte list \<Rightarrow> nat \<Rightarrow> byte list \<Rightarrow> byte list res" where
  "c_write buf off src =
     (if off + length src \<le> length buf
      then Inr (take off buf @ src @ drop (off + length src) buf)
      else Inl OutOfBoundsWrite)"

text \<open>Advancing a pointer by \<open>n\<close> bytes; one past the end is still a pointer.\<close>

definition c_advance :: "byte list \<Rightarrow> nat \<Rightarrow> byte list res" where
  "c_advance mem n = (if n \<le> length mem then Inr (drop n mem) else Inl OutOfBoundsRead)"

lemma c_read_ok [simp, c_simps]:
  "off + n \<le> length mem \<Longrightarrow> c_read mem off n = Inr (take n (drop off mem))"
  by (simp add: c_read_def)

lemma c_read_Inr: "c_read mem off n = Inr xs \<longleftrightarrow> off + n \<le> length mem \<and> xs = take n (drop off mem)"
  by (auto simp: c_read_def)

lemma c_read_fail: "length mem < off + n \<Longrightarrow> c_read mem off n = Inl OutOfBoundsRead"
  by (simp add: c_read_def)

lemma c_write_ok [simp, c_simps]:
  "off + length src \<le> length buf \<Longrightarrow>
   c_write buf off src = Inr (take off buf @ src @ drop (off + length src) buf)"
  by (simp add: c_write_def)

lemma c_write_fail: "length buf < off + length src \<Longrightarrow> c_write buf off src = Inl OutOfBoundsWrite"
  by (simp add: c_write_def)

lemma c_write_Inr:
  "c_write buf off src = Inr xs \<longleftrightarrow>
   off + length src \<le> length buf \<and> xs = take off buf @ src @ drop (off + length src) buf"
  by (auto simp: c_write_def)

text \<open>Overwriting one field of a layout, and reading one.\<close>

lemma c_write_field:
  "off = length a \<Longrightarrow> length d = length b \<Longrightarrow> c_write (a @ b @ c) off d = Inr (a @ d @ c)"
  by simp

lemma c_read_field: "off = length a \<Longrightarrow> n = length b \<Longrightarrow> c_read (a @ b @ c) off n = Inr b"
  by simp

lemma c_write_length: "c_write buf off src = Inr xs \<Longrightarrow> length xs = length buf"
  by (auto simp: c_write_Inr)

lemma c_advance_ok [simp, c_simps]: "n \<le> length mem \<Longrightarrow> c_advance mem n = Inr (drop n mem)"
  by (simp add: c_advance_def)

lemma c_advance_Inr: "c_advance mem n = Inr xs \<longleftrightarrow> n \<le> length mem \<and> xs = drop n mem"
  by (auto simp: c_advance_def)

section \<open>C strings\<close>

definition c_str :: "string \<Rightarrow> byte list" where
  "c_str s = bytes s @ [0]"

lemma length_c_str [simp]: "length (c_str s) = Suc (length s)"
  by (simp add: c_str_def)

definition nul_free :: "byte list \<Rightarrow> bool" where
  "nul_free bs \<longleftrightarrow> 0 \<notin> set bs"

lemma nul_free_simps [simp]:
  "nul_free []" "nul_free (b # bs) \<longleftrightarrow> b \<noteq> 0 \<and> nul_free bs"
  "nul_free (bs @ cs) \<longleftrightarrow> nul_free bs \<and> nul_free cs"
  by (auto simp: nul_free_def)

lemma nul_free_take: "nul_free bs \<Longrightarrow> nul_free (take n bs)"
  by (auto simp: nul_free_def dest: in_set_takeD)

text \<open>The bytes before the first NUL (all of them when there is none).\<close>

definition upto_nul :: "byte list \<Rightarrow> byte list" where
  "upto_nul mem = takeWhile (\<lambda>b. b \<noteq> 0) mem"

definition c_strlen :: "byte list \<Rightarrow> nat res" where
  "c_strlen mem =
     (if 0 \<in> set mem then Inr (length (upto_nul mem)) else Inl OutOfBoundsRead)"

text \<open>\<open>strnlen\<close> stops at the bound, so it fails only when both the NUL and the bound lie
  outside the object.\<close>

definition c_strnlen :: "byte list \<Rightarrow> nat \<Rightarrow> nat res" where
  "c_strnlen mem n =
     (if 0 \<in> set mem \<or> n \<le> length mem then Inr (min n (length (upto_nul mem)))
      else Inl OutOfBoundsRead)"

lemma nul_free_upto_nul [simp]: "nul_free (upto_nul mem)"
  by (auto simp: nul_free_def upto_nul_def dest: set_takeWhileD)

lemma upto_nul_prefix: "upto_nul mem = take (length (upto_nul mem)) mem"
  by (metis takeWhile_eq_take upto_nul_def)

lemma upto_nul_append [simp]: "nul_free s \<Longrightarrow> upto_nul (s @ 0 # r) = s"
  by (simp add: upto_nul_def nul_free_def takeWhile_append)

lemma upto_nul_id: "nul_free s \<Longrightarrow> upto_nul s = s"
  by (auto simp: upto_nul_def nul_free_def takeWhile_eq_all_conv)

lemma c_strlen_append [simp]: "nul_free s \<Longrightarrow> c_strlen (s @ 0 # r) = Inr (length s)"
  by (simp add: c_strlen_def)

lemma c_strlen_fail: "nul_free mem \<Longrightarrow> c_strlen mem = Inl OutOfBoundsRead"
  by (simp add: c_strlen_def nul_free_def)

lemma split_at_nul:
  assumes "0 \<in> set mem"
  obtains s r where "mem = s @ 0 # r" and "nul_free s"
  using split_list_first [OF assms] by (auto simp: nul_free_def)

lemma c_strlen_Inr:
  "c_strlen mem = Inr n \<longleftrightarrow> (\<exists>s r. mem = s @ 0 # r \<and> nul_free s \<and> n = length s)"
proof
  assume *: "c_strlen mem = Inr n"
  then have "0 \<in> set mem" by (simp add: c_strlen_def split: if_splits)
  then obtain s r where "mem = s @ 0 # r" "nul_free s" by (rule split_at_nul)
  with * show "\<exists>s r. mem = s @ 0 # r \<and> nul_free s \<and> n = length s" by auto
qed auto

lemma c_strlen_c_str [simp]: "nul_free (bytes s) \<Longrightarrow> c_strlen (c_str s) = Inr (length s)"
  by (simp add: c_str_def)

text \<open>\<open>strncmp\<close> and \<open>strcmp\<close>: zero on equality, else the difference of the first bytes that differ.\<close>

fun c_strncmp :: "byte list \<Rightarrow> byte list \<Rightarrow> nat \<Rightarrow> int res" where
  "c_strncmp s t 0 = Inr 0"
| "c_strncmp (a # s) (b # t) (Suc n) =
     (if a \<noteq> b then Inr (uint a - uint b)
      else if a = 0 then Inr 0 else c_strncmp s t n)"
| "c_strncmp s t (Suc n) = Inl OutOfBoundsRead"

fun c_strcmp :: "byte list \<Rightarrow> byte list \<Rightarrow> int res" where
  "c_strcmp (a # s) (b # t) =
     (if a \<noteq> b then Inr (uint a - uint b)
      else if a = 0 then Inr 0 else c_strcmp s t)"
| "c_strcmp s t = Inl OutOfBoundsRead"

lemma uint_eq_byte [simp]: "uint (a :: byte) = uint b \<longleftrightarrow> a = b"
  by (simp add: word_uint_eq_iff)

lemma c_strcmp_strings:
  assumes "nul_free s" "nul_free t"
  shows "\<exists>d. c_strcmp (s @ 0 # r) (t @ 0 # q) = Inr d \<and> (d = 0 \<longleftrightarrow> s = t)"
  using assms
proof (induction s arbitrary: t)
  case Nil
  then show ?case by (cases t) (auto simp: uint_0_iff)
next
  case (Cons a s)
  then show ?case by (cases t) (auto simp: uint_0_iff)
qed

lemma c_strncmp_prefix:
  "nul_free p \<Longrightarrow> length p \<le> length m \<Longrightarrow>
   \<exists>d. c_strncmp m (p @ q) (length p) = Inr d \<and> (d = 0 \<longleftrightarrow> take (length p) m = p)"
proof (induction p arbitrary: m)
  case (Cons a p)
  then obtain b m' where "m = b # m'" by (cases m) auto
  with Cons show ?case by auto
qed simp

end
