(* ===== verification/CHeap.thy ===== *)
theory CHeap
  imports CPrelude
begin

text \<open>
  The heap the list code (OU4/Resources/list.c) works on: blocks obtained from \<open>malloc\<close> and
  \<open>calloc\<close>, each holding one object of the program (a list node, a list header with its
  mutex, a \<open>PDU_struct\<close>, or plain bytes). A pointer is a block and an offset into it, so
  \<open>&cti->client_sock\<close> and \<open>&cti->thread_num\<close> are different pointers into one block. Every
  access to a freed block, a null pointer or an object of the wrong type is an error, and
  allocation fails once \<open>avail\<close> blocks have been handed out.
\<close>

section \<open>Pointers, objects, heaps\<close>

datatype ptr = Null | Ptr nat nat | Junk  \<comment> \<open>\<open>Junk\<close>: never assigned since \<open>malloc\<close>\<close>

record node =
  dat :: ptr
  nxt :: ptr
  prv :: ptr

record llist =
  head :: ptr
  tail :: ptr
  mtx :: bool

record pdu_cell =
  c_op :: u8
  c_bytes :: u16
  c_data :: ptr

text \<open>
  Of the other structs only the pointers count: \<open>data\<close> of an \<open>INSERT_struct\<close>, \<open>client_ID\<close> of a
  \<open>JOIN_struct\<close>, \<open>servername\<close> of an \<open>SLISTSERVERS_struct\<close>; the structs for INIT, GET, DELETE and
  QUIT have none.
\<close>

datatype cell =
    CNode node | CList llist | CPdu pdu_cell | CInsert ptr | CJoin ptr | CServer ptr | CSmall | CChunk "byte list"

record heap =
  cells :: "nat \<Rightarrow> cell option"
  brk :: nat      \<comment> \<open>the next block handed out\<close>
  avail :: nat    \<comment> \<open>how many allocations still succeed\<close>

definition heap_ok :: "heap \<Rightarrow> bool" where
  "heap_ok h \<longleftrightarrow> (\<forall>a. brk h \<le> a \<longrightarrow> cells h a = None)"

text \<open>Memory as any allocator hands it out: the header of a fresh program heap.\<close>

definition empty_heap :: "nat \<Rightarrow> heap" where
  "empty_heap n = \<lparr>cells = (\<lambda>_. None), brk = 0, avail = n\<rparr>"

lemma heap_ok_empty [simp]: "heap_ok (empty_heap n)"
  by (simp add: heap_ok_def empty_heap_def)

definition put :: "nat \<Rightarrow> cell \<Rightarrow> heap \<Rightarrow> heap" where
  "put a c h = h\<lparr>cells := (cells h)(a \<mapsto> c)\<rparr>"

lemma put_simps [simp]:
  "cells (put a c h) = (cells h)(a \<mapsto> c)" "brk (put a c h) = brk h" "avail (put a c h) = avail h"
  by (simp_all add: put_def)

text \<open>Two heaps that agree everywhere but on the blocks \<open>A\<close>.\<close>

definition same_outside :: "nat set \<Rightarrow> heap \<Rightarrow> heap \<Rightarrow> bool" where
  "same_outside A h h' \<longleftrightarrow> (\<forall>a. a \<notin> A \<longrightarrow> cells h' a = cells h a)"

lemma same_outside_mono: "same_outside A h h' \<Longrightarrow> A \<subseteq> B \<Longrightarrow> same_outside B h h'"
  by (auto simp: same_outside_def)

lemma same_outside_trans:
  "same_outside A h h' \<Longrightarrow> same_outside B h' h'' \<Longrightarrow> same_outside (A \<union> B) h h''"
  by (auto simp: same_outside_def)

lemma same_outsideD: "same_outside A h h' \<Longrightarrow> a \<notin> A \<Longrightarrow> cells h' a = cells h a"
  by (simp add: same_outside_def)

lemma heap_ok_same_outside:
  assumes "heap_ok h" "same_outside A h h'" "brk h \<le> brk h'" "\<And>a. a \<in> A \<Longrightarrow> a < brk h'"
  shows "heap_ok h'"
  unfolding heap_ok_def
proof (intro allI impI)
  fix a assume "brk h' \<le> a"
  with assms show "cells h' a = None"
    by (metis dual_order.trans heap_ok_def not_less same_outside_def)
qed

section \<open>Allocation\<close>

definition alloc :: "cell \<Rightarrow> heap \<Rightarrow> ptr \<times> heap" where
  "alloc c h =
     (if avail h = 0 then (Null, h)
      else (Ptr (brk h) 0,
            h\<lparr>cells := (cells h)(brk h \<mapsto> c), brk := Suc (brk h), avail := avail h - 1\<rparr>))"

definition c_free :: "ptr \<Rightarrow> heap \<Rightarrow> heap res" where
  "c_free p h =
     (case p of
        Null \<Rightarrow> Inr h
      | Junk \<Rightarrow> Inl InvalidFree
      | Ptr a off \<Rightarrow>
          if off = 0 \<and> cells h a \<noteq> None then Inr (h\<lparr>cells := (cells h)(a := None)\<rparr>)
          else Inl InvalidFree)"

section \<open>Access through pointers\<close>

definition deref :: "ptr \<Rightarrow> heap \<Rightarrow> (nat \<times> nat \<times> cell) res" where
  "deref p h =
     (case p of
        Null \<Rightarrow> Inl NullDeref
      | Junk \<Rightarrow> Inl UninitDeref
      | Ptr a off \<Rightarrow> (case cells h a of None \<Rightarrow> Inl UseAfterFree | Some c \<Rightarrow> Inr (a, off, c)))"

definition get_node :: "ptr \<Rightarrow> heap \<Rightarrow> node res" where
  "get_node p h =
     bind_r (deref p h) (\<lambda>(a, off, c).
       case c of CNode n \<Rightarrow> if off = 0 then Inr n else Inl WrongCell | _ \<Rightarrow> Inl WrongCell)"

definition get_llist :: "ptr \<Rightarrow> heap \<Rightarrow> llist res" where
  "get_llist p h =
     bind_r (deref p h) (\<lambda>(a, off, c).
       case c of CList l \<Rightarrow> if off = 0 then Inr l else Inl WrongCell | _ \<Rightarrow> Inl WrongCell)"

definition get_pdu :: "ptr \<Rightarrow> heap \<Rightarrow> pdu_cell res" where
  "get_pdu p h =
     bind_r (deref p h) (\<lambda>(a, off, c).
       case c of CPdu d \<Rightarrow> if off = 0 then Inr d else Inl WrongCell | _ \<Rightarrow> Inl WrongCell)"

text \<open>\<open>memcpy\<close> of \<open>n\<close> bytes from the address \<open>p\<close>.\<close>

definition read_mem :: "ptr \<Rightarrow> nat \<Rightarrow> heap \<Rightarrow> byte list res" where
  "read_mem p n h =
     bind_r (deref p h) (\<lambda>(a, off, c).
       case c of CChunk bs \<Rightarrow> c_read bs off n | _ \<Rightarrow> Inl WrongCell)"

text \<open>\<open>memcpy\<close> of \<open>src\<close> to the address \<open>p\<close>.\<close>

definition write_mem :: "ptr \<Rightarrow> byte list \<Rightarrow> heap \<Rightarrow> heap res" where
  "write_mem p src h =
     bind_r (deref p h) (\<lambda>(a, off, c).
       case c of CChunk bs \<Rightarrow> bind_r (c_write bs off src) (\<lambda>bs. Inr (put a (CChunk bs) h))
       | _ \<Rightarrow> Inl WrongCell)"

text \<open>The C string at the address \<open>p\<close>, as \<open>printf\<close> prints it.\<close>

definition read_cstr :: "ptr \<Rightarrow> heap \<Rightarrow> byte list res" where
  "read_cstr p h =
     bind_r (deref p h) (\<lambda>(a, off, c).
       case c of
         CChunk bs \<Rightarrow> bind_r (c_advance bs off) (\<lambda>m. bind_r (c_strlen m) (\<lambda>n. Inr (take n m)))
       | _ \<Rightarrow> Inl WrongCell)"

definition addr_of :: "ptr \<Rightarrow> nat" where
  "addr_of p = (case p of Ptr a off \<Rightarrow> a | _ \<Rightarrow> 0)"

definition set_node :: "ptr \<Rightarrow> (node \<Rightarrow> node) \<Rightarrow> heap \<Rightarrow> heap res" where
  "set_node p f h = bind_r (get_node p h) (\<lambda>n. Inr (put (addr_of p) (CNode (f n)) h))"

definition set_llist :: "ptr \<Rightarrow> (llist \<Rightarrow> llist) \<Rightarrow> heap \<Rightarrow> heap res" where
  "set_llist p f h = bind_r (get_llist p h) (\<lambda>l. Inr (put (addr_of p) (CList (f l)) h))"

lemmas heap_defs = deref_def get_node_def get_llist_def get_pdu_def read_mem_def write_mem_def set_node_def
  set_llist_def addr_of_def

lemma get_node_ok [simp]: "cells h a = Some (CNode n) \<Longrightarrow> get_node (Ptr a 0) h = Inr n"
  by (simp add: heap_defs)

lemma get_llist_ok [simp]: "cells h a = Some (CList l) \<Longrightarrow> get_llist (Ptr a 0) h = Inr l"
  by (simp add: heap_defs)

lemma get_pdu_ok [simp]: "cells h a = Some (CPdu d) \<Longrightarrow> get_pdu (Ptr a 0) h = Inr d"
  by (simp add: heap_defs)

lemma set_node_ok [simp]:
  "cells h a = Some (CNode n) \<Longrightarrow> set_node (Ptr a 0) f h = Inr (put a (CNode (f n)) h)"
  by (simp add: heap_defs)

lemma set_llist_ok [simp]:
  "cells h a = Some (CList l) \<Longrightarrow> set_llist (Ptr a 0) f h = Inr (put a (CList (f l)) h)"
  by (simp add: heap_defs)

lemma read_mem_ok [simp]:
  "cells h a = Some (CChunk bs) \<Longrightarrow> off + n \<le> length bs \<Longrightarrow>
   read_mem (Ptr a off) n h = Inr (take n (drop off bs))"
  by (simp add: heap_defs)

lemma write_mem_ok [simp]:
  "cells h a = Some (CChunk bs) \<Longrightarrow> off + length src \<le> length bs \<Longrightarrow>
   write_mem (Ptr a off) src h =
     Inr (put a (CChunk (take off bs @ src @ drop (off + length src) bs)) h)"
  by (simp add: heap_defs)

lemma deref_fails [simp]:
  "get_node Null h = Inl NullDeref" "get_node Junk h = Inl UninitDeref"
  "cells h a = None \<Longrightarrow> get_node (Ptr a off) h = Inl UseAfterFree"
  "cells h a = None \<Longrightarrow> read_mem (Ptr a off) n h = Inl UseAfterFree"
  "read_mem Null n h = Inl NullDeref"
  by (simp_all add: heap_defs)

lemma c_free_ok [simp]:
  "cells h a = Some c \<Longrightarrow> c_free (Ptr a 0) h = Inr (h\<lparr>cells := (cells h)(a := None)\<rparr>)"
  "c_free Null h = Inr h"
  by (simp_all add: c_free_def)

text \<open>What a pointer shows depends on its own block only.\<close>

lemma read_mem_cong: "cells h' (addr_of p) = cells h (addr_of p) \<Longrightarrow> read_mem p n h' = read_mem p n h"
  by (cases p) (auto simp: heap_defs)

lemma get_pdu_cong: "cells h' (addr_of p) = cells h (addr_of p) \<Longrightarrow> get_pdu p h' = get_pdu p h"
  by (cases p) (auto simp: heap_defs)

lemma read_mem_InrE:
  assumes "read_mem p n h = Inr bs"
  obtains a off c where "p = Ptr a off" "cells h a = Some (CChunk c)" "off + n \<le> length c"
    "bs = take n (drop off c)"
  using assms by (cases p) (auto simp: heap_defs c_read_Inr split: option.splits cell.splits)

lemma get_pdu_InrE:
  assumes "get_pdu p h = Inr d"
  obtains a where "p = Ptr a 0" "cells h a = Some (CPdu d)"
  using assms by (cases p) (auto simp: heap_defs split: option.splits cell.splits if_splits)

lemma alloc_ok: "0 < avail h \<Longrightarrow>
  alloc c h = (Ptr (brk h) 0,
     h\<lparr>cells := (cells h)(brk h \<mapsto> c), brk := Suc (brk h), avail := avail h - 1\<rparr>)"
  by (simp add: alloc_def)

section \<open>Mutexes\<close>

text \<open>
  \<open>pthread_mutex_lock\<close> on the list's own mutex. Each list operation is one critical
  section, run here without interruption; a mutex found held was left locked by an earlier
  operation that returned, so the caller never gets it.
\<close>

definition pthread_mutex_lock :: "ptr \<Rightarrow> heap \<Rightarrow> heap res" where
  "pthread_mutex_lock l h =
     bind_r (get_llist l h) (\<lambda>L.
       if mtx L then Inl Deadlock else set_llist l (\<lambda>L. L\<lparr>mtx := True\<rparr>) h)"

definition pthread_mutex_unlock :: "ptr \<Rightarrow> heap \<Rightarrow> heap res" where
  "pthread_mutex_unlock l h =
     bind_r (get_llist l h) (\<lambda>L.
       if mtx L then set_llist l (\<lambda>L. L\<lparr>mtx := False\<rparr>) h else Inl BadUnlock)"

lemma lock_ok [simp]:
  "cells h a = Some (CList L) \<Longrightarrow> \<not> mtx L \<Longrightarrow>
   pthread_mutex_lock (Ptr a 0) h = Inr (put a (CList (L\<lparr>mtx := True\<rparr>)) h)"
  by (simp add: pthread_mutex_lock_def)

lemma lock_held: "cells h a = Some (CList L) \<Longrightarrow> mtx L \<Longrightarrow>
   pthread_mutex_lock (Ptr a 0) h = Inl Deadlock"
  by (simp add: pthread_mutex_lock_def)

lemma unlock_ok [simp]:
  "cells h a = Some (CList L) \<Longrightarrow> mtx L \<Longrightarrow>
   pthread_mutex_unlock (Ptr a 0) h = Inr (put a (CList (L\<lparr>mtx := False\<rparr>)) h)"
  by (simp add: pthread_mutex_unlock_def)

end
