(* ===== verification/LinkedList.thy ===== *)
theory LinkedList
  imports CHeap
begin

text \<open>
  The doubly linked list of OU4/Resources/list.c. A list is a header block with two dummy
  nodes: \<open>head->next\<close> is the first node and \<open>tail->previous\<close> the last; the other two fields
  of the dummies are never assigned. The first node's \<open>previous\<close> and the last node's \<open>next\<close>
  are null. Each operation is translated statement by statement, with the mutex taken and
  released where the code does it. The abstraction \<open>dl\<close> reads a HOL list of (node, data)
  pairs off the heap; every operation is shown to act on it as the list operation it is
  meant to be, to touch nothing outside the list, and to free exactly what the code frees.
\<close>

section \<open>Fields and assignments\<close>

definition nxt_of :: "ptr \<Rightarrow> heap \<Rightarrow> ptr res" where
  "nxt_of p h = bind_r (get_node p h) (\<lambda>n. Inr (nxt n))"

definition prv_of :: "ptr \<Rightarrow> heap \<Rightarrow> ptr res" where
  "prv_of p h = bind_r (get_node p h) (\<lambda>n. Inr (prv n))"

definition dat_of :: "ptr \<Rightarrow> heap \<Rightarrow> ptr res" where
  "dat_of p h = bind_r (get_node p h) (\<lambda>n. Inr (dat n))"

definition set_nxt :: "ptr \<Rightarrow> ptr \<Rightarrow> heap \<Rightarrow> heap res" where
  "set_nxt p v h = set_node p (\<lambda>n. n\<lparr>nxt := v\<rparr>) h"

definition set_prv :: "ptr \<Rightarrow> ptr \<Rightarrow> heap \<Rightarrow> heap res" where
  "set_prv p v h = set_node p (\<lambda>n. n\<lparr>prv := v\<rparr>) h"

lemmas field_defs = nxt_of_def prv_of_def dat_of_def set_nxt_def set_prv_def

section \<open>The operations of list.c\<close>

definition junk_node :: cell where
  "junk_node = CNode \<lparr>dat = Junk, nxt = Junk, prv = Junk\<rparr>"

definition llist_empty :: "heap \<Rightarrow> (ptr \<times> heap) res" where
  "llist_empty h =
     (let (l, h) = alloc (CList \<lparr>head = Junk, tail = Junk, mtx = False\<rparr>) h;
          (hd, h) = alloc junk_node h
      in bind_r (set_llist l (\<lambda>L. L\<lparr>head := hd\<rparr>) h) (\<lambda>h.
         let (tl, h) = alloc junk_node h
         in bind_r (set_llist l (\<lambda>L. L\<lparr>tail := tl\<rparr>) h) (\<lambda>h.
            bind_r (get_llist l h) (\<lambda>L.
            bind_r (set_nxt (head L) Null h) (\<lambda>h.
            bind_r (set_prv (tail L) Null h) (\<lambda>h.
            Inr (l, h)))))))"

definition llist_first :: "ptr \<Rightarrow> heap \<Rightarrow> ptr res" where
  "llist_first l h = bind_r (get_llist l h) (\<lambda>L. nxt_of (head L) h)"

definition llist_last :: "ptr \<Rightarrow> heap \<Rightarrow> ptr res" where
  "llist_last l h = bind_r (get_llist l h) (\<lambda>L. prv_of (tail L) h)"

definition llist_next :: "ptr \<Rightarrow> heap \<Rightarrow> ptr res" where
  "llist_next p h = nxt_of p h"

definition llist_previous :: "ptr \<Rightarrow> heap \<Rightarrow> ptr res" where
  "llist_previous p h = prv_of p h"

definition llist_isEmpty :: "ptr \<Rightarrow> heap \<Rightarrow> bool res" where
  "llist_isEmpty l h = bind_r (llist_first l h) (\<lambda>p. Inr (p = Null))"

definition llist_inspect :: "ptr \<Rightarrow> ptr \<Rightarrow> heap \<Rightarrow> (ptr \<times> heap) res" where
  "llist_inspect p l h =
     bind_r (pthread_mutex_lock l h) (\<lambda>h.
     bind_r (llist_isEmpty l h) (\<lambda>emp.
     if emp then Inr (Null, h)
     else bind_r (pthread_mutex_unlock l h) (\<lambda>h.
          bind_r (dat_of p h) (\<lambda>d. Inr (d, h)))))"

definition llist_isEnd :: "ptr \<Rightarrow> heap \<Rightarrow> bool res" where
  "llist_isEnd p h = bind_r (nxt_of p h) (\<lambda>q. Inr (q = Null))"

text \<open>On a failed \<open>calloc\<close> the code reports it and goes on to write through the null pointer.\<close>

definition createNewNode :: "ptr \<Rightarrow> heap \<Rightarrow> (ptr \<times> heap) res" where
  "createNewNode d h =
     (let (newPos, h) = alloc (CNode \<lparr>dat = Null, nxt = Null, prv = Null\<rparr>) h
      in bind_r (set_node newPos (\<lambda>n. n\<lparr>dat := d, nxt := Null, prv := Null\<rparr>) h) (\<lambda>h.
         Inr (newPos, h)))"

text \<open>Both insertions link the new node inside the critical section.\<close>

definition link_first :: "ptr \<Rightarrow> ptr \<Rightarrow> heap \<Rightarrow> heap res" where
  "link_first l newPos h =
     bind_r (llist_isEmpty l h) (\<lambda>emp.
     bind_r (get_llist l h) (\<lambda>L.
     if emp then
       bind_r (set_nxt (head L) newPos h) (\<lambda>h.
       set_prv (tail L) newPos h)
     else
       bind_r (llist_first l h) (\<lambda>first.
       bind_r (set_nxt newPos first h) (\<lambda>h.
       bind_r (llist_first l h) (\<lambda>first.
       bind_r (set_prv first newPos h) (\<lambda>h.
       set_nxt (head L) newPos h))))))"

definition link_last :: "ptr \<Rightarrow> ptr \<Rightarrow> heap \<Rightarrow> heap res" where
  "link_last l newPos h =
     bind_r (llist_isEmpty l h) (\<lambda>emp.
     bind_r (get_llist l h) (\<lambda>L.
     if emp then
       bind_r (set_prv (tail L) newPos h) (\<lambda>h.
       set_nxt (head L) newPos h)
     else
       bind_r (llist_last l h) (\<lambda>last.
       bind_r (set_prv newPos last h) (\<lambda>h.
       bind_r (llist_last l h) (\<lambda>last.
       bind_r (set_nxt last newPos h) (\<lambda>h.
       set_prv (tail L) newPos h))))))"

definition llist_insertfirst :: "ptr \<Rightarrow> ptr \<Rightarrow> heap \<Rightarrow> heap res" where
  "llist_insertfirst l d h =
     bind_r (pthread_mutex_lock l h) (\<lambda>h.
     bind_r (createNewNode d h) (\<lambda>(newPos, h).
     bind_r (link_first l newPos h) (\<lambda>h.
     pthread_mutex_unlock l h)))"

definition llist_insertlast :: "ptr \<Rightarrow> ptr \<Rightarrow> heap \<Rightarrow> heap res" where
  "llist_insertlast l d h =
     bind_r (pthread_mutex_lock l h) (\<lambda>h.
     bind_r (createNewNode d h) (\<lambda>(newPos, h).
     bind_r (link_last l newPos h) (\<lambda>h.
     pthread_mutex_unlock l h)))"

text \<open>The four-way case distinction by which every removal takes a node out of the chain.\<close>

definition unlink :: "ptr \<Rightarrow> ptr \<Rightarrow> heap \<Rightarrow> heap res" where
  "unlink l p h =
     bind_r (get_node p h) (\<lambda>n.
     if nxt n \<noteq> Null \<and> prv n \<noteq> Null then
       bind_r (set_nxt (prv n) (nxt n) h) (\<lambda>h.
       bind_r (get_node p h) (\<lambda>n. set_prv (nxt n) (prv n) h))
     else bind_r (get_llist l h) (\<lambda>L.
       if nxt n = Null \<and> prv n = Null then
         bind_r (set_prv (tail L) (prv n) h) (\<lambda>h.
         bind_r (get_node p h) (\<lambda>n. set_nxt (head L) (nxt n) h))
       else if nxt n = Null then
         bind_r (set_prv (tail L) (prv n) h) (\<lambda>h.
         bind_r (get_node p h) (\<lambda>n. set_nxt (prv n) Null h))
       else
         bind_r (set_nxt (head L) (nxt n) h) (\<lambda>h.
         bind_r (get_node p h) (\<lambda>n. set_prv (nxt n) Null h))))"

definition llist_removefirst :: "ptr \<Rightarrow> heap \<Rightarrow> (u32 \<times> heap) res" where
  "llist_removefirst l h =
     bind_r (pthread_mutex_lock l h) (\<lambda>h.
     bind_r (llist_first l h) (\<lambda>p.
     bind_r (unlink l p h) (\<lambda>h.
     bind_r (dat_of p h) (\<lambda>d.
     bind_r (read_mem d 4 h) (\<lambda>temp.
     bind_r (c_free p h) (\<lambda>h.
     bind_r (pthread_mutex_unlock l h) (\<lambda>h.
     Inr (un_le32 temp, h))))))))"

definition llist_removefirst_INT :: "ptr \<Rightarrow> heap \<Rightarrow> (ptr \<times> heap) res" where
  "llist_removefirst_INT l h =
     bind_r (pthread_mutex_lock l h) (\<lambda>h.
     bind_r (llist_first l h) (\<lambda>p.
     bind_r (unlink l p h) (\<lambda>h.
     let (temp, h) = alloc (CChunk (replicate 8 0)) h in
     bind_r (dat_of p h) (\<lambda>d.
     bind_r (read_mem d 8 h) (\<lambda>bs.
     bind_r (write_mem temp bs h) (\<lambda>h.
     bind_r (c_free d h) (\<lambda>h.
     bind_r (c_free p h) (\<lambda>h.
     bind_r (pthread_mutex_unlock l h) (\<lambda>h.
     Inr (temp, h))))))))))"

definition llist_removefirst_PDU :: "ptr \<Rightarrow> heap \<Rightarrow> (ptr \<times> heap) res" where
  "llist_removefirst_PDU l h =
     bind_r (pthread_mutex_lock l h) (\<lambda>h.
     bind_r (llist_first l h) (\<lambda>p.
     bind_r (unlink l p h) (\<lambda>h.
     bind_r (dat_of p h) (\<lambda>d.
     bind_r (get_pdu d h) (\<lambda>P.
     let (pdu_data, h) = alloc (CChunk (replicate (unat (c_bytes P) + 1) 0)) h in
     bind_r (read_mem (c_data P) (unat (c_bytes P)) h) (\<lambda>bs.
     bind_r (write_mem pdu_data bs h) (\<lambda>h.
     let (pdu_struct, h) =
       alloc (CPdu \<lparr>c_op = c_op P, c_bytes = c_bytes P, c_data = pdu_data\<rparr>) h in
     bind_r (get_pdu pdu_struct h) (\<lambda>_.
     bind_r (c_free (c_data P) h) (\<lambda>h.
     bind_r (c_free d h) (\<lambda>h.
     bind_r (c_free p h) (\<lambda>h.
     bind_r (pthread_mutex_unlock l h) (\<lambda>h.
     Inr (pdu_struct, h)))))))))))))"

definition llist_remove :: "ptr \<Rightarrow> ptr \<Rightarrow> heap \<Rightarrow> (ptr \<times> heap) res" where
  "llist_remove l p h =
     bind_r (pthread_mutex_lock l h) (\<lambda>h.
     bind_r (llist_isEmpty l h) (\<lambda>emp.
     if emp then bind_r (pthread_mutex_unlock l h) (\<lambda>h. Inr (p, h))
     else
       bind_r (nxt_of p h) (\<lambda>nextpos.
       bind_r (unlink l p h) (\<lambda>h.
       bind_r (c_free p h) (\<lambda>h.
       bind_r (pthread_mutex_unlock l h) (\<lambda>h.
       Inr (nextpos, h)))))))"

text \<open>The traversals are loops over the heap, which need not end on a cyclic chain.\<close>

partial_function (option) list_length_loop :: "ptr \<Rightarrow> u32 \<Rightarrow> heap \<Rightarrow> u32 res option" where
  "list_length_loop current count h =
     (if current = Null then Some (Inr count)
      else case nxt_of current h of
             Inl e \<Rightarrow> Some (Inl e)
           | Inr p \<Rightarrow> list_length_loop p (count + 1) h)"

definition list_length :: "ptr \<Rightarrow> heap \<Rightarrow> (u32 \<times> heap) res option" where
  "list_length l h =
     (case bind_r (pthread_mutex_lock l h) (\<lambda>h. bind_r (llist_first l h) (\<lambda>p. Inr (p, h))) of
        Inl e \<Rightarrow> Some (Inl e)
      | Inr (current, h) \<Rightarrow>
          map_option (\<lambda>r. bind_r r (\<lambda>count.
            bind_r (pthread_mutex_unlock l h) (\<lambda>h. Inr (count, h))))
            (list_length_loop current 0 h))"

partial_function (option) llist_free_loop :: "ptr \<Rightarrow> ptr \<Rightarrow> heap \<Rightarrow> heap res option" where
  "llist_free_loop l p h =
     (if p = Null then Some (Inr h)
      else case bind_r (dat_of p h) (\<lambda>d. bind_r (c_free d h) (\<lambda>h. llist_remove l p h)) of
             Inl e \<Rightarrow> Some (Inl e)
           | Inr (p, h) \<Rightarrow> llist_free_loop l p h)"

definition llist_free :: "ptr \<Rightarrow> heap \<Rightarrow> heap res option" where
  "llist_free l h =
     (case llist_first l h of
        Inl e \<Rightarrow> Some (Inl e)
      | Inr p \<Rightarrow>
          map_option (\<lambda>r. bind_r r (\<lambda>h.
            bind_r (get_llist l h) (\<lambda>L.
            bind_r (c_free (head L) h) (\<lambda>h.
            bind_r (c_free (tail L) h) (\<lambda>h.
            c_free l h)))))
            (llist_free_loop l p h))"

text \<open>\<open>print_list\<close> returns the lines it prints.\<close>

partial_function (option) print_list_loop ::
  "ptr \<Rightarrow> ptr \<Rightarrow> byte list list \<Rightarrow> heap \<Rightarrow> (byte list list \<times> heap) res option" where
  "print_list_loop l pos out h =
     (case bind_r (llist_inspect pos l h) (\<lambda>(d, h).
           bind_r (read_cstr d h) (\<lambda>s.
           bind_r (llist_next pos h) (\<lambda>q. Inr (s, q, h)))) of
        Inl e \<Rightarrow> Some (Inl e)
      | Inr (s, q, h) \<Rightarrow>
          if q = Null then Some (Inr (out @ [s], h))
          else print_list_loop l q (out @ [s]) h)"

definition print_list :: "ptr \<Rightarrow> heap \<Rightarrow> (byte list list \<times> heap) res option" where
  "print_list l h =
     (case bind_r (llist_first l h) (\<lambda>pos. bind_r (llist_isEmpty l h) (\<lambda>emp. Inr (pos, emp))) of
        Inl e \<Rightarrow> Some (Inl e)
      | Inr (pos, emp) \<Rightarrow>
          if emp then Some (Inr ([bytes ''Can't print an empty list''], h))
          else print_list_loop l pos [] h)"

definition llist_switch :: "ptr \<Rightarrow> ptr \<Rightarrow> heap \<Rightarrow> heap res" where
  "llist_switch l p h =
     bind_r (get_node p h) (\<lambda>n.
     bind_r (if nxt n \<noteq> Null \<and> prv n \<noteq> Null then
               bind_r (set_prv (nxt n) (prv n) h) (\<lambda>h.
               bind_r (get_node p h) (\<lambda>n. bind_r (set_nxt (prv n) (nxt n) h) (\<lambda>h.
               bind_r (get_node p h) (\<lambda>n. bind_r (nxt_of (nxt n) h) (\<lambda>q. bind_r (set_nxt p q h) (\<lambda>h.
               bind_r (get_node p h) (\<lambda>n. bind_r (nxt_of (nxt n) h) (\<lambda>q.
               if q = Null then
                 bind_r (llist_last l h) (\<lambda>t. bind_r (set_prv p t h) (\<lambda>h.
                 bind_r (get_llist l h) (\<lambda>L. set_prv (tail L) p h)))
               else bind_r (prv_of q h) (\<lambda>r. set_prv p r h)))))))))
             else Inr h) (\<lambda>h.
     bind_r (get_node p h) (\<lambda>n.
     bind_r (if prv n = Null then
               bind_r (set_prv (nxt n) (prv n) h) (\<lambda>h.
               bind_r (get_node p h) (\<lambda>n. bind_r (get_llist l h) (\<lambda>L.
               bind_r (set_nxt (head L) (nxt n) h) (\<lambda>h.
               bind_r (get_node p h) (\<lambda>n. bind_r (nxt_of (nxt n) h) (\<lambda>q. bind_r (set_prv q p h) (\<lambda>h.
               bind_r (get_node p h) (\<lambda>n. bind_r (set_nxt (nxt n) p h) (\<lambda>h.
               bind_r (get_node p h) (\<lambda>n. bind_r (nxt_of (nxt n) h) (\<lambda>q. set_nxt p q h)))))))))))
             else Inr h) (\<lambda>h.
     bind_r (get_node p h) (\<lambda>n. Inr h)))))"

section \<open>Abstraction: the list a heap represents\<close>

text \<open>
  \<open>dseg m q xs e\<close>: in the memory \<open>m\<close> the nodes \<open>xs\<close> (address and data pointer) form a chain
  whose first \<open>previous\<close> is \<open>q\<close> and whose last \<open>next\<close> is \<open>e\<close>.
\<close>

fun first_ptr :: "(nat \<times> ptr) list \<Rightarrow> ptr \<Rightarrow> ptr" where
  "first_ptr [] e = e"
| "first_ptr ((a, d) # xs) e = Ptr a 0"

fun last_ptr :: "(nat \<times> ptr) list \<Rightarrow> ptr \<Rightarrow> ptr" where
  "last_ptr [] q = q"
| "last_ptr ((a, d) # xs) q = last_ptr xs (Ptr a 0)"

fun dseg :: "(nat \<Rightarrow> cell option) \<Rightarrow> ptr \<Rightarrow> (nat \<times> ptr) list \<Rightarrow> ptr \<Rightarrow> bool" where
  "dseg m q [] e \<longleftrightarrow> True"
| "dseg m q ((a, d) # xs) e \<longleftrightarrow>
     m a = Some (CNode \<lparr>dat = d, nxt = first_ptr xs e, prv = q\<rparr>) \<and> dseg m (Ptr a 0) xs e"

lemma first_ptr_append [simp]: "first_ptr (xs @ ys) e = first_ptr xs (first_ptr ys e)"
  by (cases xs) auto

lemma last_ptr_append [simp]: "last_ptr (xs @ ys) q = last_ptr ys (last_ptr xs q)"
  by (induction xs q rule: last_ptr.induct) auto

lemma first_ptr_Null [simp]: "first_ptr xs Null = Null \<longleftrightarrow> xs = []"
  by (cases "(xs, Null)" rule: first_ptr.cases) auto

lemma last_ptr_not_Null: "q \<noteq> Null \<Longrightarrow> last_ptr xs q \<noteq> Null"
  by (induction xs q rule: last_ptr.induct) auto

lemma last_ptr_Null [simp]: "last_ptr xs Null = Null \<longleftrightarrow> xs = []"
  by (cases "(xs, Null)" rule: last_ptr.cases) (auto simp: last_ptr_not_Null)

lemma dseg_append [simp]:
  "dseg m q (xs @ ys) e \<longleftrightarrow> dseg m q xs (first_ptr ys e) \<and> dseg m (last_ptr xs q) ys e"
  by (induction m q xs e rule: dseg.induct) auto

text \<open>Cells outside the chain do not matter.\<close>

lemma dseg_upd [simp]: "a \<notin> fst ` set xs \<Longrightarrow> dseg (m(a := c)) q xs e = dseg m q xs e"
  by (induction m q xs e rule: dseg.induct) auto

lemma dseg_cong: "(\<And>a. a \<in> fst ` set xs \<Longrightarrow> m a = m' a) \<Longrightarrow> dseg m q xs e = dseg m' q xs e"
  by (induction m q xs e rule: dseg.induct) auto

lemma dseg_dom: "dseg m q xs e \<Longrightarrow> a \<in> fst ` set xs \<Longrightarrow> m a \<noteq> None"
  by (induction m q xs e rule: dseg.induct) auto

text \<open>
  \<open>dl b h (la, hn, tn) xs\<close>: block \<open>la\<close> is a list header with dummies \<open>hn\<close> and \<open>tn\<close> whose mutex
  is held iff \<open>b\<close>, and the nodes are \<open>xs\<close>, all blocks distinct.
\<close>

type_synonym handle = "nat \<times> nat \<times> nat"

fun blocks :: "handle \<Rightarrow> (nat \<times> ptr) list \<Rightarrow> nat set" where
  "blocks (la, hn, tn) xs = {la, hn, tn} \<union> fst ` set xs"

fun dl :: "bool \<Rightarrow> heap \<Rightarrow> handle \<Rightarrow> (nat \<times> ptr) list \<Rightarrow> bool" where
  "dl b h (la, hn, tn) xs \<longleftrightarrow>
     cells h la = Some (CList \<lparr>head = Ptr hn 0, tail = Ptr tn 0, mtx = b\<rparr>) \<and>
     (\<exists>n. cells h hn = Some (CNode n) \<and> nxt n = first_ptr xs Null) \<and>
     (\<exists>n. cells h tn = Some (CNode n) \<and> prv n = last_ptr xs Null) \<and>
     dseg (cells h) Null xs Null \<and> distinct (la # hn # tn # map fst xs)"

declare dl.simps [simp del] blocks.simps [simp del]

definition list_ptr :: "handle \<Rightarrow> ptr" where
  "list_ptr H = Ptr (fst H) 0"

lemma dl_frame:
  assumes "dl b h H xs" "\<And>a. a \<in> blocks H xs \<Longrightarrow> cells h' a = cells h a"
  shows "dl b h' H xs"
proof (cases H)
  case (fields la hn tn)
  have "dseg (cells h') Null xs Null = dseg (cells h) Null xs Null"
    by (rule dseg_cong) (use assms(2) fields in \<open>auto simp: blocks.simps\<close>)
  then show ?thesis
    using assms fields by (simp add: dl.simps blocks.simps)
qed

lemma dl_alive: "dl b h H xs \<Longrightarrow> a \<in> blocks H xs \<Longrightarrow> cells h a \<noteq> None"
  by (cases H) (auto simp: dl.simps blocks.simps dest: dseg_dom)

lemma dl_below_brk:
  assumes "dl b h H xs" "heap_ok h" "a \<in> blocks H xs"
  shows "a < brk h"
  using dl_alive [OF assms(1,3)] assms(2) by (meson heap_ok_def not_less)

section \<open>Reading a list\<close>

lemma llist_first_dl: "dl b h H xs \<Longrightarrow> llist_first (list_ptr H) h = Inr (first_ptr xs Null)"
  by (cases H) (auto simp: dl.simps llist_first_def list_ptr_def nxt_of_def)

lemma llist_last_dl: "dl b h H xs \<Longrightarrow> llist_last (list_ptr H) h = Inr (last_ptr xs Null)"
  by (cases H) (auto simp: dl.simps llist_last_def list_ptr_def prv_of_def)

lemma llist_isEmpty_dl: "dl b h H xs \<Longrightarrow> llist_isEmpty (list_ptr H) h = Inr (xs = [])"
  by (simp add: llist_isEmpty_def llist_first_dl)

lemma header_in_blocks [simp]: "fst H \<in> blocks H xs"
  by (cases H) (simp add: blocks.simps)

lemma blocks_append [simp]: "blocks H (xs @ ys) = blocks H xs \<union> blocks H ys"
  by (cases H) (auto simp: blocks.simps)

lemma blocks_Cons [simp]: "blocks H (x # xs) = insert (fst x) (blocks H xs)"
  by (cases H) (auto simp: blocks.simps)

lemma blocks_Nil [simp]:
  "blocks H xs \<union> blocks H [] = blocks H xs" "blocks H [] \<union> blocks H xs = blocks H xs"
  by (cases H; auto simp: blocks.simps)+

lemma dseg_node: "dseg m q xs e \<Longrightarrow> a \<in> fst ` set xs \<Longrightarrow> \<exists>n. m a = Some (CNode n)"
  by (induction m q xs e rule: dseg.induct) auto

lemma dl_cells:
  assumes "dl b h H xs" "x \<in> blocks H xs"
  shows "(\<exists>n. cells h x = Some (CNode n)) \<or> (\<exists>L. cells h x = Some (CList L))"
proof (cases "x \<in> fst ` set xs")
  case True
  with assms(1) show ?thesis by (cases H) (auto simp: dl.simps dest: dseg_node)
next
  case False
  with assms show ?thesis by (cases H) (auto simp: dl.simps blocks.simps)
qed

lemma chunk_not_in_blocks:
  "dl b h H xs \<Longrightarrow> cells h x = Some (CChunk c) \<Longrightarrow> x \<notin> blocks H xs"
  "dl b h H xs \<Longrightarrow> cells h x = Some (CPdu d) \<Longrightarrow> x \<notin> blocks H xs"
  by (auto dest!: dl_cells)

text \<open>Taking and releasing the mutex changes the header only.\<close>

lemma lock_dl:
  assumes "dl False h H xs"
  shows "\<exists>h1. pthread_mutex_lock (list_ptr H) h = Inr h1 \<and> dl True h1 H xs \<and>
    brk h1 = brk h \<and> avail h1 = avail h \<and> same_outside (blocks H []) h h1"
  using assms by (cases H) (auto simp: dl.simps list_ptr_def same_outside_def blocks.simps)

lemma unlock_dl:
  assumes "dl True h H xs"
  shows "\<exists>h1. pthread_mutex_unlock (list_ptr H) h = Inr h1 \<and> dl False h1 H xs \<and>
    brk h1 = brk h \<and> avail h1 = avail h \<and> same_outside (blocks H []) h h1"
  using assms by (cases H) (auto simp: dl.simps list_ptr_def same_outside_def blocks.simps)

section \<open>Taking a node out of the chain\<close>

lemma unlink_dl:
  assumes "dl b h H (xs @ (a, d) # ys)"
  shows "\<exists>h'. unlink (list_ptr H) (Ptr a 0) h = Inr h' \<and> dl b h' H (xs @ ys) \<and>
    (\<exists>n. cells h' a = Some (CNode n) \<and> dat n = d) \<and> brk h' = brk h \<and> avail h' = avail h \<and>
    same_outside (blocks H (xs @ (a, d) # ys)) h h'"
proof -
  obtain la hn tn where H: "H = (la, hn, tn)" by (cases H)
  show ?thesis
  proof (cases xs rule: rev_cases)
    case Nil
    show ?thesis
    proof (cases ys)
      case Nil
      show ?thesis using assms \<open>xs = []\<close> Nil H
        by (auto simp: unlink_def list_ptr_def dl.simps field_defs same_outside_def blocks.simps)
    next
      case (Cons y ys')
      obtain c e where "y = (c, e)" by (cases y)
      then show ?thesis using assms \<open>xs = []\<close> Cons H
        by (auto simp: unlink_def list_ptr_def dl.simps field_defs same_outside_def blocks.simps)
    qed
  next
    case (snoc xs' x)
    obtain u v where x: "x = (u, v)" by (cases x)
    show ?thesis
    proof (cases ys)
      case Nil
      show ?thesis using assms snoc x Nil H
        by (auto simp: unlink_def list_ptr_def dl.simps field_defs same_outside_def blocks.simps)
    next
      case (Cons y ys')
      obtain c e where "y = (c, e)" by (cases y)
      then show ?thesis using assms snoc x Cons H
        by (auto simp: unlink_def list_ptr_def dl.simps field_defs same_outside_def blocks.simps)
    qed
  qed
qed

section \<open>Linking a fresh node\<close>

lemma first_not_Null: "e \<noteq> Null \<Longrightarrow> first_ptr xs e \<noteq> Null"
  by (cases "(xs, e)" rule: first_ptr.cases) auto

lemma link_last_dl:
  assumes "dl b h H xs" "a \<notin> blocks H xs"
    "cells h a = Some (CNode \<lparr>dat = d, nxt = Null, prv = Null\<rparr>)"
  shows "\<exists>h'. link_last (list_ptr H) (Ptr a 0) h = Inr h' \<and> dl b h' H (xs @ [(a, d)]) \<and>
    brk h' = brk h \<and> avail h' = avail h \<and> same_outside (blocks H (xs @ [(a, d)])) h h'"
proof -
  obtain la hn tn where H: "H = (la, hn, tn)" by (cases H)
  show ?thesis
  proof (cases xs rule: rev_cases)
    case Nil
    then show ?thesis using assms H
      by (auto simp: link_last_def llist_isEmpty_dl list_ptr_def dl.simps field_defs same_outside_def blocks.simps
        llist_isEmpty_def llist_first_def llist_last_def)
  next
    case (snoc xs' x)
    obtain u v where x: "x = (u, v)" by (cases x)
    have ne: "first_ptr xs' (Ptr u 0) \<noteq> Null" by (simp add: first_not_Null)
    show ?thesis using assms H snoc x ne
      by (auto simp: link_last_def list_ptr_def dl.simps field_defs same_outside_def blocks.simps
        llist_isEmpty_def llist_first_def llist_last_def)
  qed
qed
lemma link_first_dl:
  assumes "dl b h H xs" "a \<notin> blocks H xs"
    "cells h a = Some (CNode \<lparr>dat = d, nxt = Null, prv = Null\<rparr>)"
  shows "\<exists>h'. link_first (list_ptr H) (Ptr a 0) h = Inr h' \<and> dl b h' H ((a, d) # xs) \<and>
    brk h' = brk h \<and> avail h' = avail h \<and> same_outside (blocks H ((a, d) # xs)) h h'"
proof -
  obtain la hn tn where H: "H = (la, hn, tn)" by (cases H)
  show ?thesis
  proof (cases xs)
    case Nil
    then show ?thesis using assms H
      by (auto simp: link_first_def llist_isEmpty_dl list_ptr_def dl.simps field_defs same_outside_def blocks.simps
        llist_isEmpty_def llist_first_def llist_last_def)
  next
    case (Cons x xs')
    obtain u v where x: "x = (u, v)" by (cases x)
    show ?thesis using assms H Cons x
      by (auto simp: link_first_def list_ptr_def dl.simps field_defs same_outside_def blocks.simps
        llist_isEmpty_def llist_first_def llist_last_def)
  qed
qed


section \<open>The operations on the abstract list\<close>

text \<open>Entering an insertion: the mutex is taken and a fresh node holds the data.\<close>

lemma blocks_Nil_subset: "blocks H [] \<subseteq> blocks H xs"
  by (cases H) (auto simp: blocks.simps)

lemma lock_create_dl:
  assumes "dl False h H xs" "heap_ok h" "0 < avail h"
  shows "\<exists>h1 h2. pthread_mutex_lock (list_ptr H) h = Inr h1 \<and>
    createNewNode d h1 = Inr (Ptr (brk h) 0, h2) \<and> dl True h2 H xs \<and> brk h \<notin> blocks H xs \<and>
    cells h2 (brk h) = Some (CNode \<lparr>dat = d, nxt = Null, prv = Null\<rparr>) \<and>
    brk h2 = Suc (brk h) \<and> avail h2 = avail h - 1 \<and>
    same_outside (insert (brk h) (blocks H xs)) h h2"
proof -
  have fresh: "brk h \<notin> blocks H xs" using dl_below_brk [OF assms(1,2)] by auto
  obtain h1 where h1: "pthread_mutex_lock (list_ptr H) h = Inr h1" "dl True h1 H xs"
    "brk h1 = brk h" "avail h1 = avail h" "same_outside (blocks H []) h h1"
    using lock_dl [OF assms(1)] by blast
  define h2 where "h2 = h1\<lparr>cells := (cells h1)(brk h \<mapsto> CNode \<lparr>dat = d, nxt = Null, prv = Null\<rparr>),
    brk := Suc (brk h), avail := avail h - 1\<rparr>"
  have node: "createNewNode d h1 = Inr (Ptr (brk h) 0, h2)"
    using h1 assms(3) by (simp add: createNewNode_def alloc_ok put_def h2_def)
  have "dl True h2 H xs"
    by (rule dl_frame [OF h1(2)]) (use fresh in \<open>auto simp: h2_def\<close>)
  moreover have "same_outside (insert (brk h) (blocks H xs)) h h2"
    using h1(5) blocks_Nil_subset [of H xs] by (auto simp: same_outside_def h2_def)
  ultimately show ?thesis using h1(1) node fresh by (auto simp: h2_def)
qed

text \<open>Leaving an operation: the mutex is released and the heap stays well formed.\<close>

lemma leave_dl:
  assumes "dl True h' H xs" "heap_ok h" "same_outside A h h'" "brk h \<le> brk h'"
    "\<And>a. a \<in> A \<union> blocks H [] \<Longrightarrow> a < brk h'"
  shows "\<exists>h''. pthread_mutex_unlock (list_ptr H) h' = Inr h'' \<and> dl False h'' H xs \<and> heap_ok h'' \<and>
    brk h'' = brk h' \<and> avail h'' = avail h' \<and> same_outside (A \<union> blocks H []) h h'' \<and>
    same_outside (blocks H []) h' h''"
proof -
  from unlock_dl [OF assms(1)] obtain h'' where h'': "pthread_mutex_unlock (list_ptr H) h' = Inr h''"
    "dl False h'' H xs" "brk h'' = brk h'" "avail h'' = avail h'" "same_outside (blocks H []) h' h''"
    by blast
  have f: "same_outside (A \<union> blocks H []) h h''" by (rule same_outside_trans [OF assms(3) h''(5)])
  have "heap_ok h''"
    by (rule heap_ok_same_outside [OF assms(2) f]) (use assms(4,5) h'' in auto)
  with h'' f show ?thesis by blast
qed

lemma llist_insertlast_dl:
  assumes "dl False h H xs" "heap_ok h" "0 < avail h"
  shows "\<exists>h'. llist_insertlast (list_ptr H) d h = Inr h' \<and> dl False h' H (xs @ [(brk h, d)]) \<and>
    heap_ok h' \<and> brk h' = Suc (brk h) \<and> avail h' = avail h - 1 \<and>
    same_outside (insert (brk h) (blocks H xs)) h h'"
proof -
  from lock_create_dl [OF assms, of d] obtain h1 h2 where
    h: "pthread_mutex_lock (list_ptr H) h = Inr h1" "createNewNode d h1 = Inr (Ptr (brk h) 0, h2)"
    "dl True h2 H xs" "brk h \<notin> blocks H xs"
    "cells h2 (brk h) = Some (CNode \<lparr>dat = d, nxt = Null, prv = Null\<rparr>)"
    "brk h2 = Suc (brk h)" "avail h2 = avail h - 1" "same_outside (insert (brk h) (blocks H xs)) h h2"
    by blast
  from link_last_dl [OF h(3,4,5)] obtain h3 where
    h3: "link_last (list_ptr H) (Ptr (brk h) 0) h2 = Inr h3" "dl True h3 H (xs @ [(brk h, d)])"
    "brk h3 = brk h2" "avail h3 = avail h2" "same_outside (insert (brk h) (blocks H xs)) h2 h3"
    by (auto simp: Un_insert_right)
  have f: "same_outside (insert (brk h) (blocks H xs)) h h3"
    using same_outside_trans [OF h(8) h3(5)] by simp
  from leave_dl [OF h3(2) assms(2) f] h(6) h3(3) dl_below_brk [OF assms(1,2)] blocks_Nil_subset [of H xs]
  obtain h4 where "pthread_mutex_unlock (list_ptr H) h3 = Inr h4" "dl False h4 H (xs @ [(brk h, d)])"
    "heap_ok h4" "brk h4 = brk h3" "avail h4 = avail h3" "same_outside (insert (brk h) (blocks H xs)) h h4"
    by (fastforce simp: less_Suc_eq)
  with h h3 show ?thesis by (simp add: llist_insertlast_def)
qed

lemma llist_insertfirst_dl:
  assumes "dl False h H xs" "heap_ok h" "0 < avail h"
  shows "\<exists>h'. llist_insertfirst (list_ptr H) d h = Inr h' \<and> dl False h' H ((brk h, d) # xs) \<and>
    heap_ok h' \<and> brk h' = Suc (brk h) \<and> avail h' = avail h - 1 \<and>
    same_outside (insert (brk h) (blocks H xs)) h h'"
proof -
  from lock_create_dl [OF assms, of d] obtain h1 h2 where
    h: "pthread_mutex_lock (list_ptr H) h = Inr h1" "createNewNode d h1 = Inr (Ptr (brk h) 0, h2)"
    "dl True h2 H xs" "brk h \<notin> blocks H xs"
    "cells h2 (brk h) = Some (CNode \<lparr>dat = d, nxt = Null, prv = Null\<rparr>)"
    "brk h2 = Suc (brk h)" "avail h2 = avail h - 1" "same_outside (insert (brk h) (blocks H xs)) h h2"
    by blast
  from link_first_dl [OF h(3,4,5)] obtain h3 where
    h3: "link_first (list_ptr H) (Ptr (brk h) 0) h2 = Inr h3" "dl True h3 H ((brk h, d) # xs)"
    "brk h3 = brk h2" "avail h3 = avail h2" "same_outside (insert (brk h) (blocks H xs)) h2 h3"
    by auto
  have f: "same_outside (insert (brk h) (blocks H xs)) h h3"
    using same_outside_trans [OF h(8) h3(5)] by simp
  from leave_dl [OF h3(2) assms(2) f] h(6) h3(3) dl_below_brk [OF assms(1,2)] blocks_Nil_subset [of H xs]
  obtain h4 where "pthread_mutex_unlock (list_ptr H) h3 = Inr h4" "dl False h4 H ((brk h, d) # xs)"
    "heap_ok h4" "brk h4 = brk h3" "avail h4 = avail h3" "same_outside (insert (brk h) (blocks H xs)) h h4"
    by (fastforce simp: less_Suc_eq)
  with h h3 show ?thesis by (simp add: llist_insertfirst_def)
qed

text \<open>Entering a removal: the mutex is taken and the node is out of the chain.\<close>

lemma dl_removed_fresh: "dl b h H (xs @ (a, d) # ys) \<Longrightarrow> a \<notin> blocks H (xs @ ys)"
  by (cases H) (auto simp: dl.simps blocks.simps)

lemma enter_unlink_dl:
  assumes "dl False h H (xs @ (a, d) # ys)"
  shows "\<exists>h1 h2. pthread_mutex_lock (list_ptr H) h = Inr h1 \<and> dl True h1 H (xs @ (a, d) # ys) \<and>
    unlink (list_ptr H) (Ptr a 0) h1 = Inr h2 \<and> dl True h2 H (xs @ ys) \<and>
    (\<exists>n. cells h2 a = Some (CNode n) \<and> dat n = d) \<and> brk h2 = brk h \<and> avail h2 = avail h \<and>
    same_outside (blocks H (xs @ (a, d) # ys)) h h2"
proof -
  obtain h1 where h1: "pthread_mutex_lock (list_ptr H) h = Inr h1" "dl True h1 H (xs @ (a, d) # ys)"
    "brk h1 = brk h" "avail h1 = avail h" "same_outside (blocks H []) h h1"
    using lock_dl [OF assms] by blast
  from unlink_dl [OF h1(2)] obtain h2 where h2: "unlink (list_ptr H) (Ptr a 0) h1 = Inr h2"
    "dl True h2 H (xs @ ys)" "\<exists>n. cells h2 a = Some (CNode n) \<and> dat n = d" "brk h2 = brk h1"
    "avail h2 = avail h1" "same_outside (blocks H (xs @ (a, d) # ys)) h1 h2" by blast
  have "same_outside (blocks H (xs @ (a, d) # ys)) h h2"
    using h1(5) h2(6) blocks_Nil_subset [of H "xs @ (a, d) # ys"]
    by (auto simp: same_outside_def)
  with h1 h2 show ?thesis by auto
qed

lemma read_mem_dl:
  assumes "dl b h H xs" "same_outside (blocks H xs) h h'" "read_mem p n h = Inr bs"
  shows "read_mem p n h' = Inr bs"
proof -
  from assms(3) obtain a off c where p: "p = Ptr a off" "cells h a = Some (CChunk c)"
    by (rule read_mem_InrE)
  with chunk_not_in_blocks(1) [OF assms(1)] assms(2) have "cells h' a = cells h a"
    by (blast dest: same_outsideD)
  with p assms(3) show ?thesis by (metis addr_of_def ptr.simps(9) read_mem_cong)
qed

lemma llist_removefirst_dl:
  assumes "dl False h H ((a, d) # xs)" "heap_ok h" "read_mem d 4 h = Inr bs"
  shows "\<exists>h'. llist_removefirst (list_ptr H) h = Inr (un_le32 bs, h') \<and> dl False h' H xs \<and>
    heap_ok h' \<and> brk h' = brk h \<and> avail h' = avail h \<and> cells h' a = None \<and>
    same_outside (blocks H ((a, d) # xs)) h h'"
proof -
  from enter_unlink_dl [of h H "[]" a d xs] assms(1) obtain h1 h2 n where
    h: "pthread_mutex_lock (list_ptr H) h = Inr h1" "dl True h1 H ((a, d) # xs)"
    "unlink (list_ptr H) (Ptr a 0) h1 = Inr h2" "dl True h2 H xs"
    "cells h2 a = Some (CNode n)" "dat n = d" "brk h2 = brk h" "avail h2 = avail h"
    "same_outside (blocks H ((a, d) # xs)) h h2" by auto
  define h3 where "h3 = h2\<lparr>cells := (cells h2)(a := None)\<rparr>"
  have a: "a \<notin> blocks H xs" using dl_removed_fresh [of False h H "[]"] assms(1) by simp
  have r: "read_mem d 4 h2 = Inr bs"
    by (rule read_mem_dl [OF assms(1) h(9) assms(3)])
  have d3: "dl True h3 H xs" by (rule dl_frame [OF h(4)]) (use a in \<open>auto simp: h3_def\<close>)
  have f: "same_outside (blocks H ((a, d) # xs)) h h3"
    using h(9) by (auto simp: same_outside_def h3_def)
  from leave_dl [OF d3 assms(2) f] dl_below_brk [OF assms(1,2)] blocks_Nil_subset [of H xs] h(7)
  obtain h4 where h4: "pthread_mutex_unlock (list_ptr H) h3 = Inr h4" "dl False h4 H xs"
    "heap_ok h4" "brk h4 = brk h3" "avail h4 = avail h3" "same_outside (blocks H ((a, d) # xs)) h h4"
    "same_outside (blocks H []) h3 h4"
    by (fastforce simp: h3_def)
  have "cells h4 a = None"
    using h4(7) a blocks_Nil_subset [of H xs] by (auto simp: same_outside_def h3_def)
  with h h4 r llist_first_dl [OF h(2)] show ?thesis
    by (simp add: llist_removefirst_def dat_of_def h3_def)
qed

lemma llist_remove_dl:
  assumes "dl False h H (xs @ (a, d) # ys)" "heap_ok h"
  shows "\<exists>h'. llist_remove (list_ptr H) (Ptr a 0) h = Inr (first_ptr ys Null, h') \<and>
    dl False h' H (xs @ ys) \<and> heap_ok h' \<and> brk h' = brk h \<and> avail h' = avail h \<and>
    cells h' a = None \<and> same_outside (blocks H (xs @ (a, d) # ys)) h h'"
proof -
  from enter_unlink_dl [OF assms(1)] obtain h1 h2 n where
    h: "pthread_mutex_lock (list_ptr H) h = Inr h1" "dl True h1 H (xs @ (a, d) # ys)"
    "unlink (list_ptr H) (Ptr a 0) h1 = Inr h2" "dl True h2 H (xs @ ys)"
    "cells h2 a = Some (CNode n)" "brk h2 = brk h" "avail h2 = avail h"
    "same_outside (blocks H (xs @ (a, d) # ys)) h h2" by auto
  define h3 where "h3 = h2\<lparr>cells := (cells h2)(a := None)\<rparr>"
  have a: "a \<notin> blocks H (xs @ ys)" by (rule dl_removed_fresh [OF assms(1)])
  have nx: "nxt_of (Ptr a 0) h1 = Inr (first_ptr ys Null)"
    using h(2) by (cases H) (auto simp: dl.simps nxt_of_def)
  have d3: "dl True h3 H (xs @ ys)" by (rule dl_frame [OF h(4)]) (use a in \<open>auto simp: h3_def\<close>)
  have f: "same_outside (blocks H (xs @ (a, d) # ys)) h h3"
    using h(8) by (auto simp: same_outside_def h3_def)
  from leave_dl [OF d3 assms(2) f] dl_below_brk [OF assms(1,2)] blocks_Nil_subset [of H "xs @ (a, d) # ys"] h(6)
  obtain h4 where h4: "pthread_mutex_unlock (list_ptr H) h3 = Inr h4" "dl False h4 H (xs @ ys)"
    "heap_ok h4" "brk h4 = brk h3" "avail h4 = avail h3"
    "same_outside (blocks H (xs @ (a, d) # ys) \<union> blocks H []) h h4" "same_outside (blocks H []) h3 h4"
    by (fastforce simp: h3_def)
  have "cells h4 a = None"
    using h4(7) a blocks_Nil_subset [of H "xs @ ys"] by (auto simp: same_outside_def h3_def)
  moreover have "same_outside (blocks H (xs @ (a, d) # ys)) h h4"
    by (rule same_outside_mono [OF h4(6)]) (use blocks_Nil_subset [of H] in auto)
  ultimately show ?thesis using h h4 nx llist_isEmpty_dl [OF h(2)]
    by (simp add: llist_remove_def h3_def)
qed


lemma llist_removefirst_INT_dl:
  assumes "dl False h H ((a, Ptr da 0) # xs)" "heap_ok h" "0 < avail h"
    "cells h da = Some (CChunk c)" "8 \<le> length c"
  shows "\<exists>h'. llist_removefirst_INT (list_ptr H) h = Inr (Ptr (brk h) 0, h') \<and> dl False h' H xs \<and>
    heap_ok h' \<and> brk h' = Suc (brk h) \<and> avail h' = avail h - 1 \<and>
    cells h' (brk h) = Some (CChunk (take 8 c)) \<and> cells h' a = None \<and> cells h' da = None \<and>
    same_outside ({brk h, da} \<union> blocks H ((a, Ptr da 0) # xs)) h h'"
proof -
  let ?A = "{brk h, da} \<union> blocks H ((a, Ptr da 0) # xs)"
  from enter_unlink_dl [of h H "[]" a "Ptr da 0" xs] assms(1) obtain h1 h2 n where
    h: "pthread_mutex_lock (list_ptr H) h = Inr h1" "dl True h1 H ((a, Ptr da 0) # xs)"
    "unlink (list_ptr H) (Ptr a 0) h1 = Inr h2" "dl True h2 H xs"
    "cells h2 a = Some (CNode n)" "dat n = Ptr da 0" "brk h2 = brk h" "avail h2 = avail h"
    "same_outside (blocks H ((a, Ptr da 0) # xs)) h h2" by auto
  define h3 where "h3 = h2\<lparr>brk := Suc (brk h), avail := avail h - 1,
    cells := (cells h2)(brk h \<mapsto> CChunk (take 8 c), da := None, a := None)\<rparr>"
  have below: "\<And>x. x \<in> blocks H ((a, Ptr da 0) # xs) \<Longrightarrow> x < brk h"
    by (rule dl_below_brk [OF assms(1,2)])
  have a: "a \<notin> blocks H xs" using dl_removed_fresh [of False h H "[]"] assms(1) by simp
  have da: "da \<notin> blocks H ((a, Ptr da 0) # xs)" by (rule chunk_not_in_blocks(1) [OF assms(1,4)])
  have lt: "da < brk h" "a < brk h" using assms(2,4) below by (auto simp: heap_ok_def not_less [symmetric])
  have c2: "cells h2 da = Some (CChunk c)" using h(9) da assms(4) by (simp add: same_outside_def)
  have d3: "dl True h3 H xs"
    by (rule dl_frame [OF h(4)]) (use a da below in \<open>auto simp: h3_def\<close>)
  have f: "same_outside ?A h h3" using h(9) by (auto simp: same_outside_def h3_def)
  have bd: "x < brk h3" if "x \<in> ?A \<union> blocks H []" for x
    using that lt below [of x] blocks_Nil_subset [of H "(a, Ptr da 0) # xs"]
    by (auto simp: h3_def less_Suc_eq)
  have up: "brk h \<le> brk h3" by (simp add: h3_def)
  from leave_dl [OF d3 assms(2) f up bd] obtain h4 where h4: "pthread_mutex_unlock (list_ptr H) h3 = Inr h4" "dl False h4 H xs"
    "heap_ok h4" "brk h4 = brk h3" "avail h4 = avail h3" "same_outside (?A \<union> blocks H []) h h4"
    "same_outside (blocks H []) h3 h4"
    by blast
  have outside: "x \<notin> blocks H []" if "x \<in> {a, da, brk h}" for x
    using that a da below blocks_Nil_subset [of H xs] by auto
  then have "cells h4 (brk h) = Some (CChunk (take 8 c))" "cells h4 a = None" "cells h4 da = None"
    using h4(7) lt by (auto simp: same_outside_def h3_def)
  moreover have "same_outside ?A h h4"
    by (rule same_outside_mono [OF h4(6)]) (use blocks_Nil_subset [of H xs] in auto)
  moreover have "llist_removefirst_INT (list_ptr H) h = Inr (Ptr (brk h) 0, h4)"
    using h h4(1) llist_first_dl [OF h(2)] c2 lt assms(3,5) da
    by (auto simp: llist_removefirst_INT_def dat_of_def alloc_ok h3_def put_def fun_upd_twist)
  ultimately show ?thesis using h4 by (auto simp: h3_def)
qed

lemma pdu_cell_eq: "\<lparr>c_op = c_op P, c_bytes = c_bytes P, c_data = d\<rparr> = P\<lparr>c_data := d\<rparr>"
  by (cases P) simp

lemma drop_replicate_Suc: "drop n (x # replicate n x) = [x]"
  by (induction n) auto

lemma llist_removefirst_PDU_dl:
  assumes "dl False h H ((a, Ptr da 0) # xs)" "heap_ok h" "1 < avail h"
    "cells h da = Some (CPdu P)" "c_data P = Ptr db 0" "cells h db = Some (CChunk c)"
    "unat (c_bytes P) \<le> length c"
  shows "\<exists>h'. llist_removefirst_PDU (list_ptr H) h = Inr (Ptr (Suc (brk h)) 0, h') \<and>
    dl False h' H xs \<and> heap_ok h' \<and> brk h' = Suc (Suc (brk h)) \<and> avail h' = avail h - 2 \<and>
    cells h' (Suc (brk h)) = Some (CPdu (P\<lparr>c_data := Ptr (brk h) 0\<rparr>)) \<and>
    cells h' (brk h) = Some (CChunk (take (unat (c_bytes P)) c @ [0])) \<and>
    cells h' a = None \<and> cells h' da = None \<and> cells h' db = None \<and>
    same_outside ({brk h, Suc (brk h), da, db} \<union> blocks H ((a, Ptr da 0) # xs)) h h'"
proof -
  let ?A = "{brk h, Suc (brk h), da, db} \<union> blocks H ((a, Ptr da 0) # xs)"
  let ?bs = "take (unat (c_bytes P)) c @ [0]"
  from enter_unlink_dl [of h H "[]" a "Ptr da 0" xs] assms(1) obtain h1 h2 n where
    h: "pthread_mutex_lock (list_ptr H) h = Inr h1" "dl True h1 H ((a, Ptr da 0) # xs)"
    "unlink (list_ptr H) (Ptr a 0) h1 = Inr h2" "dl True h2 H xs"
    "cells h2 a = Some (CNode n)" "dat n = Ptr da 0" "brk h2 = brk h" "avail h2 = avail h"
    "same_outside (blocks H ((a, Ptr da 0) # xs)) h h2" by auto
  define h3 where "h3 = h2\<lparr>brk := Suc (Suc (brk h)), avail := avail h - 2,
    cells := (cells h2)(brk h \<mapsto> CChunk ?bs, Suc (brk h) \<mapsto> CPdu (P\<lparr>c_data := Ptr (brk h) 0\<rparr>),
      db := None, da := None, a := None)\<rparr>"
  have below: "\<And>x. x \<in> blocks H ((a, Ptr da 0) # xs) \<Longrightarrow> x < brk h"
    by (rule dl_below_brk [OF assms(1,2)])
  have a: "a \<notin> blocks H xs" using dl_removed_fresh [of False h H "[]"] assms(1) by simp
  have da: "da \<notin> blocks H ((a, Ptr da 0) # xs)" by (rule chunk_not_in_blocks(2) [OF assms(1,4)])
  have db: "db \<notin> blocks H ((a, Ptr da 0) # xs)" by (rule chunk_not_in_blocks(1) [OF assms(1,6)])
  have lt: "da < brk h" "db < brk h" "a < brk h" "da \<noteq> db"
    using assms(2,4,6) below by (auto simp: heap_ok_def not_less [symmetric])
  have c2: "cells h2 da = Some (CPdu P)" "cells h2 db = Some (CChunk c)"
    using h(9) da db assms(4,6) by (auto simp: same_outside_def)
  have d3: "dl True h3 H xs"
    by (rule dl_frame [OF h(4)]) (use a da db below [of "brk h"] below [of "Suc (brk h)"] in \<open>auto simp: h3_def\<close>)
  have f: "same_outside ?A h h3" using h(9) by (auto simp: same_outside_def h3_def)
  have bd: "x < brk h3" if "x \<in> ?A \<union> blocks H []" for x
    using that lt below [of x] blocks_Nil_subset [of H "(a, Ptr da 0) # xs"]
    by (auto simp: h3_def less_Suc_eq)
  have up: "brk h \<le> brk h3" by (simp add: h3_def)
  from leave_dl [OF d3 assms(2) f up bd] obtain h4 where h4: "pthread_mutex_unlock (list_ptr H) h3 = Inr h4" "dl False h4 H xs"
    "heap_ok h4" "brk h4 = brk h3" "avail h4 = avail h3" "same_outside (?A \<union> blocks H []) h h4"
    "same_outside (blocks H []) h3 h4"
    by blast
  have outside: "x \<notin> blocks H []" if "x \<in> {a, da, db, brk h, Suc (brk h)}" for x
    using that a da db below [of x] blocks_Nil_subset [of H "(a, Ptr da 0) # xs"] blocks_Nil_subset [of H xs] by auto
  then have "cells h4 (brk h) = Some (CChunk ?bs)" "cells h4 a = None" "cells h4 da = None"
    "cells h4 db = None" "cells h4 (Suc (brk h)) = Some (CPdu (P\<lparr>c_data := Ptr (brk h) 0\<rparr>))"
    using h4(7) lt by (auto simp: same_outside_def h3_def)
  moreover have "same_outside ?A h h4"
    by (rule same_outside_mono [OF h4(6)]) (use blocks_Nil_subset [of H xs] in auto)
  moreover have "llist_removefirst_PDU (list_ptr H) h = Inr (Ptr (Suc (brk h)) 0, h4)"
    using h h4(1) llist_first_dl [OF h(2)] c2 lt assms(3,5,7) da db
    by (simp add: llist_removefirst_PDU_def dat_of_def alloc_ok h3_def put_def fun_upd_twist
      pdu_cell_eq drop_replicate_Suc numeral_2_eq_2)
  ultimately show ?thesis using h4 by (auto simp: h3_def)
qed

section \<open>Observers\<close>

lemma lock_unlock_id:
  assumes "dl False h H xs"
  shows "\<exists>h1. pthread_mutex_lock (list_ptr H) h = Inr h1 \<and> dl True h1 H xs \<and>
    pthread_mutex_unlock (list_ptr H) h1 = Inr h"
  using assms
  by (cases H) (auto simp: dl.simps list_ptr_def put_def fun_upd_idem)

lemma list_length_loop_dseg:
  "dseg (cells h) q xs Null \<Longrightarrow>
   list_length_loop (first_ptr xs Null) c h = Some (Inr (c + of_nat (length xs)))"
proof (induction xs arbitrary: q c)
  case Nil
  then show ?case by (simp add: list_length_loop.simps)
next
  case (Cons x xs)
  obtain a d where x: "x = (a, d)" by (cases x)
  have "list_length_loop (first_ptr xs Null) (c + 1) h = Some (Inr (c + 1 + of_nat (length xs)))"
    using Cons.prems x by (auto intro: Cons.IH)
  with Cons.prems x show ?case
    by (simp add: list_length_loop.simps [of "Ptr a 0"] nxt_of_def add.assoc)
qed

lemma list_length_dl:
  assumes "dl False h H xs"
  shows "list_length (list_ptr H) h = Some (Inr (of_nat (length xs), h))"
proof -
  obtain h1 where h1: "pthread_mutex_lock (list_ptr H) h = Inr h1" "dl True h1 H xs"
    "pthread_mutex_unlock (list_ptr H) h1 = Inr h" using lock_unlock_id [OF assms] by blast
  have "dseg (cells h1) Null xs Null" using h1(2) by (cases H) (simp add: dl.simps)
  from list_length_loop_dseg [OF this, of 0] h1 llist_first_dl [OF h1(2)] show ?thesis
    by (simp add: list_length_def)
qed

lemma dl_dat_of: "dl b h H xs \<Longrightarrow> (a, d) \<in> set xs \<Longrightarrow> dat_of (Ptr a 0) h = Inr d"
proof -
  have "dseg m q ys e \<Longrightarrow> (a, d) \<in> set ys \<Longrightarrow> \<exists>n. m a = Some (CNode n) \<and> dat n = d" for m q ys e
    by (induction m q ys e rule: dseg.induct) auto
  then show "dl b h H xs \<Longrightarrow> (a, d) \<in> set xs \<Longrightarrow> dat_of (Ptr a 0) h = Inr d"
    by (cases H) (fastforce simp: dl.simps dat_of_def)
qed

lemma llist_inspect_dl:
  assumes "dl False h H xs" "(a, d) \<in> set xs"
  shows "llist_inspect (Ptr a 0) (list_ptr H) h = Inr (d, h)"
proof -
  obtain h1 where h1: "pthread_mutex_lock (list_ptr H) h = Inr h1" "dl True h1 H xs"
    "pthread_mutex_unlock (list_ptr H) h1 = Inr h" using lock_unlock_id [OF assms(1)] by blast
  have "xs \<noteq> []" using assms(2) by auto
  with h1 dl_dat_of [OF assms] llist_isEmpty_dl [OF h1(2)] show ?thesis
    by (simp add: llist_inspect_def)
qed

text \<open>On an empty list the early return of \<open>llist_inspect\<close> keeps the mutex.\<close>

lemma llist_inspect_empty_dl:
  assumes "dl False h H []"
  shows "\<exists>h'. llist_inspect p (list_ptr H) h = Inr (Null, h') \<and> dl True h' H []"
proof -
  obtain h1 where h1: "pthread_mutex_lock (list_ptr H) h = Inr h1" "dl True h1 H []"
    using lock_unlock_id [OF assms(1)] by blast
  with llist_isEmpty_dl [OF h1(2)] show ?thesis by (simp add: llist_inspect_def)
qed

lemma lock_dl_held: "dl True h H xs \<Longrightarrow> pthread_mutex_lock (list_ptr H) h = Inl Deadlock"
  by (cases H) (auto simp: dl.simps list_ptr_def lock_held)

section \<open>Creation and disposal\<close>

lemma llist_empty_dl:
  assumes "heap_ok h" "2 < avail h"
  shows "\<exists>h'. llist_empty h = Inr (list_ptr (brk h, Suc (brk h), Suc (Suc (brk h))), h') \<and>
    dl False h' (brk h, Suc (brk h), Suc (Suc (brk h))) [] \<and> heap_ok h' \<and>
    brk h' = brk h + 3 \<and> avail h' = avail h - 3 \<and>
    same_outside {brk h, Suc (brk h), Suc (Suc (brk h))} h h'"
  using assms
  by (auto simp: llist_empty_def alloc_ok junk_node_def list_ptr_def field_defs dl.simps
    same_outside_def heap_ok_def)


text \<open>The data blocks a list owns: one block per node, each the start of a live block.\<close>

fun owns :: "heap \<Rightarrow> handle \<Rightarrow> (nat \<times> ptr) list \<Rightarrow> nat list \<Rightarrow> bool" where
  "owns h H xs das \<longleftrightarrow> map snd xs = map (\<lambda>a. Ptr a 0) das \<and> distinct das \<and>
     (\<forall>a \<in> set das. cells h a \<noteq> None) \<and> set das \<inter> blocks H xs = {}"

text \<open>Freeing the data of the first node and removing it, as both functions that free a list do.\<close>

lemma free_first_dl:
  assumes "dl False h H ((a, d) # xs)" "heap_ok h" "owns h H ((a, d) # xs) (da # das)"
  shows "\<exists>h'. bind_r (dat_of (Ptr a 0) h) (\<lambda>d. bind_r (c_free d h) (\<lambda>h. llist_remove (list_ptr H) (Ptr a 0) h)) =
      Inr (first_ptr xs Null, h') \<and> dl False h' H xs \<and> heap_ok h' \<and> cells h' a = None \<and> cells h' da = None \<and>
    same_outside (insert da (blocks H ((a, d) # xs))) h h' \<and> owns h' H xs das"
proof -
  define h1 where "h1 = h\<lparr>cells := (cells h)(da := None)\<rparr>"
  have da: "d = Ptr da 0" "da \<notin> blocks H ((a, d) # xs)" "cells h da \<noteq> None" "da \<notin> set das"
    using assms(3) by auto
  have dl1: "dl False h1 H ((a, d) # xs)"
    by (rule dl_frame [OF assms(1)]) (use da in \<open>auto simp: h1_def\<close>)
  have ok1: "heap_ok h1" using assms(2) by (auto simp: heap_ok_def h1_def)
  from llist_remove_dl [of h1 H "[]" a d xs] dl1 ok1 obtain h2 where
    h2: "llist_remove (list_ptr H) (Ptr a 0) h1 = Inr (first_ptr xs Null, h2)" "dl False h2 H xs"
    "heap_ok h2" "cells h2 a = None" "same_outside (blocks H ((a, d) # xs)) h1 h2" by auto
  have "cells h2 y = cells h y" if "y \<in> set das" for y
    using that assms(3) da(4) h2(5) by (auto simp: same_outside_def h1_def)
  then have "owns h2 H xs das" using assms(3) by auto
  moreover have "dat_of (Ptr a 0) h = Inr d" using dl_dat_of [OF assms(1)] by auto
  moreover have "c_free d h = Inr h1" using da by (auto simp: h1_def)
  moreover have "cells h2 da = None" "same_outside (insert da (blocks H ((a, d) # xs))) h h2"
    using h2(5) da(2) by (auto simp: same_outside_def h1_def)
  ultimately show ?thesis using h2 by auto
qed

lemma llist_free_loop_dl:
  assumes "dl False h H xs" "heap_ok h" "owns h H xs das"
  shows "\<exists>h'. llist_free_loop (list_ptr H) (first_ptr xs Null) h = Some (Inr h') \<and>
    dl False h' H [] \<and> heap_ok h' \<and> same_outside (blocks H xs \<union> set das) h h' \<and>
    (\<forall>a \<in> fst ` set xs \<union> set das. cells h' a = None)"
  using assms
proof (induction xs arbitrary: h das)
  case Nil
  then show ?case by (simp add: llist_free_loop.simps same_outside_def)
next
  case (Cons x xs)
  obtain a d where x: "x = (a, d)" by (cases x)
  from Cons.prems(3) x obtain da das' where das: "das = da # das'" by (cases das) auto
  from free_first_dl [OF Cons.prems [unfolded x das]] obtain h2 where
    h2: "bind_r (dat_of (Ptr a 0) h) (\<lambda>d. bind_r (c_free d h) (\<lambda>h. llist_remove (list_ptr H) (Ptr a 0) h)) =
      Inr (first_ptr xs Null, h2)" "dl False h2 H xs" "heap_ok h2" "cells h2 a = None" "cells h2 da = None"
      "same_outside (insert da (blocks H ((a, d) # xs))) h h2" "owns h2 H xs das'" by blast
  from Cons.IH [OF h2(2,3,7)] obtain h3 where
    h3: "llist_free_loop (list_ptr H) (first_ptr xs Null) h2 = Some (Inr h3)" "dl False h3 H []" "heap_ok h3"
    "same_outside (blocks H xs \<union> set das') h2 h3" "\<forall>a \<in> fst ` set xs \<union> set das'. cells h3 a = None" by blast
  have "llist_free_loop (list_ptr H) (Ptr a 0) h = Some (Inr h3)"
    using h2(1) h3(1) by (simp add: llist_free_loop.simps [of _ "Ptr a 0"])
  moreover have "same_outside (blocks H ((a, d) # xs) \<union> set das) h h3"
    using h2(6) h3(4) das by (auto simp: same_outside_def)
  moreover have an: "a \<notin> blocks H xs \<union> set das'" "da \<notin> blocks H xs \<union> set das'"
    using dl_removed_fresh [of False h H "[]" a d xs] Cons.prems x das by auto
  have "cells h3 a = None" "cells h3 da = None"
    using h2(4,5) h3(4) an by (auto simp: same_outside_def)
  ultimately show ?case using x das h3(2,3,5) by auto
qed

lemma llist_free_dl:
  assumes "dl False h H xs" "heap_ok h" "owns h H xs das"
  shows "\<exists>h'. llist_free (list_ptr H) h = Some (Inr h') \<and> 
    heap_ok h' \<and> same_outside (blocks H xs \<union> set das) h h' \<and> (\<forall>a \<in> blocks H xs \<union> set das. cells h' a = None)"
proof -
  from llist_free_loop_dl [OF assms] obtain h1 where
    h1: "llist_free_loop (list_ptr H) (first_ptr xs Null) h = Some (Inr h1)" "dl False h1 H []"
    "heap_ok h1" "same_outside (blocks H xs \<union> set das) h h1" "\<forall>a \<in> fst ` set xs \<union> set das. cells h1 a = None" by blast
  obtain la hn tn where H: "H = (la, hn, tn)" by (cases H)
  show ?thesis
    using h1 H llist_first_dl [OF assms(1)]
    by (auto simp: llist_free_def dl.simps list_ptr_def blocks.simps same_outside_def heap_ok_def)
qed


end
