(* ===== verification/ListQueue.thy ===== *)
theory ListQueue
  imports LinkedList
begin

text \<open>
  The two ways the server uses the list of list.c as a queue: \<open>availableThreads\<close> and
  \<open>terminatedThreads\<close> hold thread numbers (\<open>llist_removefirst_INT\<close>), \<open>sender_list\<close> holds PDUs
  (\<open>llist_removefirst_PDU\<close>, which hands out a deep copy and frees the original). The contract
  \<open>fifo\<close> says what a queue promises its client; both uses are interpretations of it, and
  every run of operations on the heap gives the results of the run on an abstract queue.
\<close>

section \<open>Items and queues on the heap\<close>

text \<open>
  \<open>item h bs v\<close>: the blocks \<open>bs\<close>, the first of which is the one pointed to, hold the value \<open>v\<close>.
\<close>

definition int_item :: "heap \<Rightarrow> nat list \<Rightarrow> u32 \<Rightarrow> bool" where
  "int_item h bs v \<longleftrightarrow>
     (\<exists>d c. bs = [d] \<and> cells h d = Some (CChunk c) \<and> 8 \<le> length c \<and> un_le32 c = v)"

definition pdu_item :: "heap \<Rightarrow> nat list \<Rightarrow> u8 \<times> byte list \<Rightarrow> bool" where
  "pdu_item h bs v \<longleftrightarrow>
     (\<exists>p b P c. bs = [p, b] \<and> cells h p = Some (CPdu P) \<and> c_data P = Ptr b 0 \<and>
        cells h b = Some (CChunk c) \<and> unat (c_bytes P) \<le> length c \<and>
        v = (c_op P, take (unat (c_bytes P)) c))"

type_synonym 'v item = "heap \<Rightarrow> nat list \<Rightarrow> 'v \<Rightarrow> bool"

definition nodes_of :: "(nat \<times> nat list) list \<Rightarrow> (nat \<times> ptr) list" where
  "nodes_of ys = map (\<lambda>(a, bs). (a, Ptr (hd bs) 0)) ys"

definition queue_at :: "'v item \<Rightarrow> heap \<Rightarrow> handle \<Rightarrow> (nat \<times> nat list) list \<Rightarrow> 'v list \<Rightarrow> bool" where
  "queue_at item h H ys vs \<longleftrightarrow> heap_ok h \<and> dl False h H (nodes_of ys) \<and>
     list_all2 (\<lambda>y v. item h (snd y) v) ys vs \<and> distinct (concat (map snd ys))"

definition queue_rep :: "'v item \<Rightarrow> heap \<Rightarrow> handle \<Rightarrow> 'v list \<Rightarrow> bool" where
  "queue_rep item h H vs \<longleftrightarrow> (\<exists>ys. queue_at item h H ys vs)"

text \<open>A queue and, apart from it, a pointer to one more item.\<close>

definition queue_item :: "'v item \<Rightarrow> heap \<Rightarrow> handle \<Rightarrow> 'v list \<Rightarrow> ptr \<Rightarrow> 'v \<Rightarrow> bool" where
  "queue_item item h H vs p v \<longleftrightarrow>
     (\<exists>ys bs. queue_at item h H ys vs \<and> item h bs v \<and> p = Ptr (hd bs) 0 \<and>
        distinct bs \<and> set bs \<inter> \<Union> (set ` snd ` set ys) = {})"

lemma nodes_of_simps [simp]:
  "nodes_of [] = []" "nodes_of ((a, bs) # ys) = (a, Ptr (hd bs) 0) # nodes_of ys"
  "nodes_of (ys @ zs) = nodes_of ys @ nodes_of zs"
  by (simp_all add: nodes_of_def)

section \<open>What is common to all items\<close>

locale cell_item =
  fixes item :: "'v item"
  assumes item_cong: "item h bs v \<Longrightarrow> (\<And>a. a \<in> set bs \<Longrightarrow> cells h' a = cells h a) \<Longrightarrow> item h' bs v"
    and item_cells: "item h bs v \<Longrightarrow> a \<in> set bs \<Longrightarrow>
      (\<exists>c. cells h a = Some (CChunk c)) \<or> (\<exists>P. cells h a = Some (CPdu P))"
    and item_nonempty: "item h bs v \<Longrightarrow> bs \<noteq> []"
begin

lemma item_not_blocks: "item h bs v \<Longrightarrow> dl b h H xs \<Longrightarrow> a \<in> set bs \<Longrightarrow> a \<notin> blocks H xs"
  using item_cells [of h bs v a] by (auto dest: chunk_not_in_blocks)

lemma item_below: "item h bs v \<Longrightarrow> heap_ok h \<Longrightarrow> a \<in> set bs \<Longrightarrow> a < brk h"
  using item_cells [of h bs v a] by (auto simp: heap_ok_def not_less [symmetric])

lemma items_cong:
  assumes "list_all2 (\<lambda>y v. item h (snd y) v) ys vs"
    "\<And>a. a \<in> \<Union> (set ` snd ` set ys) \<Longrightarrow> cells h' a = cells h a"
  shows "list_all2 (\<lambda>y v. item h' (snd y) v) ys vs"
  using assms
proof (induction ys vs rule: list_all2_induct)
  case (Cons y ys v vs)
  then show ?case by (auto intro: item_cong)
qed simp

lemma items_cells:
  assumes "list_all2 (\<lambda>y v. item h (snd y) v) ys vs" "a \<in> \<Union> (set ` snd ` set ys)"
  shows "(\<exists>c. cells h a = Some (CChunk c)) \<or> (\<exists>P. cells h a = Some (CPdu P))"
  using assms
proof (induction ys vs rule: list_all2_induct)
  case (Cons y ys v vs)
  then show ?case using item_cells [of h "snd y" v a] by auto
qed simp

lemma items_not_blocks:
  assumes "list_all2 (\<lambda>y v. item h (snd y) v) ys vs" "dl b h H xs" "a \<in> \<Union> (set ` snd ` set ys)"
  shows "a \<notin> blocks H xs"
  using items_cells [OF assms(1,3)] assms(2) by (auto dest: chunk_not_in_blocks)

lemma items_below:
  assumes "list_all2 (\<lambda>y v. item h (snd y) v) ys vs" "heap_ok h" "a \<in> \<Union> (set ` snd ` set ys)"
  shows "a < brk h"
  using items_cells [OF assms(1,3)] assms(2) by (auto simp: heap_ok_def not_less [symmetric])

lemma queue_put:
  assumes "queue_item item h H vs p v" "0 < avail h"
  shows "\<exists>h'. llist_insertlast (list_ptr H) p h = Inr h' \<and> queue_rep item h' H (vs @ [v]) \<and>
    avail h' = avail h - 1"
proof -
  from assms(1) obtain ys bs where q: "heap_ok h" "dl False h H (nodes_of ys)"
    "list_all2 (\<lambda>y v. item h (snd y) v) ys vs" "distinct (concat (map snd ys))"
    and i: "item h bs v" "p = Ptr (hd bs) 0" "distinct bs" "set bs \<inter> \<Union> (set ` snd ` set ys) = {}"
    by (auto simp: queue_item_def queue_at_def)
  from llist_insertlast_dl [OF q(2,1) assms(2), of p] obtain h' where
    h': "llist_insertlast (list_ptr H) p h = Inr h'" "dl False h' H (nodes_of ys @ [(brk h, p)])"
    "heap_ok h'" "avail h' = avail h - 1" "same_outside (insert (brk h) (blocks H (nodes_of ys))) h h'"
    by blast
  have same: "cells h' a = cells h a" if "a \<in> set bs \<union> \<Union> (set ` snd ` set ys)" for a
  proof -
    have "a < brk h" "a \<notin> blocks H (nodes_of ys)"
      using that item_below [OF i(1) q(1)] items_below [OF q(3,1)]
        item_not_blocks [OF i(1) q(2)] items_not_blocks [OF q(3,2)] by blast+
    with h'(5) show ?thesis by (auto simp: same_outside_def)
  qed
  have "list_all2 (\<lambda>y v. item h' (snd y) v) ys vs" by (rule items_cong [OF q(3)]) (use same in blast)
  moreover have "item h' bs v" by (rule item_cong [OF i(1)]) (use same in blast)
  ultimately have "queue_at item h' H (ys @ [(brk h, bs)]) (vs @ [v])"
    using h' q(4) i by (auto simp: queue_at_def intro: list_all2_appendI)
  with h' show ?thesis by (auto simp: queue_rep_def)
qed

text \<open>Any change away from the queue keeps it; a fresh item is apart from it.\<close>

lemma queue_frame:
  assumes "queue_at item h H ys vs" "heap_ok h'"
    "\<And>a. a \<in> blocks H (nodes_of ys) \<union> \<Union> (set ` snd ` set ys) \<Longrightarrow> cells h' a = cells h a"
  shows "queue_at item h' H ys vs"
  using assms items_cong [of h ys vs h'] dl_frame [of False h H "nodes_of ys" h']
  by (auto simp: queue_at_def)

lemma queue_at_below:
  assumes "queue_at item h H ys vs" "a \<in> blocks H (nodes_of ys) \<union> \<Union> (set ` snd ` set ys)"
  shows "a < brk h"
  using assms items_below [of h ys vs a] dl_below_brk [of False h H "nodes_of ys" a]
  by (auto simp: queue_at_def)

lemma queue_item_fresh:
  assumes "queue_rep item h H vs" "heap_ok h'" "same_outside (set bs) h h'"
    "\<And>a. a \<in> set bs \<Longrightarrow> brk h \<le> a" "item h' bs v" "distinct bs"
  shows "queue_item item h' H vs (Ptr (hd bs) 0) v"
proof -
  from assms(1) obtain ys where q: "queue_at item h H ys vs" by (auto simp: queue_rep_def)
  have apart: "a \<notin> set bs" if "a \<in> blocks H (nodes_of ys) \<union> \<Union> (set ` snd ` set ys)" for a
    using queue_at_below [OF q that] assms(4) [of a] by auto
  have "queue_at item h' H ys vs"
    by (rule queue_frame [OF q assms(2)]) (use apart assms(3) in \<open>auto simp: same_outside_def\<close>)
  with assms(5,6) apart show ?thesis unfolding queue_item_def by blast
qed

text \<open>After the front node is gone and its item has been replaced by a fresh one.\<close>

lemma queue_rest:
  assumes q: "queue_at item h H ((a, bs) # ys) (v # vs)"
    and h': "dl False h' H (nodes_of ys)" "heap_ok h'"
      "same_outside (A \<union> (set bs \<union> blocks H (nodes_of ((a, bs) # ys)))) h h'"
    and A: "\<And>x. x \<in> A \<Longrightarrow> brk h \<le> x"
  shows "queue_at item h' H ys vs" and "x \<in> A \<Longrightarrow> x \<notin> \<Union> (set ` snd ` set ys)"
proof -
  have items: "list_all2 (\<lambda>y v. item h (snd y) v) ys vs" and ok: "heap_ok h"
    and dl: "dl False h H (nodes_of ((a, bs) # ys))"
    and apart: "set bs \<inter> \<Union> (set ` snd ` set ys) = {}" and d: "distinct (concat (map snd ys))"
    using q by (auto simp: queue_at_def)
  have out: "x \<notin> A \<union> (set bs \<union> blocks H (nodes_of ((a, bs) # ys)))" if "x \<in> \<Union> (set ` snd ` set ys)" for x
    using items_below [OF items ok that] items_not_blocks [OF items dl that] A [of x] apart that by auto
  then have "list_all2 (\<lambda>y v. item h' (snd y) v) ys vs"
    by (intro items_cong [OF items]) (use h'(3) in \<open>simp add: same_outside_def\<close>)
  then show "queue_at item h' H ys vs" using h' d by (simp add: queue_at_def)
  show "x \<in> A \<Longrightarrow> x \<notin> \<Union> (set ` snd ` set ys)" using out by blast
qed

lemma queue_taken:
  assumes q: "queue_at item h H ((a, bs) # ys) (v # vs)"
    and h': "dl False h' H (nodes_of ys)" "heap_ok h'"
      "same_outside (A \<union> (set bs \<union> blocks H (nodes_of ((a, bs) # ys)))) h h'"
    and A: "\<And>x. x \<in> A \<Longrightarrow> brk h \<le> x"
    and new: "item h' bs' v" "distinct bs'" "set bs' \<subseteq> A"
  shows "queue_item item h' H vs (Ptr (hd bs') 0) v"
proof -
  have "queue_at item h' H ys vs" by (rule queue_rest(1) [OF q h' A])
  moreover have "set bs' \<inter> \<Union> (set ` snd ` set ys) = {}" using queue_rest(2) [OF q h' A] new(3) by blast
  ultimately show ?thesis using new unfolding queue_item_def by blast
qed

lemma queue_item_drop: "queue_item item h H vs p v \<Longrightarrow> queue_rep item h H vs"
  by (auto simp: queue_item_def queue_rep_def)

lemma queue_item_read:
  "queue_item item h H vs p v \<Longrightarrow> (\<And>bs. item h bs v \<Longrightarrow> P (Ptr (hd bs) 0)) \<Longrightarrow> P p"
  by (auto simp: queue_item_def)

end

section \<open>The contract of a queue\<close>

datatype 'v qop = Enq 'v | Deq

text \<open>What the client of a queue does: make an item and append it, take one and read it.\<close>

fun run_queue ::
  "('v \<Rightarrow> heap \<Rightarrow> (ptr \<times> heap) res) \<Rightarrow> (ptr \<Rightarrow> heap \<Rightarrow> (ptr \<times> heap) res) \<Rightarrow> (ptr \<Rightarrow> heap \<Rightarrow> 'v res) \<Rightarrow>
   ptr \<Rightarrow> 'v qop list \<Rightarrow> heap \<Rightarrow> ('v list \<times> heap) res" where
  "run_queue mk get rd l [] h = Inr ([], h)"
| "run_queue mk get rd l (Enq v # ops) h =
     bind_r (mk v h) (\<lambda>(p, h).
     bind_r (llist_insertlast l p h) (\<lambda>h. run_queue mk get rd l ops h))"
| "run_queue mk get rd l (Deq # ops) h =
     bind_r (get l h) (\<lambda>(p, h).
     bind_r (rd p h) (\<lambda>v.
     bind_r (run_queue mk get rd l ops h) (\<lambda>(vs, h). Inr (v # vs, h))))"

text \<open>The same run on an abstract queue; taking from the empty queue is a null dereference.\<close>

fun run_fifo :: "'v qop list \<Rightarrow> 'v list \<Rightarrow> ('v list \<times> 'v list) res" where
  "run_fifo [] q = Inr ([], q)"
| "run_fifo (Enq v # ops) q = run_fifo ops (q @ [v])"
| "run_fifo (Deq # ops) [] = Inl NullDeref"
| "run_fifo (Deq # ops) (v # q) = bind_r (run_fifo ops q) (\<lambda>(vs, q). Inr (v # vs, q))"

fun enqueued :: "'v qop list \<Rightarrow> 'v list" where
  "enqueued [] = []"
| "enqueued (Enq v # ops) = v # enqueued ops"
| "enqueued (Deq # ops) = enqueued ops"

lemma run_fifo_order: "run_fifo ops q = Inr (vs, q') \<Longrightarrow> q @ enqueued ops = vs @ q'"
  by (induction ops q arbitrary: vs q' rule: run_fifo.induct) (fastforce simp: bind_r_eq_Inr)+

locale fifo =
  fixes mk :: "'v \<Rightarrow> heap \<Rightarrow> (ptr \<times> heap) res"
    and get :: "ptr \<Rightarrow> heap \<Rightarrow> (ptr \<times> heap) res"
    and rd :: "ptr \<Rightarrow> heap \<Rightarrow> 'v res"
    and rep :: "heap \<Rightarrow> handle \<Rightarrow> 'v list \<Rightarrow> bool"
    and rep_item :: "heap \<Rightarrow> handle \<Rightarrow> 'v list \<Rightarrow> ptr \<Rightarrow> 'v \<Rightarrow> bool"
    and valid :: "'v \<Rightarrow> bool"
  assumes make: "rep h H vs \<Longrightarrow> valid v \<Longrightarrow> 2 \<le> avail h \<Longrightarrow>
      \<exists>p h'. mk v h = Inr (p, h') \<and> rep_item h' H vs p v \<and> avail h - 2 \<le> avail h'"
    and put_back: "rep_item h H vs p v \<Longrightarrow> 0 < avail h \<Longrightarrow>
      \<exists>h'. llist_insertlast (list_ptr H) p h = Inr h' \<and> rep h' H (vs @ [v]) \<and> avail h' = avail h - 1"
    and get_front: "rep h H (v # vs) \<Longrightarrow> 2 \<le> avail h \<Longrightarrow>
      \<exists>p h'. get (list_ptr H) h = Inr (p, h') \<and> rep_item h' H vs p v \<and> avail h - 2 \<le> avail h'"
    and get_empty: "rep h H [] \<Longrightarrow> get (list_ptr H) h = Inl NullDeref"
    and read_item: "rep_item h H vs p v \<Longrightarrow> rd p h = Inr v"
    and item_drop: "rep_item h H vs p v \<Longrightarrow> rep h H vs"
begin

lemma run_refines:
  assumes "rep h H q" "\<forall>v \<in> set (enqueued ops). valid v" "3 * length ops \<le> avail h"
  shows "case run_fifo ops q of
           Inl e \<Rightarrow> run_queue mk get rd (list_ptr H) ops h = Inl e
         | Inr (vs, q') \<Rightarrow> \<exists>h'. run_queue mk get rd (list_ptr H) ops h = Inr (vs, h') \<and> rep h' H q'"
  using assms
proof (induction ops q arbitrary: h rule: run_fifo.induct)
  case (1 q)
  then show ?case by simp
next
  case (2 v ops q)
  then obtain p h1 where h1: "mk v h = Inr (p, h1)" "rep_item h1 H q p v" "avail h - 2 \<le> avail h1"
    using make [of h H q v] by auto
  then have "0 < avail h1" using "2.prems"(3) by simp
  with put_back [OF h1(2)] obtain h2 where
    h2: "llist_insertlast (list_ptr H) p h1 = Inr h2" "rep h2 H (q @ [v])" "avail h2 = avail h1 - 1"
    by blast
  have "3 * length ops \<le> avail h2" using "2.prems"(3) h1(3) h2(3) by simp
  then have "case run_fifo ops (q @ [v]) of
      Inl e \<Rightarrow> run_queue mk get rd (list_ptr H) ops h2 = Inl e
    | Inr (vs, q') \<Rightarrow> \<exists>h'. run_queue mk get rd (list_ptr H) ops h2 = Inr (vs, h') \<and> rep h' H q'"
    using "2.IH" [OF h2(2)] "2.prems"(2) by simp
  with h1(1) h2(1) show ?case by (auto split: sum.splits)
next
  case (3 ops)
  then show ?case by (simp add: get_empty)
next
  case (4 ops v q)
  then obtain p h1 where h1: "get (list_ptr H) h = Inr (p, h1)" "rep_item h1 H q p v"
    "avail h - 2 \<le> avail h1" using get_front [of h H v q] by auto
  have "3 * length ops \<le> avail h1" using "4.prems"(3) h1(3) by simp
  then have ih: "case run_fifo ops q of
      Inl e \<Rightarrow> run_queue mk get rd (list_ptr H) ops h1 = Inl e
    | Inr (vs, q') \<Rightarrow> \<exists>h'. run_queue mk get rd (list_ptr H) ops h1 = Inr (vs, h') \<and> rep h' H q'"
    using "4.IH" [OF item_drop [OF h1(2)]] "4.prems"(2) by simp
  show ?case
    using ih h1(1) read_item [OF h1(2)] by (cases "run_fifo ops q") auto
qed

end

section \<open>The two kinds of item\<close>

interpretation int: cell_item int_item
  by unfold_locales (auto simp: int_item_def)

interpretation pdu: cell_item pdu_item
proof unfold_locales
  fix h h' :: heap and bs v
  assume "pdu_item h bs v" and "\<And>a. a \<in> set bs \<Longrightarrow> cells h' a = cells h a"
  then show "pdu_item h' bs v" unfolding pdu_item_def by force
qed (auto simp: pdu_item_def)

text \<open>
  \<open>int *temp = calloc(1, sizeof(int *)); memcpy(temp, &j, sizeof(int *))\<close>: eight bytes are
  copied from the four of \<open>j\<close>, so the four stack bytes next to it (\<open>adj\<close>) come along.
\<close>

definition make_thread_number :: "u32 \<Rightarrow> u32 \<Rightarrow> heap \<Rightarrow> (ptr \<times> heap) res" where
  "make_thread_number adj j h =
     (let (temp, h) = alloc (CChunk (replicate 8 0)) h
      in bind_r (write_mem temp (le32 j @ le32 adj) h) (\<lambda>h. Inr (temp, h)))"

text \<open>\<open>*(int *)temp\<close>\<close>

definition read_int :: "ptr \<Rightarrow> heap \<Rightarrow> u32 res" where
  "read_int p h = bind_r (read_mem p 4 h) (\<lambda>bs. Inr (un_le32 bs))"

text \<open>The PDU a reader of PDU_user.c builds from the received bytes.\<close>

definition make_pdu :: "u8 \<times> byte list \<Rightarrow> heap \<Rightarrow> (ptr \<times> heap) res" where
  "make_pdu v h =
     (let (P, h) = alloc (CPdu \<lparr>c_op = fst v, c_bytes = of_nat (length (snd v)), c_data = Null\<rparr>) h
      in bind_r (get_pdu P h) (\<lambda>d.
         let (pdu, h) = alloc (CChunk (replicate (length (snd v)) 0)) h
         in bind_r (write_mem pdu (snd v) h) (\<lambda>h.
            Inr (P, put (addr_of P) (CPdu (d\<lparr>c_data := pdu\<rparr>)) h))))"

definition read_pdu :: "ptr \<Rightarrow> heap \<Rightarrow> (u8 \<times> byte list) res" where
  "read_pdu p h =
     bind_r (get_pdu p h) (\<lambda>P.
     bind_r (read_mem (c_data P) (unat (c_bytes P)) h) (\<lambda>bs. Inr (c_op P, bs)))"

lemma make_thread_number_ok:
  assumes "heap_ok h" "2 \<le> avail h"
  shows "\<exists>h'. make_thread_number adj j h = Inr (Ptr (brk h) 0, h') \<and> heap_ok h' \<and>
    int_item h' [brk h] j \<and> same_outside {brk h} h h' \<and> avail h' = avail h - 1"
  using assms
  by (auto simp: make_thread_number_def alloc_ok heap_ok_def int_item_def same_outside_def)

lemma int_get_front:
  assumes "queue_rep int_item h H (v # vs)" "2 \<le> avail h"
  shows "\<exists>p h'. llist_removefirst_INT (list_ptr H) h = Inr (p, h') \<and> queue_item int_item h' H vs p v \<and>
    avail h' = avail h - 1"
proof -
  from assms(1) obtain a bs ys where q: "queue_at int_item h H ((a, bs) # ys) (v # vs)"
    by (auto simp: queue_rep_def queue_at_def list_all2_Cons2)
  then obtain d c where i: "bs = [d]" "cells h d = Some (CChunk c)" "8 \<le> length c" "un_le32 c = v"
    by (auto simp: queue_at_def int_item_def)
  have "dl False h H ((a, Ptr d 0) # nodes_of ys)" "heap_ok h" using q i by (auto simp: queue_at_def)
  from llist_removefirst_INT_dl [OF this _ i(2,3)] assms(2) obtain h' where
    h': "llist_removefirst_INT (list_ptr H) h = Inr (Ptr (brk h) 0, h')" "dl False h' H (nodes_of ys)"
    "heap_ok h'" "avail h' = avail h - 1" "cells h' (brk h) = Some (CChunk (take 8 c))"
    "same_outside ({brk h, d} \<union> blocks H ((a, Ptr d 0) # nodes_of ys)) h h'" by auto
  have "int_item h' [brk h] v" using h'(5) i(3,4) by (auto simp: int_item_def un_le32_def)
  from int.queue_taken [OF q h'(2,3) _ _ this, of "{brk h}"] h'(6) i(1)
  have "queue_item int_item h' H vs (Ptr (brk h) 0) v" by (simp add: insert_commute)
  with h' show ?thesis by blast
qed

lemma int_read: "int_item h bs v \<Longrightarrow> read_int (Ptr (hd bs) 0) h = Inr v"
  by (auto simp: int_item_def read_int_def un_le32_def)

lemma make_pdu_ok:
  assumes "heap_ok h" "2 \<le> avail h" "length (snd v) < 2 ^ 16"
  shows "\<exists>h'. make_pdu v h = Inr (Ptr (brk h) 0, h') \<and> heap_ok h' \<and>
    pdu_item h' [brk h, Suc (brk h)] v \<and> same_outside {brk h, Suc (brk h)} h h' \<and> avail h' = avail h - 2"
proof -
  have u: "unat (of_nat (length (snd v)) :: u16) = length (snd v)"
    using assms(3) by (simp add: unat_of_nat)
  show ?thesis using assms
    by (auto simp: make_pdu_def alloc_ok heap_ok_def pdu_item_def same_outside_def addr_of_def u)
qed

lemma pdu_get_front:
  assumes "queue_rep pdu_item h H (v # vs)" "2 \<le> avail h"
  shows "\<exists>p h'. llist_removefirst_PDU (list_ptr H) h = Inr (p, h') \<and> queue_item pdu_item h' H vs p v \<and>
    avail h' = avail h - 2"
proof -
  from assms(1) obtain a bs ys where q: "queue_at pdu_item h H ((a, bs) # ys) (v # vs)"
    by (auto simp: queue_rep_def queue_at_def list_all2_Cons2)
  then obtain d b P c where i: "bs = [d, b]" "cells h d = Some (CPdu P)" "c_data P = Ptr b 0"
    "cells h b = Some (CChunk c)" "unat (c_bytes P) \<le> length c"
    "v = (c_op P, take (unat (c_bytes P)) c)"
    by (auto simp: queue_at_def pdu_item_def)
  have "dl False h H ((a, Ptr d 0) # nodes_of ys)" "heap_ok h" using q i by (auto simp: queue_at_def)
  from llist_removefirst_PDU_dl [OF this _ i(2,3,4,5)] assms(2) obtain h' where
    h': "llist_removefirst_PDU (list_ptr H) h = Inr (Ptr (Suc (brk h)) 0, h')" "dl False h' H (nodes_of ys)"
    "heap_ok h'" "avail h' = avail h - 2"
    "cells h' (Suc (brk h)) = Some (CPdu (P\<lparr>c_data := Ptr (brk h) 0\<rparr>))"
    "cells h' (brk h) = Some (CChunk (take (unat (c_bytes P)) c @ [0]))"
    "same_outside ({brk h, Suc (brk h), d, b} \<union> blocks H ((a, Ptr d 0) # nodes_of ys)) h h'"
    by auto
  have new: "pdu_item h' [Suc (brk h), brk h] v" using h'(5,6) i(5,6) by (auto simp: pdu_item_def)
  have same: "same_outside ({brk h, Suc (brk h)} \<union> (set bs \<union> blocks H (nodes_of ((a, bs) # ys)))) h h'"
    by (rule same_outside_mono [OF h'(7)]) (use i(1) in auto)
  have le: "brk h \<le> x" if "x \<in> {brk h, Suc (brk h)}" for x using that by auto
  have "queue_item pdu_item h' H vs (Ptr (Suc (brk h)) 0) v"
    using new by (rule pdu.queue_taken [OF q h'(2,3) same le, where bs' = "[Suc (brk h), brk h]", simplified])
  with h' show ?thesis by blast
qed

lemma pdu_read: "pdu_item h bs v \<Longrightarrow> read_pdu (Ptr (hd bs) 0) h = Inr v"
  by (auto simp: pdu_item_def read_pdu_def)

lemma removefirst_empty:
  assumes "dl False h H []"
  shows "llist_removefirst_INT (list_ptr H) h = Inl NullDeref"
    and "llist_removefirst_PDU (list_ptr H) h = Inl NullDeref"
    and "llist_removefirst (list_ptr H) h = Inl NullDeref"
proof -
  obtain h1 where "pthread_mutex_lock (list_ptr H) h = Inr h1" "dl True h1 H []"
    using lock_unlock_id [OF assms] by blast
  moreover from this(2) have "llist_first (list_ptr H) h1 = Inr Null" by (simp add: llist_first_dl)
  ultimately show "llist_removefirst_INT (list_ptr H) h = Inl NullDeref"
    "llist_removefirst_PDU (list_ptr H) h = Inl NullDeref"
    "llist_removefirst (list_ptr H) h = Inl NullDeref"
    by (simp_all add: llist_removefirst_INT_def llist_removefirst_PDU_def llist_removefirst_def unlink_def)
qed

interpretation int_queue: fifo "make_thread_number adj" llist_removefirst_INT read_int
    "queue_rep int_item" "queue_item int_item" "\<lambda>_. True" for adj
proof unfold_locales
  fix h H vs v
  assume *: "queue_rep int_item h H vs" "2 \<le> avail h"
  then have "heap_ok h" by (auto simp: queue_rep_def queue_at_def)
  from make_thread_number_ok [OF this *(2)] obtain h' where
    "make_thread_number adj v h = Inr (Ptr (brk h) 0, h')" "heap_ok h'"
    "int_item h' [brk h] v" "same_outside {brk h} h h'" "avail h' = avail h - 1" by blast
  moreover from int.queue_item_fresh [OF *(1), of h' "[brk h]" v] calculation
  have "queue_item int_item h' H vs (Ptr (brk h) 0) v" by simp
  ultimately
  show "\<exists>p h'. make_thread_number adj v h = Inr (p, h') \<and> queue_item int_item h' H vs p v \<and>
      avail h - 2 \<le> avail h'" by auto
next
  fix h H vs v
  assume "queue_rep int_item h H (v # vs)" "2 \<le> avail h"
  from int_get_front [OF this] show "\<exists>p h'. llist_removefirst_INT (list_ptr H) h = Inr (p, h') \<and>
      queue_item int_item h' H vs p v \<and> avail h - 2 \<le> avail h'" by auto
next
  fix h H assume "queue_rep int_item h H []"
  then show "llist_removefirst_INT (list_ptr H) h = Inl NullDeref"
    by (auto simp: queue_rep_def queue_at_def intro: removefirst_empty)
next
  fix h H vs p v assume "queue_item int_item h H vs p v"
  then show "read_int p h = Inr v" by (rule int.queue_item_read) (rule int_read)
qed (rule int.queue_put int.queue_item_drop, assumption+)+

interpretation pdu_queue: fifo make_pdu llist_removefirst_PDU read_pdu
    "queue_rep pdu_item" "queue_item pdu_item" "\<lambda>v. length (snd v) < 2 ^ 16"
proof unfold_locales
  fix h H vs and v :: "u8 \<times> byte list"
  assume *: "queue_rep pdu_item h H vs" "length (snd v) < 2 ^ 16" "2 \<le> avail h"
  then have "heap_ok h" by (auto simp: queue_rep_def queue_at_def)
  from make_pdu_ok [OF this *(3,2)] obtain h' where
    "make_pdu v h = Inr (Ptr (brk h) 0, h')" "heap_ok h'"
    "pdu_item h' [brk h, Suc (brk h)] v" "same_outside {brk h, Suc (brk h)} h h'"
    "avail h' = avail h - 2" by blast
  moreover have "brk h \<le> x" if "x \<in> set [brk h, Suc (brk h)]" for x using that by auto
  with pdu.queue_item_fresh [OF *(1), of h' "[brk h, Suc (brk h)]" v] calculation
  have "queue_item pdu_item h' H vs (Ptr (brk h) 0) v" by simp
  ultimately
  show "\<exists>p h'. make_pdu v h = Inr (p, h') \<and> queue_item pdu_item h' H vs p v \<and>
      avail h - 2 \<le> avail h'" by auto
next
  fix h H vs and v :: "u8 \<times> byte list"
  assume "queue_rep pdu_item h H (v # vs)" "2 \<le> avail h"
  from pdu_get_front [OF this] show "\<exists>p h'. llist_removefirst_PDU (list_ptr H) h = Inr (p, h') \<and>
      queue_item pdu_item h' H vs p v \<and> avail h - 2 \<le> avail h'" by auto
next
  fix h H assume "queue_rep pdu_item h H []"
  then show "llist_removefirst_PDU (list_ptr H) h = Inl NullDeref"
    by (auto simp: queue_rep_def queue_at_def intro: removefirst_empty)
next
  fix h H vs p and v :: "u8 \<times> byte list" assume "queue_item pdu_item h H vs p v"
  then show "read_pdu p h = Inr v" by (rule pdu.queue_item_read) (rule pdu_read)
qed (rule pdu.queue_put pdu.queue_item_drop, assumption+)+

end
