(* ===== verification/ListProps.thy ===== *)
theory ListProps
  imports ListQueue
begin

text \<open>
  What the list of list.c promises the server, over the abstractions of LinkedList and
  ListQueue: the two queues against the abstract queue, removal and disposal, the length,
  and the places where an operation does not do what its name says.
\<close>

section \<open>Properties of the list\<close>

text \<open>Results without the heap they leave behind.\<close>

definition outcome :: "('a \<times> heap) res \<Rightarrow> 'a res" where
  "outcome r = bind_r r (\<lambda>(x, h). Inr x)"

definition fifo_outcome :: "('v list \<times> 'v list) res \<Rightarrow> 'v list res" where
  "fifo_outcome r = bind_r r (\<lambda>(vs, q). Inr vs)"

lemma outcome_of_refinement:
  assumes "case r of Inl e \<Rightarrow> m = Inl e | Inr (vs, q') \<Rightarrow> \<exists>h'. m = Inr (vs, h') \<and> R h' q'"
  shows "outcome m = fifo_outcome r"
  using assms by (cases r) (auto simp: outcome_def fifo_outcome_def)

lemma fresh_queue:
  assumes "heap_ok h" "2 < avail h"
  shows "\<exists>H h'. llist_empty h = Inr (list_ptr H, h') \<and> queue_rep item h' H [] \<and> avail h' = avail h - 3"
proof -
  from llist_empty_dl [OF assms] obtain H h' where
    h': "llist_empty h = Inr (list_ptr H, h')" "dl False h' H []" "heap_ok h'" "avail h' = avail h - 3"
    by blast
  then have "queue_at item h' H [] []" by (simp add: queue_at_def)
  with h' show ?thesis unfolding queue_rep_def by blast
qed

text \<open>
  C7. The server's \<open>sender_list\<close>: from \<open>llist_empty\<close>, any sequence of \<open>llist_insertlast\<close> and
  \<open>llist_removefirst_PDU\<close> delivers the PDUs (operation code and all data bytes) that an
  abstract first-in-first-out queue delivers, and stops with a null dereference exactly where
  the queue is empty, for every heap with enough room for the blocks the run allocates.
\<close>

theorem sender_list_fifo:
  assumes "heap_ok h" "3 + 3 * length ops \<le> avail h"
    "\<forall>v \<in> set (enqueued ops). length (snd v) < 2 ^ 16"
  shows "bind_r (llist_empty h) (\<lambda>(l, h).
           outcome (run_queue make_pdu llist_removefirst_PDU read_pdu l ops h)) =
         fifo_outcome (run_fifo ops [])"
proof -
  obtain H h' where h': "llist_empty h = Inr (list_ptr H, h')" "queue_rep pdu_item h' H []"
    "avail h' = avail h - 3" using fresh_queue [of h pdu_item] assms by force
  have "outcome (run_queue make_pdu llist_removefirst_PDU read_pdu (list_ptr H) ops h') =
      fifo_outcome (run_fifo ops [])"
    by (rule outcome_of_refinement, rule pdu_queue.run_refines [OF h'(2) assms(3)]) (use h'(3) assms(2) in simp)
  with h'(1) show ?thesis by simp
qed

theorem sender_list_fifo_witness:
  "bind_r (llist_empty (empty_heap 20)) (\<lambda>(l, h).
     outcome (run_queue make_pdu llist_removefirst_PDU read_pdu l
       [Enq (12, [1, 2, 3]), Enq (13, [7]), Deq, Enq (14, []), Deq] h)) =
   Inr [(12, [1, 2, 3]), (13, [7])]"
  by (subst sender_list_fifo) (simp_all add: empty_heap_def heap_ok_def fifo_outcome_def)

text \<open>
  The lists of thread numbers (\<open>availableThreads\<close>, \<open>terminatedThreads\<close>): any sequence of
  insertions of a number and \<open>llist_removefirst_INT\<close> gives back the numbers of an abstract
  queue, whatever stack word \<open>adj\<close> the eight-byte copy of the four-byte number picks up, and
  no run reads freed memory or frees a block twice.
\<close>

theorem thread_numbers_fifo:
  assumes "heap_ok h" "3 + 3 * length ops \<le> avail h"
  shows "bind_r (llist_empty h) (\<lambda>(l, h).
           outcome (run_queue (make_thread_number adj) llist_removefirst_INT read_int l ops h)) =
         fifo_outcome (run_fifo ops [])"
proof -
  obtain H h' where h': "llist_empty h = Inr (list_ptr H, h')" "queue_rep int_item h' H []"
    "avail h' = avail h - 3" using fresh_queue [of h int_item] assms by force
  have "outcome (run_queue (make_thread_number adj) llist_removefirst_INT read_int (list_ptr H) ops h') =
      fifo_outcome (run_fifo ops [])"
    by (rule outcome_of_refinement, rule int_queue.run_refines [OF h'(2)]) (use h'(3) assms(2) in simp_all)
  with h'(1) show ?thesis by simp
qed

theorem thread_numbers_fifo_witness:
  "bind_r (llist_empty (empty_heap 20)) (\<lambda>(l, h).
     outcome (run_queue (make_thread_number 77) llist_removefirst_INT read_int l
       [Enq 0, Enq 1, Deq, Enq 2, Deq] h)) = Inr [0, 1]"
  by (subst thread_numbers_fifo) (simp_all add: empty_heap_def heap_ok_def fifo_outcome_def)

text \<open>
  C22. \<open>llist_remove\<close> takes exactly the given node out of a list of any length, wherever it
  stands, returns the position after it, frees that node and no other block, leaves the
  mutex free and writes nothing outside the list.
\<close>

theorem llist_remove_correct:
  assumes "dl False h H (xs @ (a, d) # ys)" "heap_ok h"
  shows "\<exists>h'. llist_remove (list_ptr H) (Ptr a 0) h = Inr (first_ptr ys Null, h') \<and>
    dl False h' H (xs @ ys) \<and> cells h' a = None \<and>
    same_outside (blocks H (xs @ (a, d) # ys)) h h'"
  using llist_remove_dl [OF assms] by blast

text \<open>A concrete heap with three client sockets, for the examples.\<close>

definition example_heap :: "(handle \<times> heap) res" where
  "example_heap =
     bind_r (llist_empty (empty_heap 20)) (\<lambda>(l, h).
     bind_r (make_thread_number 0 5 h) (\<lambda>(p, h). bind_r (llist_insertlast l p h) (\<lambda>h.
     bind_r (make_thread_number 0 6 h) (\<lambda>(p, h). bind_r (llist_insertlast l p h) (\<lambda>h.
     bind_r (make_thread_number 0 7 h) (\<lambda>(p, h). bind_r (llist_insertlast l p h) (\<lambda>h.
     Inr ((0, 1, 2), h))))))))"

lemma example_heap_dl:
  "\<exists>h. example_heap = Inr ((0, 1, 2), h) \<and> heap_ok h \<and>
    dl False h (0, 1, 2) [(4, Ptr 3 0), (6, Ptr 5 0), (8, Ptr 7 0)] \<and>
    cells h 3 = Some (CChunk (le32 5 @ le32 0)) \<and> cells h 5 = Some (CChunk (le32 6 @ le32 0)) \<and>
    cells h 7 = Some (CChunk (le32 7 @ le32 0))"
  by (simp add: example_heap_def empty_heap_def llist_empty_def junk_node_def alloc_def make_thread_number_def
    llist_insertlast_def createNewNode_def link_last_def llist_isEmpty_def llist_first_def llist_last_def
    field_defs heap_ok_def dl.simps)

theorem llist_remove_correct_witness:
  "\<exists>h h'. example_heap = Inr ((0, 1, 2), h) \<and>
     llist_remove (list_ptr (0, 1, 2)) (Ptr 6 0) h = Inr (Ptr 8 0, h') \<and>
     dl False h' (0, 1, 2) [(4, Ptr 3 0), (8, Ptr 7 0)]"
proof -
  obtain h where h: "example_heap = Inr ((0, 1, 2), h)" "heap_ok h"
    "dl False h (0, 1, 2) ([(4, Ptr 3 0)] @ (6, Ptr 5 0) # [(8, Ptr 7 0)])"
    using example_heap_dl by auto
  from llist_remove_correct [OF h(3,2)] h(1) show ?thesis by auto
qed

text \<open>
  C27. \<open>llist_free\<close> on a list whose nodes each own the block their data pointer starts: the
  loop ends, every node, every data block, both dummies and the header are freed, each once,
  and every other block is left as it was.
\<close>

theorem llist_free_complete:
  assumes "dl False h H xs" "heap_ok h" "owns h H xs das"
  shows "\<exists>h'. llist_free (list_ptr H) h = Some (Inr h') \<and>
    (\<forall>a \<in> blocks H xs \<union> set das. cells h' a = None) \<and>
    same_outside (blocks H xs \<union> set das) h h'"
  using llist_free_dl [OF assms] by blast

theorem llist_free_complete_witness:
  "\<exists>h h'. example_heap = Inr ((0, 1, 2), h) \<and> llist_free (list_ptr (0, 1, 2)) h = Some (Inr h') \<and>
     (\<forall>a \<in> {0, 1, 2, 3, 4, 5, 6, 7, 8}. cells h' a = None)"
proof -
  let ?xs = "[(4, Ptr 3 0), (6, Ptr 5 0), (8, Ptr 7 0)]"
  obtain h where h: "example_heap = Inr ((0, 1, 2), h)" "heap_ok h" "dl False h (0, 1, 2) ?xs"
    "owns h (0, 1, 2) ?xs [3, 5, 7]"
    using example_heap_dl by (auto simp: blocks.simps)
  from llist_free_complete [OF h(3,2,4)] h(1) show ?thesis by (auto simp: blocks.simps)
qed

text \<open>
  \<open>list_length\<close> returns on every well-formed list, with the number of its nodes modulo
  the 32 bits of its counter, and leaves the heap, the mutex included, as it found it.
\<close>

theorem list_length_correct:
  assumes "dl False h H xs"
  shows "list_length (list_ptr H) h = Some (Inr (of_nat (length xs), h))"
  by (rule list_length_dl [OF assms])

theorem list_length_correct_witness:
  "\<exists>h. example_heap = Inr ((0, 1, 2), h) \<and> list_length (list_ptr (0, 1, 2)) h = Some (Inr (3, h))"
proof -
  obtain h where h: "example_heap = Inr ((0, 1, 2), h)"
    "dl False h (0, 1, 2) [(4, Ptr 3 0), (6, Ptr 5 0), (8, Ptr 7 0)]" using example_heap_dl by auto
  from list_length_correct [OF h(2)] h(1) show ?thesis by auto
qed

text \<open>
  \<open>llist_inspect\<close> on an empty list returns null without releasing the list's mutex: it
  reports no error, but every later operation that takes the mutex (insertions, removals,
  \<open>list_length\<close>, \<open>llist_inspect\<close> itself) blocks for ever.
\<close>

theorem inspect_empty_leaves_mutex_locked:
  assumes "dl False h H []"
  shows "\<exists>h'. llist_inspect p (list_ptr H) h = Inr (Null, h') \<and>
    llist_insertlast (list_ptr H) d h' = Inl Deadlock \<and>
    llist_insertfirst (list_ptr H) d h' = Inl Deadlock \<and>
    llist_removefirst_INT (list_ptr H) h' = Inl Deadlock \<and>
    llist_removefirst_PDU (list_ptr H) h' = Inl Deadlock \<and>
    llist_inspect q (list_ptr H) h' = Inl Deadlock \<and>
    list_length (list_ptr H) h' = Some (Inl Deadlock)"
proof -
  obtain h' where h': "llist_inspect p (list_ptr H) h = Inr (Null, h')" "dl True h' H []"
    using llist_inspect_empty_dl [OF assms] by blast
  with lock_dl_held [OF h'(2)] show ?thesis
    by (simp add: llist_insertlast_def llist_insertfirst_def llist_removefirst_INT_def
      llist_removefirst_PDU_def llist_inspect_def list_length_def)
qed

theorem inspect_empty_leaves_mutex_locked_witness:
  "\<exists>h h'. llist_empty (empty_heap 9) = Inr (list_ptr (0, 1, 2), h) \<and>
     llist_inspect Null (list_ptr (0, 1, 2)) h = Inr (Null, h') \<and>
     llist_insertlast (list_ptr (0, 1, 2)) Null h' = Inl Deadlock"
proof -
  obtain h where h: "llist_empty (empty_heap 9) = Inr (list_ptr (0, 1, 2), h)" "dl False h (0, 1, 2) []"
    using llist_empty_dl [of "empty_heap 9"] by (auto simp: empty_heap_def heap_ok_def numeral_2_eq_2)
  from inspect_empty_leaves_mutex_locked [OF h(2)] h(1) show ?thesis by blast
qed


section \<open>Exchanging two nodes\<close>

text \<open>Chains of \<open>next\<close> pointers, whatever the \<open>previous\<close> pointers are.\<close>

fun nseg :: "(nat \<Rightarrow> cell option) \<Rightarrow> (nat \<times> ptr) list \<Rightarrow> bool" where
  "nseg m [] \<longleftrightarrow> True"
| "nseg m ((a, d) # xs) \<longleftrightarrow> (\<exists>n. m a = Some (CNode n) \<and> nxt n = first_ptr xs Null) \<and> nseg m xs"

lemma list_length_loop_nseg:
  "nseg (cells h) xs \<Longrightarrow>
   list_length_loop (first_ptr xs Null) c h = Some (Inr (c + of_nat (length xs)))"
proof (induction xs arbitrary: c)
  case Nil
  then show ?case by (simp add: list_length_loop.simps)
next
  case (Cons x xs)
  obtain a d where x: "x = (a, d)" by (cases x)
  have "list_length_loop (first_ptr xs Null) (c + 1) h = Some (Inr (c + 1 + of_nat (length xs)))"
    using Cons.prems x by (auto intro: Cons.IH)
  with Cons.prems x show ?case
    by (auto simp: list_length_loop.simps [of "Ptr a 0"] nxt_of_def add.assoc)
qed

lemma nseg_dseg: "dseg m q xs Null \<Longrightarrow> nseg m xs"
  by (induction m q xs "Null" rule: dseg.induct) auto

lemma nseg_cong: "(\<And>a. a \<in> fst ` set xs \<Longrightarrow> m' a = m a) \<Longrightarrow> nseg m' xs = nseg m xs"
  by (induction m xs rule: nseg.induct) auto

lemma nseg_app:
  "dseg m q xs (first_ptr ys Null) \<Longrightarrow> nseg m ys \<Longrightarrow> nseg m (xs @ ys)"
  by (induction m q xs "first_ptr ys Null" rule: dseg.induct) auto

lemma nseg_upd [simp]: "a \<notin> fst ` set xs \<Longrightarrow> nseg (m(a := c)) xs = nseg m xs"
  by (rule nseg_cong) auto

lemma llist_switch_middle:
  assumes "dl b h (la, hn, tn) (xs @ [(u, du), (p, dp), (v, dv), (c, dc)] @ ys)"
  shows "\<exists>h'. llist_switch (Ptr la 0) (Ptr p 0) h = Inr h' \<and>
    cells h' la = cells h la \<and> cells h' hn = cells h hn \<and>
    dseg (cells h') Null xs (Ptr u 0) \<and> 
    nseg (cells h') ([(u, du), (v, dv), (c, dc)] @ ys)"
proof (cases ys)
  case Nil
  have "first_ptr xs (Ptr u 0) \<noteq> Null" "last_ptr xs Null = Null \<longleftrightarrow> xs = []" by (simp_all add: first_not_Null)
  then show ?thesis using assms Nil 
    by (auto simp: llist_switch_def dl.simps field_defs llist_last_def llist_first_def)
next
  case (Cons y zs)
  obtain e de where y: "y = (e, de)" by (cases y)
  show ?thesis using assms Cons y
    by (auto simp: llist_switch_def dl.simps field_defs llist_last_def llist_first_def intro: nseg_dseg)
qed

text \<open>
  \<open>llist_switch\<close> does not exchange a node with its successor: called on a node with a
  predecessor and at least two successors it reports nothing, and the node is no longer
  reached from the head, so that \<open>list_length\<close> counts one node less.
\<close>

theorem llist_switch_loses_the_node:
  assumes "dl False h H (xs @ [(u, du), (p, dp), (v, dv), (c, dc)] @ ys)"
  shows "\<exists>h' h''. llist_switch (list_ptr H) (Ptr p 0) h = Inr h' \<and>
    list_length (list_ptr H) h = Some (Inr (of_nat (length xs + length ys + 4), h)) \<and>
    list_length (list_ptr H) h' = Some (Inr (of_nat (length xs + length ys + 3), h''))"
proof -
  obtain la hn tn where H: "H = (la, hn, tn)" by (cases H)
  let ?rest = "[(u, du), (v, dv), (c, dc)] @ ys"
  from llist_switch_middle [OF assms [unfolded H]] obtain h' where
    h': "llist_switch (Ptr la 0) (Ptr p 0) h = Inr h'" "cells h' la = cells h la"
    "cells h' hn = cells h hn" "dseg (cells h') Null xs (Ptr u 0)" "nseg (cells h') ?rest" by blast
  from assms H have L: "cells h la = Some (CList \<lparr>head = Ptr hn 0, tail = Ptr tn 0, mtx = False\<rparr>)"
    "la \<noteq> hn" "la \<notin> fst ` set (xs @ ?rest)" by (auto simp: dl.simps)
  from assms H obtain n where n: "cells h hn = Some (CNode n)" "nxt n = first_ptr xs (Ptr u 0)"
    by (auto simp: dl.simps)
  have seg: "nseg (cells h') (xs @ ?rest)" using h'(4,5) nseg_app [of _ Null xs ?rest] by simp
  define h1 where "h1 = put la (CList \<lparr>head = Ptr hn 0, tail = Ptr tn 0, mtx = True\<rparr>) h'"
  have "nseg (cells h1) (xs @ ?rest)" unfolding h1_def put_simps
    by (subst nseg_upd) (use L(3) seg in auto)
  from list_length_loop_nseg [OF this, of 0]
  have loop: "list_length_loop (first_ptr xs (Ptr u 0)) 0 h1 =
      Some (Inr (of_nat (length xs + length ys + 3)))"
    by (simp add: algebra_simps)
  have "pthread_mutex_lock (Ptr la 0) h' = Inr h1" using h'(2) L(1) by (simp add: h1_def)
  moreover have "llist_first (Ptr la 0) h1 = Inr (first_ptr xs (Ptr u 0))"
    using h'(3) L(2) n by (simp add: llist_first_def nxt_of_def h1_def)
  moreover have "\<exists>h''. pthread_mutex_unlock (Ptr la 0) h1 = Inr h''" by (simp add: h1_def)
  ultimately have "\<exists>h''. list_length (Ptr la 0) h' = Some (Inr (of_nat (length xs + length ys + 3), h''))"
    using loop by (auto simp: list_length_def)
  with h'(1) list_length_dl [OF assms] H show ?thesis by (auto simp: list_ptr_def algebra_simps)
qed

definition example_heap4 :: "(handle \<times> heap) res" where
  "example_heap4 =
     bind_r example_heap (\<lambda>(H, h).
     bind_r (make_thread_number 0 8 h) (\<lambda>(p, h). bind_r (llist_insertlast (list_ptr H) p h) (\<lambda>h.
     Inr (H, h))))"

lemma example_heap4_dl:
  "\<exists>h. example_heap4 = Inr ((0, 1, 2), h) \<and>
    dl False h (0, 1, 2) [(4, Ptr 3 0), (6, Ptr 5 0), (8, Ptr 7 0), (10, Ptr 9 0)]"
  by (simp add: example_heap4_def example_heap_def empty_heap_def llist_empty_def junk_node_def alloc_def
    make_thread_number_def llist_insertlast_def createNewNode_def link_last_def llist_isEmpty_def
    llist_first_def llist_last_def field_defs heap_ok_def dl.simps list_ptr_def)

theorem llist_switch_loses_the_node_witness:
  "\<exists>h h' h''. example_heap4 = Inr ((0, 1, 2), h) \<and>
     llist_switch (list_ptr (0, 1, 2)) (Ptr 6 0) h = Inr h' \<and>
     list_length (list_ptr (0, 1, 2)) h = Some (Inr (4, h)) \<and>
     list_length (list_ptr (0, 1, 2)) h' = Some (Inr (3, h''))"
proof -
  obtain h where h: "example_heap4 = Inr ((0, 1, 2), h)"
    "dl False h (0, 1, 2) ([] @ [(4, Ptr 3 0), (6, Ptr 5 0), (8, Ptr 7 0), (10, Ptr 9 0)] @ [])"
    using example_heap4_dl by auto
  from llist_switch_loses_the_node [OF h(2)] h(1) show ?thesis by auto
qed

end
