(* ===== verification/ServerList.thy ===== *)
theory ServerList
  imports ListProps
begin

text \<open>
  The two functions of OU4/Resources/list.c for lists of \<open>SLISTSERVERS_struct\<close>: \<open>llist_free_slist\<close>
  and \<open>printServerlist\<close>. An item is a struct that owns the block of its name.
\<close>

section \<open>The functions\<close>

text \<open>The field \<open>servername\<close>; the others are not used.\<close>

definition get_server :: "ptr \<Rightarrow> heap \<Rightarrow> ptr res" where
  "get_server p h =
     bind_r (deref p h) (\<lambda>(a, off, c).
       case c of CServer s \<Rightarrow> if off = 0 then Inr s else Inl WrongCell | _ \<Rightarrow> Inl WrongCell)"

lemma get_server_ok [simp]: "cells h a = Some (CServer s) \<Longrightarrow> get_server (Ptr a 0) h = Inr s"
  by (simp add: get_server_def deref_def)

partial_function (option) free_slist_loop :: "ptr \<Rightarrow> ptr \<Rightarrow> ptr \<Rightarrow> heap \<Rightarrow> heap res option" where
  "free_slist_loop l temp p h =
     (if p = Null then Some (Inr h)
      else case bind_r (get_server temp h) (\<lambda>servername.
          bind_r (c_free servername h) (\<lambda>h.
          bind_r (bind_r (dat_of p h) (\<lambda>d. bind_r (c_free d h) (\<lambda>h. llist_remove l p h))) (\<lambda>(p, h).
          bind_r (llist_isEmpty l h) (\<lambda>emp.
          if emp then Inr (temp, p, h)
          else bind_r (llist_inspect p l h) (\<lambda>(temp, h). Inr (temp, p, h)))))) of
        Inl e \<Rightarrow> Some (Inl e)
      | Inr (temp, p, h) \<Rightarrow> free_slist_loop l temp p h)"

definition llist_free_slist :: "ptr \<Rightarrow> heap \<Rightarrow> heap res option" where
  "llist_free_slist l h =
     (case bind_r (llist_first l h) (\<lambda>p. bind_r (llist_inspect p l h) (\<lambda>(temp, h). Inr (p, temp, h))) of
        Inl e \<Rightarrow> Some (Inl e)
      | Inr (p, temp, h) \<Rightarrow>
          map_option (\<lambda>r. bind_r r (\<lambda>h.
            bind_r (get_llist l h) (\<lambda>L.
            bind_r (c_free (head L) h) (\<lambda>h.
            bind_r (c_free (tail L) h) (\<lambda>h.
            c_free l h)))))
            (free_slist_loop l temp p h))"

text \<open>The numbered lines that are printed, \<open>None\<close> for the text about an empty list.\<close>

partial_function (option) print_servers_loop ::
  "ptr \<Rightarrow> ptr \<Rightarrow> nat \<Rightarrow> (nat \<times> byte list) list \<Rightarrow> heap \<Rightarrow> ((nat \<times> byte list) list \<times> heap) res option" where
  "print_servers_loop l p i out h =
     (case bind_r (llist_inspect p l h) (\<lambda>(s, h).
           bind_r (get_server s h) (\<lambda>servername.
           bind_r (read_cstr servername h) (\<lambda>name.
           bind_r (llist_isEnd p h) (\<lambda>t.
           bind_r (llist_next p h) (\<lambda>p. Inr (name, t, p, h)))))) of
        Inl e \<Rightarrow> Some (Inl e)
      | Inr (name, t, p, h) \<Rightarrow>
          if t then Some (Inr (out @ [(i + 1, name)], h))
          else print_servers_loop l p (i + 1) (out @ [(i + 1, name)]) h)"

definition printServerlist :: "ptr \<Rightarrow> heap \<Rightarrow> ((nat \<times> byte list) list option \<times> heap) res option" where
  "printServerlist l h =
     (case bind_r (llist_first l h) (\<lambda>p. bind_r (llist_isEmpty l h) (\<lambda>emp. Inr (p, emp))) of
        Inl e \<Rightarrow> Some (Inl e)
      | Inr (p, emp) \<Rightarrow>
          if emp then Some (Inr (None, h))
          else map_option (\<lambda>r. bind_r r (\<lambda>(out, h). Inr (Some out, h))) (print_servers_loop l p 0 [] h))"

section \<open>Lists of servers\<close>

text \<open>\<open>das\<close> and \<open>nas\<close>: the blocks of the structs and of the names.\<close>

definition servers :: "heap \<Rightarrow> handle \<Rightarrow> (nat \<times> ptr) list \<Rightarrow> nat list \<Rightarrow> nat list \<Rightarrow> bool" where
  "servers h H xs das nas \<longleftrightarrow> owns h H xs das \<and> map (cells h) das = map (\<lambda>na. Some (CServer (Ptr na 0))) nas \<and>
     distinct nas \<and> (\<forall>na \<in> set nas. cells h na \<noteq> None) \<and> set nas \<inter> (blocks H xs \<union> set das) = {}"

lemma free_slist_loop_dl:
  assumes "dl False h H xs" "heap_ok h" "servers h H xs das nas" "xs \<noteq> [] \<longrightarrow> temp = snd (hd xs)"
  shows "\<exists>h'. free_slist_loop (list_ptr H) temp (first_ptr xs Null) h = Some (Inr h') \<and> dl False h' H [] \<and>
    same_outside (blocks H xs \<union> set das \<union> set nas) h h' \<and>
    (\<forall>a \<in> fst ` set xs \<union> set das \<union> set nas. cells h' a = None)"
  using assms
proof (induction xs arbitrary: h das nas temp)
  case Nil
  then show ?case by (auto simp: free_slist_loop.simps servers_def same_outside_def)
next
  case (Cons x xs)
  obtain a d where x: "x = (a, d)" by (cases x)
  from Cons.prems(3) x obtain da das' where das: "das = da # das'" by (cases das) (auto simp: servers_def)
  with Cons.prems(3) obtain na nas' where nas: "nas = na # nas'" by (cases nas) (auto simp: servers_def)
  define h1 where "h1 = h\<lparr>cells := (cells h)(na := None)\<rparr>"
  have own: "owns h H ((a, d) # xs) (da # das')" "cells h da = Some (CServer (Ptr na 0))" "d = Ptr da 0" "cells h na \<noteq> None"
    "na \<notin> blocks H ((a, d) # xs)" "na \<notin> set (da # das')" "na \<notin> set nas'"
    using Cons.prems(3) unfolding x das nas by (auto simp: servers_def)
  have free: "c_free (Ptr na 0) h = Inr h1" using own(4) by (auto simp: h1_def)
  have dl1: "dl False h1 H ((a, d) # xs)"
    by (rule dl_frame [OF Cons.prems(1) [unfolded x]]) (use own(5) in \<open>auto simp: h1_def\<close>)
  have ok1: "heap_ok h1" using Cons.prems(2) by (auto simp: heap_ok_def h1_def)
  have "owns h1 H ((a, d) # xs) (da # das')" using own(1,6) by (auto simp: h1_def)
  from free_first_dl [OF dl1 ok1 this] obtain h2 where
    h2: "bind_r (dat_of (Ptr a 0) h1) (\<lambda>d. bind_r (c_free d h1) (\<lambda>h. llist_remove (list_ptr H) (Ptr a 0) h)) =
      Inr (first_ptr xs Null, h2)" "dl False h2 H xs" "heap_ok h2" "cells h2 a = None" "cells h2 da = None"
      "same_outside (insert da (blocks H ((a, d) # xs))) h1 h2" "owns h2 H xs das'" by blast
  have keep: "cells h2 y = cells h y" if "y \<in> set das' \<union> set nas'" for y
    using that Cons.prems(3) own h2(6) unfolding x das nas by (auto simp: same_outside_def h1_def servers_def)
  then have "map (cells h2) das' = map (cells h) das'" by simp
  with Cons.prems(3) keep h2(7) have srv: "servers h2 H xs das' nas'"
    unfolding x das nas by (auto simp: servers_def)
  obtain temp' where step: "free_slist_loop (list_ptr H) temp (Ptr a 0) h = free_slist_loop (list_ptr H) temp' (first_ptr xs Null) h2"
    "xs \<noteq> [] \<longrightarrow> temp' = snd (hd xs)"
  proof (cases xs)
    case Nil
    with Cons.prems(4) own(2,3) free h2(1) llist_isEmpty_dl [OF h2(2)]
    have "free_slist_loop (list_ptr H) temp (Ptr a 0) h = free_slist_loop (list_ptr H) temp (first_ptr xs Null) h2"
      by (subst free_slist_loop.simps) (simp add: x)
    with that Nil show ?thesis by simp
  next
    case (Cons y ys)
    obtain b e where y: "y = (b, e)" by (cases y)
    with Cons llist_inspect_dl [OF h2(2), of b e] have "llist_inspect (first_ptr xs Null) (list_ptr H) h2 = Inr (e, h2)" by simp
    with Cons.prems(4) own(2,3) free h2(1) llist_isEmpty_dl [OF h2(2)] Cons
    have "free_slist_loop (list_ptr H) temp (Ptr a 0) h = free_slist_loop (list_ptr H) e (first_ptr xs Null) h2"
      by (subst free_slist_loop.simps) (simp add: x)
    with that Cons y show ?thesis by simp
  qed
  from Cons.IH [OF h2(2,3) srv step(2)] obtain h3 where
    h3: "free_slist_loop (list_ptr H) temp' (first_ptr xs Null) h2 = Some (Inr h3)" "dl False h3 H []"
    "same_outside (blocks H xs \<union> set das' \<union> set nas') h2 h3" "\<forall>a \<in> fst ` set xs \<union> set das' \<union> set nas'. cells h3 a = None" by blast
  have "same_outside (blocks H ((a, d) # xs) \<union> set das \<union> set nas) h h3"
    using h2(6) h3(3) das nas by (auto simp: same_outside_def h1_def)
  moreover have out: "a \<notin> blocks H xs \<union> set das' \<union> set nas'" "da \<notin> blocks H xs \<union> set das' \<union> set nas'"
    "na \<notin> insert da (blocks H ((a, d) # xs))" "na \<notin> blocks H xs \<union> set das' \<union> set nas'"
    using dl_removed_fresh [of False h H "[]" a d xs] Cons.prems unfolding x das nas by (auto simp: servers_def)
  have "cells h3 a = None" "cells h3 da = None"
    using h2(4,5) h3(3) out(1,2) by (simp_all add: same_outside_def)
  moreover have "cells h1 na = None" by (simp add: h1_def)
  then have "cells h2 na = None" using h2(6) out(3) by (simp add: same_outside_def)
  then have "cells h3 na = None" using h3(3) out(4) by (simp add: same_outside_def)
  ultimately show ?case using x das nas h3 step(1) by auto
qed

lemma dispose_header:
  assumes "dl b h H []"
  shows "\<exists>h'. bind_r (get_llist (list_ptr H) h) (\<lambda>L. bind_r (c_free (head L) h) (\<lambda>h.
      bind_r (c_free (tail L) h) (\<lambda>h. c_free (list_ptr H) h))) = Inr h' \<and>
    same_outside (blocks H []) h h' \<and> (\<forall>a \<in> blocks H []. cells h' a = None)"
  using assms by (cases H) (auto simp: dl.simps list_ptr_def blocks.simps same_outside_def)

lemma inspect_empty_same:
  assumes "dl False h H []"
  shows "\<exists>h'. llist_inspect p (list_ptr H) h = Inr (Null, h') \<and> dl True h' H [] \<and> same_outside (blocks H []) h h'"
  using assms
  by (cases H) (auto simp: dl.simps llist_inspect_def list_ptr_def llist_isEmpty_def llist_first_def nxt_of_def
      same_outside_def blocks.simps)

lemma blocks_split: "blocks H xs = blocks H [] \<union> fst ` set xs"
  by (cases H) (auto simp: blocks.simps)

text \<open>
  \<open>llist_free_slist\<close> ends on every list of servers and frees all of it, the names included,
  each block once, and nothing else; on an empty list, too, although \<open>llist_inspect\<close> has left
  the mutex locked by then.
\<close>

theorem llist_free_slist_complete:
  assumes "dl False h H xs" "heap_ok h" "servers h H xs das nas"
  shows "\<exists>h'. llist_free_slist (list_ptr H) h = Some (Inr h') \<and>
    (\<forall>a \<in> blocks H xs \<union> set das \<union> set nas. cells h' a = None) \<and>
    same_outside (blocks H xs \<union> set das \<union> set nas) h h'"
proof (cases xs)
  case Nil
  obtain h1 where h1: "llist_inspect Null (list_ptr H) h = Inr (Null, h1)" "dl True h1 H []" "same_outside (blocks H []) h h1"
    using inspect_empty_same [OF assms(1) [unfolded Nil]] by blast
  from dispose_header [OF h1(2)] obtain h' where
    h': "bind_r (get_llist (list_ptr H) h1) (\<lambda>L. bind_r (c_free (head L) h1) (\<lambda>h.
      bind_r (c_free (tail L) h) (\<lambda>h. c_free (list_ptr H) h))) = Inr h'"
    "same_outside (blocks H []) h1 h'" "\<forall>a \<in> blocks H []. cells h' a = None" by blast
  have "das = []" "nas = []" using assms(3) Nil by (auto simp: servers_def)
  moreover have "same_outside (blocks H []) h h'" using same_outside_trans [OF h1(3) h'(2)] by simp
  moreover have "llist_free_slist (list_ptr H) h = Some (Inr h')"
    unfolding llist_free_slist_def using llist_first_dl [OF assms(1)] h1(1) h'(1) Nil
    by (simp add: free_slist_loop.simps)
  ultimately show ?thesis using h'(3) Nil by simp
next
  case (Cons x ys)
  obtain a d where x: "x = (a, d)" by (cases x)
  have i: "llist_inspect (first_ptr xs Null) (list_ptr H) h = Inr (d, h)"
    using llist_inspect_dl [OF assms(1), of a d] Cons x by simp
  from free_slist_loop_dl [OF assms(1-3), of d] Cons x obtain h1 where
    h1: "free_slist_loop (list_ptr H) d (first_ptr xs Null) h = Some (Inr h1)" "dl False h1 H []"
    "same_outside (blocks H xs \<union> set das \<union> set nas) h h1" "\<forall>a \<in> fst ` set xs \<union> set das \<union> set nas. cells h1 a = None" by auto
  from dispose_header [OF h1(2)] obtain h' where
    h': "bind_r (get_llist (list_ptr H) h1) (\<lambda>L. bind_r (c_free (head L) h1) (\<lambda>h.
      bind_r (c_free (tail L) h) (\<lambda>h. c_free (list_ptr H) h))) = Inr h'"
    "same_outside (blocks H []) h1 h'" "\<forall>a \<in> blocks H []. cells h' a = None" by blast
  have "llist_free_slist (list_ptr H) h = Some (Inr h')"
    unfolding llist_free_slist_def llist_first_dl [OF assms(1)] bind_r_Inr i using h1(1) h'(1) by simp
  moreover have "same_outside (blocks H xs \<union> set das \<union> set nas) h h'"
    using same_outside_trans [OF h1(3) h'(2)] blocks_split [of H xs] by (simp add: Un_absorb2 Un_commute Un_left_commute)
  moreover have "cells h' y = None" if "y \<in> blocks H xs \<union> set das \<union> set nas" for y
  proof (cases "y \<in> blocks H []")
    case False
    with that h1(4) blocks_split [of H xs] have "cells h1 y = None" by auto
    with h'(2) False show ?thesis by (simp add: same_outside_def)
  qed (use h'(3) in blast)
  ultimately show ?thesis by blast
qed

section \<open>Printing\<close>

lemma dl_isEnd:
  assumes "dl b h H (xs @ (a, d) # ys)"
  shows "llist_isEnd (Ptr a 0) h = Inr (ys = [])" "llist_next (Ptr a 0) h = Inr (first_ptr ys Null)"
  using assms by (cases H; simp add: dl.simps llist_isEnd_def llist_next_def nxt_of_def)+

lemma print_servers_loop_dl:
  assumes "dl False h H (xs @ ys)" "ys \<noteq> []"
    "list_all2 (\<lambda>(a, d) name. \<exists>s. get_server d h = Inr s \<and> read_cstr s h = Inr name) ys names"
  shows "print_servers_loop (list_ptr H) (first_ptr ys Null) i out h =
    Some (Inr (out @ zip [i + 1..<i + 1 + length ys] names, h))"
  using assms
proof (induction ys arbitrary: xs i out names)
  case (Cons y ys)
  obtain a d where y: "y = (a, d)" by (cases y)
  with Cons.prems(3) obtain name names' s where n: "names = name # names'" "get_server d h = Inr s" "read_cstr s h = Inr name"
    "list_all2 (\<lambda>(a, d) name. \<exists>s. get_server d h = Inr s \<and> read_cstr s h = Inr name) ys names'"
    by (auto simp: list_all2_Cons1)
  have dl: "dl False h H ((xs @ [(a, d)]) @ ys)" "dl False h H (xs @ (a, d) # ys)" using Cons.prems(1) y by simp_all
  have i: "llist_inspect (Ptr a 0) (list_ptr H) h = Inr (d, h)" using llist_inspect_dl [OF dl(2), of a d] by simp
  note e = dl_isEnd [OF dl(2)]
  have u: "[i + 1..<i + 1 + length (y # ys)] = (i + 1) # [i + 1 + 1..<i + 1 + 1 + length ys]"
    by (subst upt_conv_Cons) simp_all
  have step: "print_servers_loop (list_ptr H) (Ptr a 0) i out h =
    (if ys = [] then Some (Inr (out @ [(i + 1, name)], h))
     else print_servers_loop (list_ptr H) (first_ptr ys Null) (i + 1) (out @ [(i + 1, name)]) h)"
    by (subst print_servers_loop.simps) (simp add: i n e)
  show ?case
  proof (cases "ys = []")
    case True
    with step n show ?thesis unfolding u unfolding y by simp
  next
    case False
    from Cons.IH [OF dl(1) False n(4), of "i + 1" "out @ [(i + 1, name)]"] step False n show ?thesis
      unfolding u unfolding y by (simp del: upt_Suc)
  qed
qed simp

text \<open>\<open>printServerlist\<close> numbers the names from 1 on, and leaves the heap as it was.\<close>

theorem printServerlist_numbers:
  assumes "dl False h H xs"
    "list_all2 (\<lambda>(a, d) name. \<exists>s. get_server d h = Inr s \<and> read_cstr s h = Inr name) xs names"
  shows "printServerlist (list_ptr H) h =
    Some (Inr (if xs = [] then None else Some (zip [1..<1 + length xs] names), h))"
proof (cases "xs = []")
  case False
  with print_servers_loop_dl [of h H "[]" xs names 0 "[]"] assms show ?thesis
    by (simp add: printServerlist_def llist_first_dl [OF assms(1)] llist_isEmpty_dl [OF assms(1)])
qed (simp add: printServerlist_def llist_first_dl [OF assms(1)] llist_isEmpty_dl [OF assms(1)])

end
