(* ===== verification/Pdu.thy ===== *)
theory Pdu
  imports CPrelude
begin

text \<open>
  The protocol data units of OU4/Resources/PDU_user.h and their encoders (PDU_user.c): the
  structs as records, a \<open>char key[KEY_SIZE]\<close> as the 64 bytes of the array, a \<open>void *data\<close> as
  the bytes of the block it points to. Every encoder lays out
  \<open>OP_code (1) | data_bytes (2, little endian) | unused (1) | key (64) | data\<close>.
\<close>

section \<open>Constants and structs\<close>

abbreviation INIT :: u8 where "INIT \<equiv> 11"
abbreviation INSERT :: u8 where "INSERT \<equiv> 12"
abbreviation GET :: u8 where "GET \<equiv> 13"
abbreviation DELETE :: u8 where "DELETE \<equiv> 14"
abbreviation KERNEL :: u8 where "KERNEL \<equiv> 15"
abbreviation USER :: u8 where "USER \<equiv> 16"
abbreviation JOIN :: u8 where "JOIN \<equiv> 17"
abbreviation QUIT :: u8 where "QUIT \<equiv> 18"

abbreviation MAX_PAYLOAD :: nat where "MAX_PAYLOAD \<equiv> 1024"
abbreviation HEADERSIZE :: nat where "HEADERSIZE \<equiv> 4"
abbreviation KEY_SIZE :: nat where "KEY_SIZE \<equiv> 64"
abbreviation MAXMESSLEN :: nat where "MAXMESSLEN \<equiv> 50"

record INIT_struct =
  INIT_op :: u8

record INSERT_struct =
  INSERT_op :: u8
  INSERT_key :: "byte list"
  INSERT_bytes :: u16
  INSERT_data :: "byte list"

record GET_struct =
  GET_op :: u8
  GET_key :: "byte list"

record DELETE_struct =
  DELETE_op :: u8
  DELETE_key :: "byte list"

record JOIN_struct =
  JOIN_op :: u8
  ID_len :: u16
  client_ID :: "byte list"

record QUIT_struct =
  QUIT_op :: u8
  QUIT_sock :: u16

text \<open>\<open>PDU_struct\<close>: what \<open>data\<close> points to depends on the operation code.\<close>

record 'd PDU_struct =
  OP_code :: u8
  data_bytes :: u16
  data :: 'd

datatype payload = Buffer "byte list" | Join JOIN_struct | Quit QUIT_struct

section \<open>Encoders\<close>

text \<open>\<open>memcpy(dst + off, src, strlen(src))\<close>\<close>

definition copy_string :: "byte list \<Rightarrow> nat \<Rightarrow> byte list \<Rightarrow> byte list res" where
  "copy_string dst off src =
     bind_r (c_strlen src) (\<lambda>n. bind_r (c_read src 0 n) (\<lambda>s. c_write dst off s))"

definition create_DELETE_buffer :: "DELETE_struct \<Rightarrow> byte list res" where
  "create_DELETE_buffer delete_struct =
     bind_r (c_write (replicate (HEADERSIZE + KEY_SIZE) 0) 0 [DELETE]) (\<lambda>buf.
     copy_string buf HEADERSIZE (DELETE_key delete_struct))"

definition create_GET_buffer :: "GET_struct \<Rightarrow> byte list res" where
  "create_GET_buffer get_struct =
     bind_r (c_write (replicate (HEADERSIZE + KEY_SIZE) 0) 0 [GET]) (\<lambda>buf.
     copy_string buf HEADERSIZE (GET_key get_struct))"

definition create_INIT_buffer :: "byte list res" where
  "create_INIT_buffer = c_write (replicate HEADERSIZE 0) 0 [INIT]"

definition create_INSERT_buffer :: "INSERT_struct \<Rightarrow> byte list res" where
  "create_INSERT_buffer ins =
     (let size = unat (INSERT_bytes ins) + HEADERSIZE + KEY_SIZE
      in bind_r (c_write (replicate size 0) 0 [INSERT_op ins]) (\<lambda>buf.
         bind_r (c_write buf 1 (le16 (INSERT_bytes ins))) (\<lambda>buf.
         bind_r (copy_string buf HEADERSIZE (INSERT_key ins)) (\<lambda>buf.
         bind_r (c_read (INSERT_data ins) 0 (unat (INSERT_bytes ins))) (\<lambda>d.
         c_write buf (HEADERSIZE + KEY_SIZE) d)))))"

text \<open>The \<open>void *\<close> argument of \<open>PDU_to_buffer_user\<close>; \<open>None\<close> is a null result.\<close>

datatype user_struct =
  S_INIT INIT_struct | S_INSERT INSERT_struct | S_GET GET_struct | S_DELETE DELETE_struct

definition PDU_to_buffer_user :: "u8 \<Rightarrow> user_struct \<Rightarrow> byte list option res" where
  "PDU_to_buffer_user op pdu =
     (if op = INIT then bind_r create_INIT_buffer (\<lambda>b. Inr (Some b))
      else if op = INSERT then
        (case pdu of S_INSERT s \<Rightarrow> bind_r (create_INSERT_buffer s) (\<lambda>b. Inr (Some b))
         | _ \<Rightarrow> Inl WrongCell)
      else if op = GET then
        (case pdu of S_GET s \<Rightarrow> bind_r (create_GET_buffer s) (\<lambda>b. Inr (Some b))
         | _ \<Rightarrow> Inl WrongCell)
      else if op = DELETE then
        (case pdu of S_DELETE s \<Rightarrow> bind_r (create_DELETE_buffer s) (\<lambda>b. Inr (Some b))
         | _ \<Rightarrow> Inl WrongCell)
      else Inr None)"

definition create_QUIT_pdu :: "byte list PDU_struct res" where
  "create_QUIT_pdu =
     bind_r (c_write (replicate HEADERSIZE 0) 0 [QUIT]) (\<lambda>d.
     Inr \<lparr>OP_code = USER, data_bytes = of_nat HEADERSIZE, data = d\<rparr>)"

section \<open>Reading the kernel's answer\<close>

text \<open>
  \<open>payload\<close> are the bytes after the netlink header. The 16-bit sum \<open>msg_size + HEADERSIZE\<close>
  is computed in \<open>int\<close> for the copy and truncated in the field.
\<close>

definition read_exactly_from_kernel :: "byte list \<Rightarrow> byte list PDU_struct res" where
  "read_exactly_from_kernel payload =
     bind_r (c_read payload 1 2) (\<lambda>sz.
     let msg_size = un_le16 sz
     in bind_r (c_read payload 0 (unat msg_size + HEADERSIZE)) (\<lambda>d.
        Inr \<lparr>OP_code = KERNEL, data_bytes = msg_size + of_nat HEADERSIZE, data = d\<rparr>))"

section \<open>The layout of an encoded PDU\<close>

text \<open>A C string in an array of \<open>n\<close> bytes, the rest of the array zero.\<close>

definition pad :: "nat \<Rightarrow> byte list \<Rightarrow> byte list" where
  "pad n s = s @ replicate (n - length s) 0"

lemma length_pad [simp]: "length (pad n s) = max n (length s)"
  by (simp add: pad_def)

lemma upto_nul_pad [simp]: "upto_nul (pad n s) = upto_nul s"
proof (cases "nul_free s")
  case True
  then show ?thesis by (cases "n - length s") (auto simp: pad_def upto_nul_id)
next
  case False
  then show ?thesis by (auto simp: pad_def upto_nul_def nul_free_def takeWhile_append)
qed

definition wire_key :: "u8 \<Rightarrow> byte list \<Rightarrow> byte list" where
  "wire_key op k = op # replicate 3 0 @ pad KEY_SIZE k"

definition wire_insert :: "byte list \<Rightarrow> byte list \<Rightarrow> byte list" where
  "wire_insert k v = INSERT # le16 (of_nat (length v)) @ [0] @ pad KEY_SIZE k @ v"

lemma length_wire_key: "length k \<le> KEY_SIZE \<Longrightarrow> length (wire_key op k) = HEADERSIZE + KEY_SIZE"
  by (simp add: wire_key_def)

lemma length_wire_insert:
  "length k \<le> KEY_SIZE \<Longrightarrow> length (wire_insert k v) = HEADERSIZE + KEY_SIZE + length v"
  by (simp add: wire_insert_def)

text \<open>An array whose string is \<open>k\<close>.\<close>

lemma copy_string_ok:
  assumes "nul_free k" "off + length k \<le> length dst"
  shows "copy_string dst off (k @ 0 # r) = Inr (take off dst @ k @ drop (off + length k) dst)"
  using assms by (simp add: copy_string_def)

lemma copy_string_no_nul: "nul_free src \<Longrightarrow> copy_string dst off src = Inl OutOfBoundsRead"
  by (simp add: copy_string_def c_strlen_fail)


lemma create_GET_buffer_ok:
  assumes "nul_free k" "length k < KEY_SIZE"
  shows "create_GET_buffer \<lparr>GET_op = op, GET_key = k @ 0 # r\<rparr> = Inr (wire_key GET k)"
  using assms
  by (simp add: create_GET_buffer_def copy_string_ok wire_key_def pad_def drop_Cons')

lemma create_DELETE_buffer_ok:
  assumes "nul_free k" "length k < KEY_SIZE"
  shows "create_DELETE_buffer \<lparr>DELETE_op = op, DELETE_key = k @ 0 # r\<rparr> = Inr (wire_key DELETE k)"
  using assms
  by (simp add: create_DELETE_buffer_def copy_string_ok wire_key_def pad_def drop_Cons')

lemma copy_string_field:
  assumes "nul_free k" "length k \<le> n" "off = length a"
  shows "copy_string (a @ replicate n 0 @ c) off (k @ 0 # r) = Inr (a @ pad n k @ c)"
  using assms by (simp add: copy_string_ok pad_def)

lemma create_INSERT_buffer_ok:
  assumes "nul_free k" "length k < KEY_SIZE" "unat n = length v"
  shows "create_INSERT_buffer
    \<lparr>INSERT_op = INSERT, INSERT_key = k @ 0 # r, INSERT_bytes = n, INSERT_data = v @ s\<rparr> =
    Inr (wire_insert k v)"
proof -
  let ?z = "replicate KEY_SIZE 0 @ replicate (length v) (0 :: byte)"
  have size: "replicate (length v + HEADERSIZE + KEY_SIZE) (0 :: byte) = [] @ [0] @ [0, 0, 0] @ ?z"
  proof -
    have "replicate (length v + HEADERSIZE + KEY_SIZE) (0 :: byte) =
        replicate HEADERSIZE 0 @ replicate KEY_SIZE 0 @ replicate (length v) 0"
      unfolding replicate_add [symmetric] by (simp add: add.commute)
    then show ?thesis by (simp add: eval_nat_numeral)
  qed
  have "of_nat (length v) = n" by (rule of_nat_eq_unat [OF assms(3)])
  then have w: "wire_insert k v = (INSERT # le16 n @ [0]) @ pad KEY_SIZE k @ v" by (simp add: wire_insert_def)
  have s1: "c_write ([] @ [0] @ [0, 0, 0] @ ?z) 0 [INSERT] = Inr ([INSERT] @ [0, 0] @ [0] @ ?z)"
    by simp
  have s2: "c_write ([INSERT] @ [0, 0] @ [0] @ ?z) 1 (le16 n) = Inr ([INSERT] @ le16 n @ [0] @ ?z)"
    by (rule c_write_field) simp_all
  have s3: "copy_string ([INSERT] @ le16 n @ [0] @ ?z) HEADERSIZE (k @ 0 # r) =
      Inr ((INSERT # le16 n @ [0]) @ pad KEY_SIZE k @ replicate (length v) 0)"
    using copy_string_field [OF assms(1), of KEY_SIZE HEADERSIZE "INSERT # le16 n @ [0]"] assms(2) by simp
  have s4: "c_write ((INSERT # le16 n @ [0]) @ pad KEY_SIZE k @ replicate (length v) 0) (HEADERSIZE + KEY_SIZE) v =
      Inr (wire_insert k v)"
    using assms(2) c_write_field [of "HEADERSIZE + KEY_SIZE" "(INSERT # le16 n @ [0]) @ pad KEY_SIZE k" v
      "replicate (length v) 0" "[]"] by (simp add: w)
  show ?thesis
    unfolding create_INSERT_buffer_def Let_def INSERT_struct.select_convs assms(3) size s1 bind_r_Inr s2 s3
    using s4 by simp
qed

text \<open>A key array without a terminating NUL is read past its end.\<close>

lemma create_buffer_unterminated:
  assumes "nul_free key"
  shows "create_GET_buffer \<lparr>GET_op = op, GET_key = key\<rparr> = Inl OutOfBoundsRead"
    and "create_DELETE_buffer \<lparr>DELETE_op = op, DELETE_key = key\<rparr> = Inl OutOfBoundsRead"
    and "create_INSERT_buffer \<lparr>INSERT_op = op, INSERT_key = key, INSERT_bytes = n, INSERT_data = d\<rparr> =
      Inl OutOfBoundsRead"
  using assms
  by (simp_all add: create_GET_buffer_def create_DELETE_buffer_def create_INSERT_buffer_def copy_string_no_nul Let_def)

lemma read_exactly_from_kernel_ok:
  assumes "payload = op # le16 n @ [x] @ d @ rest" "unat n = length d" "length d + HEADERSIZE < 2 ^ 16"
  shows "read_exactly_from_kernel payload =
    Inr \<lparr>OP_code = KERNEL, data_bytes = of_nat (length d + HEADERSIZE), data = op # le16 n @ [x] @ d\<rparr>"
proof -
  have "c_read ([op] @ le16 n @ x # d @ rest) 1 2 = Inr (le16 n)" by (rule c_read_field) simp_all
  moreover have "c_read ([] @ (op # le16 n @ [x] @ d) @ rest) 0 (length d + HEADERSIZE) = Inr (op # le16 n @ [x] @ d)"
    by (rule c_read_field) simp_all
  moreover have "n = of_nat (length d)" by (rule of_nat_eq_unat [OF assms(2), symmetric])
  ultimately show ?thesis using assms by (simp add: read_exactly_from_kernel_def Let_def)
qed

end
