(* ===== verification/Kernel.thy ===== *)
theory Kernel
  imports Pdu
begin

text \<open>
  The kernel module of OU4/Kernel/netlinkKernel.c: a hash table of \<open>rhash_object\<close>s behind a
  netlink socket. A request arrives as the payload of a netlink message, is put on a work
  queue (\<open>recieve_data\<close>) and answered by \<open>work_handler\<close>. The Linux \<open>rhashtable\<close> is not part of
  the repository: its operations are the argument \<open>ops\<close> of the model, and what the module
  relies on is the contract \<open>rhashtable\<close> (documented behaviour of lookup, insertion, removal
  and disposal), stated with the module's own comparison function. Kernel memory is counted:
  \<open>kavail\<close> blocks can still be allocated, \<open>kfree\<close> gives a block back.
\<close>

section \<open>Objects and the hash table's interface\<close>

record rhash_object =
  ht_key :: "byte list"     \<comment> \<open>\<open>char key[KEY_SIZE + 1]\<close>\<close>
  ht_bytes :: u16
  ht_data :: "byte list"

text \<open>\<open>memcmp\<close> of \<open>n\<close> bytes\<close>

fun c_memcmp :: "byte list \<Rightarrow> byte list \<Rightarrow> nat \<Rightarrow> int res" where
  "c_memcmp s t 0 = Inr 0"
| "c_memcmp (a # s) (b # t) (Suc n) =
     (if a \<noteq> b then Inr (uint a - uint b) else c_memcmp s t n)"
| "c_memcmp s t (Suc n) = Inl OutOfBoundsRead"

definition my_compare_function :: "byte list \<Rightarrow> rhash_object \<Rightarrow> int res" where
  "my_compare_function arg_key obj = c_memcmp (ht_key obj) arg_key KEY_SIZE"

abbreviation EEXIST :: int where "EEXIST \<equiv> 17"

record 'h rht_ops =
  rht_init :: "int \<times> 'h"
  rht_lookup :: "'h \<Rightarrow> byte list \<Rightarrow> rhash_object option"
  rht_insert :: "'h \<Rightarrow> rhash_object \<Rightarrow> int \<times> 'h"
  rht_remove :: "'h \<Rightarrow> rhash_object \<Rightarrow> int \<times> 'h"
  rht_free :: "'h \<Rightarrow> rhash_object list"  \<comment> \<open>the objects the free function is called on\<close>

section \<open>State of the module\<close>

record 'h kernel =
  ht :: "'h option"            \<comment> \<open>\<open>None\<close>: the static table before \<open>rhashtable_init\<close>, or destroyed\<close>
  hashtable_initialized :: bool
  kavail :: nat
  wq :: "nat list"             \<comment> \<open>the work queue: addresses of message buffers\<close>
  skbs :: "nat \<Rightarrow> byte list option"  \<comment> \<open>the message buffers (their payloads) that netlink has not released\<close>
  nl_sk_send :: bool           \<comment> \<open>the netlink sockets exist\<close>
  nl_sk_receive :: bool
  replies :: "byte list list"  \<comment> \<open>messages sent back to user space\<close>

text \<open>The module's static data when it is loaded, with \<open>n\<close> blocks of memory.\<close>

definition loaded :: "nat \<Rightarrow> 'h kernel" where
  "loaded n = \<lparr>ht = None, hashtable_initialized = False, kavail = n, wq = [], skbs = Map.empty,
     nl_sk_send = False, nl_sk_receive = False, replies = []\<rparr>"

definition kmalloc :: "'h kernel \<Rightarrow> 'h kernel option" where
  "kmalloc k = (if kavail k = 0 then None else Some (k\<lparr>kavail := kavail k - 1\<rparr>))"

definition kfree :: "'h kernel \<Rightarrow> 'h kernel" where
  "kfree k = k\<lparr>kavail := kavail k + 1\<rparr>"

text \<open>Before its initialisation the table has no bucket array; using it is a fault.\<close>

definition table :: "'h kernel \<Rightarrow> 'h res" where
  "table k = (case ht k of None \<Rightarrow> Inl UninitTable | Some t \<Rightarrow> Inr t)"

section \<open>Request handlers\<close>

text \<open>\<open>response->data = s; response->data_bytes = strnlen(s, MAX_PAYLOAD) + 1\<close>\<close>

definition text_response :: "string \<Rightarrow> byte list PDU_struct" where
  "text_response s =
     \<lparr>OP_code = KERNEL, data_bytes = of_nat (min MAX_PAYLOAD (length s) + 1), data = c_str s\<rparr>"

text \<open>The key of a GET or DELETE request, copied to a zeroed \<open>char key[KEY_SIZE + 1]\<close>.\<close>

definition copy_key :: "byte list \<Rightarrow> byte list res" where
  "copy_key src =
     bind_r (copy_string (replicate (KEY_SIZE + 1) 0) 0 src) (\<lambda>key. c_write key KEY_SIZE [0])"

definition read_DELETE_struct ::
  "'h rht_ops \<Rightarrow> byte list \<Rightarrow> 'h kernel \<Rightarrow> (byte list PDU_struct \<times> 'h kernel) res" where
  "read_DELETE_struct ops request k =
     bind_r (c_advance request HEADERSIZE) (\<lambda>request.
     bind_r (copy_key request) (\<lambda>key.
     bind_r (table k) (\<lambda>t.
     case rht_lookup ops t key of
       None \<Rightarrow> Inr (text_response ''Error when getting object.'', k)
     | Some obj \<Rightarrow>
         (let (err, t) = rht_remove ops t obj;
              k = k\<lparr>ht := Some t\<rparr>;
              response = (if err < 0 then text_response ''Error when deleting from rhashtable.''
                          else text_response ''Successful deleting object from rhashtable.'')
          in Inr (response, kfree (kfree k))))))"

definition read_GET_struct ::
  "'h rht_ops \<Rightarrow> byte list \<Rightarrow> 'h kernel \<Rightarrow> (byte list PDU_struct \<times> 'h kernel) res" where
  "read_GET_struct ops request k =
     bind_r (c_advance request HEADERSIZE) (\<lambda>request.
     bind_r (copy_key request) (\<lambda>key.
     bind_r (table k) (\<lambda>t.
     case rht_lookup ops t key of
       None \<Rightarrow> Inr (text_response ''Error when getting object.'', k)
     | Some obj \<Rightarrow>
         bind_r (c_memcmp (ht_key obj) key KEY_SIZE) (\<lambda>d.
         if d = 0 then Inr (\<lparr>OP_code = KERNEL, data_bytes = ht_bytes obj, data = ht_data obj\<rparr>, k)
         else Inr (text_response ''Error, key does not match...'', k)))))"

definition read_INSERT_struct ::
  "'h rht_ops \<Rightarrow> byte list \<Rightarrow> 'h kernel \<Rightarrow> (byte list PDU_struct \<times> 'h kernel) res" where
  "read_INSERT_struct ops request k =
     (case kmalloc k of
        None \<Rightarrow> Inr (text_response ''Error when kmalloc.'', k)
      | Some k \<Rightarrow>
          bind_r (c_advance request 1) (\<lambda>request.
          bind_r (c_read request 0 2) (\<lambda>sz.
          bind_r (c_advance request 3) (\<lambda>request.
          bind_r (copy_key request) (\<lambda>key.
          bind_r (c_advance request KEY_SIZE) (\<lambda>request.
          case kmalloc k of
            None \<Rightarrow> Inl NullDeref
          | Some k \<Rightarrow>
              bind_r (c_read request 0 (unat (un_le16 sz))) (\<lambda>d.
              bind_r (table k) (\<lambda>t.
              let obj = \<lparr>ht_key = key, ht_bytes = un_le16 sz, ht_data = d\<rparr>;
                  (err, t) = rht_insert ops t obj;
                  k = k\<lparr>ht := Some t\<rparr>
              in Inr (if err = - EEXIST then text_response ''Error, duplicated key.''
                      else if err < 0 then text_response ''Error when insert to rhashtable.''
                      else text_response ''Inserted object to rhashtable'', k)))))))))"

definition read_INIT_struct :: "'h rht_ops \<Rightarrow> 'h kernel \<Rightarrow> byte list PDU_struct \<times> 'h kernel" where
  "read_INIT_struct ops k =
     (if hashtable_initialized k then (text_response ''Hashtable already initialized.'', k)
      else let (err, t) = rht_init ops
           in if err < 0 then (text_response ''Unable to initialize hashtable.'', k)
              else (text_response ''Initialized hashtable.'',
                    k\<lparr>ht := Some t, hashtable_initialized := True\<rparr>))"

text \<open>\<open>None\<close>: no memory for the response, the request is dropped.\<close>

definition read_exactly_from_user ::
  "'h rht_ops \<Rightarrow> byte list \<Rightarrow> 'h kernel \<Rightarrow> (byte list PDU_struct option \<times> 'h kernel) res" where
  "read_exactly_from_user ops request k =
     (case kmalloc k of
        None \<Rightarrow> Inr (None, k)
      | Some k \<Rightarrow>
          bind_r (c_read request 0 1) (\<lambda>op.
          bind_r (if op = [INIT] then Inr (read_INIT_struct ops k)
                  else if op = [INSERT] then read_INSERT_struct ops request k
                  else if op = [GET] then read_GET_struct ops request k
                  else if op = [DELETE] then read_DELETE_struct ops request k
                  else Inr (text_response ''Error wrong OP_code to kernel'', k)) (\<lambda>(response, k).
          Inr (Some response, k))))"

text \<open>
  The reply is built in memory from \<open>kmalloc\<close>, whose fourth byte is never written: it is
  whatever (\<open>junk\<close>) the block held before.
\<close>

definition PDU_to_buffer_kernel :: "byte \<Rightarrow> byte list PDU_struct \<Rightarrow> byte list res" where
  "PDU_to_buffer_kernel junk pdu =
     bind_r (c_read (data pdu) 0 (unat (data_bytes pdu))) (\<lambda>d.
     Inr (OP_code pdu # le16 (data_bytes pdu) @ [junk] @ d))"

text \<open>Sending on a socket that has been released uses freed memory.\<close>

definition nlmsg_unicast :: "byte list \<Rightarrow> 'h kernel \<Rightarrow> 'h kernel res" where
  "nlmsg_unicast msg k =
     (if nl_sk_send k then Inr (k\<lparr>replies := replies k @ [msg]\<rparr>) else Inl UseAfterFree)"

text \<open>The work item has the address of the message buffer; a buffer that has been released is freed memory.\<close>

definition work_handler :: "'h rht_ops \<Rightarrow> byte \<Rightarrow> nat \<Rightarrow> 'h kernel \<Rightarrow> 'h kernel res" where
  "work_handler ops junk skb k =
     bind_r (case skbs k skb of None \<Rightarrow> Inl UseAfterFree | Some request \<Rightarrow> read_exactly_from_user ops request k) (\<lambda>(response, k).
     case response of
       None \<Rightarrow> Inr k
     | Some response \<Rightarrow>
         (case kmalloc k of
            None \<Rightarrow> Inl NullDeref
          | Some k \<Rightarrow>
              bind_r (PDU_to_buffer_kernel junk response) (\<lambda>response_buffer.
              if kavail k = 0 then Inr k   \<comment> \<open>\<open>nlmsg_new\<close> failed\<close>
              else
                bind_r (c_read response_buffer 0 (unat (data_bytes response) + HEADERSIZE)) (\<lambda>msg.
                nlmsg_unicast msg k))))"

definition recieve_data :: "nat \<Rightarrow> 'h kernel \<Rightarrow> 'h kernel res" where
  "recieve_data skb k =
     (case kmalloc k of None \<Rightarrow> Inl NullDeref | Some k \<Rightarrow> Inr (k\<lparr>wq := wq k @ [skb]\<rparr>))"

text \<open>The worker runs the items of the queue in order until none is left.\<close>

fun run_work :: "'h rht_ops \<Rightarrow> byte \<Rightarrow> nat list \<Rightarrow> 'h kernel \<Rightarrow> 'h kernel res" where
  "run_work ops junk [] k = Inr k"
| "run_work ops junk (skb # q) k =
     bind_r (work_handler ops junk skb (k\<lparr>wq := q\<rparr>)) (\<lambda>k. run_work ops junk q k)"

definition flush_workqueue :: "'h rht_ops \<Rightarrow> byte \<Rightarrow> 'h kernel \<Rightarrow> 'h kernel res" where
  "flush_workqueue ops junk k = run_work ops junk (wq k) k"

section \<open>Loading and unloading\<close>

text \<open>
  \<open>sock_send\<close> and \<open>sock_receive\<close>: whether \<open>netlink_kernel_create\<close> succeeds.
\<close>

definition init_module :: "bool \<Rightarrow> bool \<Rightarrow> 'h kernel \<Rightarrow> int \<times> 'h kernel" where
  "init_module sock_send sock_receive k =
     (let k = k\<lparr>hashtable_initialized := False, nl_sk_send := sock_send\<rparr>
      in if \<not> sock_send then (- 10, k)
         else let k = k\<lparr>nl_sk_receive := sock_receive\<rparr>
              in if \<not> sock_receive then (- 10, k\<lparr>nl_sk_send := False\<rparr>)
                 else (0, k\<lparr>wq := []\<rparr>))"

definition free_ht_objects :: "rhash_object \<Rightarrow> 'h kernel \<Rightarrow> 'h kernel" where
  "free_ht_objects obj k = kfree (kfree k)"

definition exit_module :: "'h rht_ops \<Rightarrow> byte \<Rightarrow> 'h kernel \<Rightarrow> 'h kernel res" where
  "exit_module ops junk k =
     (let k = k\<lparr>nl_sk_send := False, nl_sk_receive := False\<rparr>
      in bind_r (if hashtable_initialized k
                 then bind_r (table k) (\<lambda>t. Inr ((fold free_ht_objects (rht_free ops t) k)\<lparr>ht := None\<rparr>))
                 else Inr k) (\<lambda>k. flush_workqueue ops junk k))"

text \<open>
  One request from the netlink socket to the answer, the queue being empty. Netlink puts the message into a
  buffer (at any free address, here 0), calls \<open>recieve_data\<close>, and releases the buffer when the call has returned;
  \<open>recieve_data\<close> only queues the address. So it matters when the worker runs: \<open>handle\<close> has it done before the
  call returns (on another processor), \<open>handle_late\<close> after.
\<close>

definition netlink_message :: "byte list \<Rightarrow> 'h kernel \<Rightarrow> 'h kernel" where
  "netlink_message request k = k\<lparr>skbs := (skbs k)(0 \<mapsto> request)\<rparr>"

definition netlink_release :: "'h kernel \<Rightarrow> 'h kernel" where
  "netlink_release k = k\<lparr>skbs := (skbs k)(0 := None)\<rparr>"

definition handle :: "'h rht_ops \<Rightarrow> byte \<Rightarrow> byte list \<Rightarrow> 'h kernel \<Rightarrow> 'h kernel res" where
  "handle ops junk request k =
     bind_r (recieve_data 0 (netlink_message request k)) (\<lambda>k.
     bind_r (flush_workqueue ops junk k) (\<lambda>k. Inr (netlink_release k)))"

definition handle_late :: "'h rht_ops \<Rightarrow> byte \<Rightarrow> byte list \<Rightarrow> 'h kernel \<Rightarrow> 'h kernel res" where
  "handle_late ops junk request k =
     bind_r (recieve_data 0 (netlink_message request k)) (\<lambda>k. flush_workqueue ops junk (netlink_release k))"

section \<open>What the module relies on\<close>

text \<open>
  The contract of the kernel's \<open>rhashtable\<close> (include/linux/rhashtable.h): \<open>objs t\<close> are the
  objects in the table \<open>t\<close>. A lookup finds an object whose comparison with the key is zero if
  there is one; \<open>rhashtable_lookup_insert_fast\<close> reports \<open>-EEXIST\<close> exactly if there is one,
  and otherwise inserts or fails without a change; removing an object that is present
  succeeds; an initialised table is empty; disposal visits every object once.
\<close>

definition matches :: "byte list \<Rightarrow> rhash_object \<Rightarrow> bool" where
  "matches key obj \<longleftrightarrow> my_compare_function key obj = Inr 0"

locale rhashtable =
  fixes ops :: "'h rht_ops"
    and objs :: "'h \<Rightarrow> rhash_object set"
  assumes init_empty: "rht_init ops = (err, t) \<Longrightarrow> 0 \<le> err \<Longrightarrow> objs t = {}"
    and lookup_some: "rht_lookup ops t key = Some obj \<Longrightarrow> obj \<in> objs t \<and> matches key obj"
    and lookup_none: "rht_lookup ops t key = None \<Longrightarrow> obj \<in> objs t \<Longrightarrow> \<not> matches key obj"
    and insert_exists: "rht_insert ops t obj = (err, t') \<Longrightarrow> obj' \<in> objs t \<Longrightarrow>
      matches (ht_key obj) obj' \<Longrightarrow> err = - EEXIST \<and> objs t' = objs t"
    and insert_fresh: "rht_insert ops t obj = (err, t') \<Longrightarrow>
      \<forall>obj' \<in> objs t. \<not> matches (ht_key obj) obj' \<Longrightarrow>
      err \<noteq> - EEXIST \<and> (if err < 0 then objs t' = objs t else objs t' = insert obj (objs t))"
    and remove_present: "rht_remove ops t obj = (err, t') \<Longrightarrow> obj \<in> objs t \<Longrightarrow>
      0 \<le> err \<and> objs t' = objs t - {obj}"
    and free_all: "set (rht_free ops t) = objs t \<and> distinct (rht_free ops t)"

text \<open>
  A table that meets the contract, as a list of objects searched with the module's comparison
  function; it serves the concrete examples.
\<close>

definition list_table :: "rhash_object list rht_ops" where
  "list_table =
     \<lparr>rht_init = (0, []),
      rht_lookup = (\<lambda>t key. find (matches key) t),
      rht_insert = (\<lambda>t obj. if find (matches (ht_key obj)) t = None then (0, List.insert obj t)
                             else (- EEXIST, t)),
      rht_remove = (\<lambda>t obj. (0, remdups (removeAll obj t))),
      rht_free = remdups\<rparr>"

interpretation list_table: rhashtable list_table set
proof unfold_locales
  fix t key obj assume "rht_lookup list_table t key = Some obj"
  then show "obj \<in> set t \<and> matches key obj" by (auto simp: list_table_def find_Some_iff)
next
  fix t key obj assume "rht_lookup list_table t key = None" "obj \<in> set t"
  then show "\<not> matches key obj" by (auto simp: list_table_def find_None_iff)
qed (auto simp: list_table_def find_None_iff split: if_splits)

end
