(* ===== verification/KernelSpec.thy ===== *)
theory KernelSpec
  imports Kernel
begin

text \<open>
  The key-value store the kernel module is meant to be, and the proof that it is: an abstract
  map from key strings to values with a step relation for the four requests, the relation
  \<open>represents\<close> between it and the module's state, and the refinement of every request, for any
  \<open>rhashtable\<close> that meets its contract.
\<close>

section \<open>Keys\<close>

text \<open>The key array of a string: at most 64 bytes, then NULs.\<close>

definition key_string :: "byte list \<Rightarrow> bool" where
  "key_string s \<longleftrightarrow> nul_free s \<and> length s \<le> KEY_SIZE"

lemma pad_inject: "nul_free s \<Longrightarrow> nul_free s' \<Longrightarrow> pad n s = pad n s' \<longleftrightarrow> s = s'"
  by (metis upto_nul_id upto_nul_pad)

lemma take_pad: "length s \<le> n \<Longrightarrow> n \<le> m \<Longrightarrow> take n (pad m s) = pad n s"
  by (simp add: pad_def)

lemma copy_key_string:
  assumes "nul_free s" "length s \<le> KEY_SIZE + 1"
  shows "copy_key (s @ 0 # r) = Inr (pad (KEY_SIZE + 1) (take KEY_SIZE s))"
proof (cases "length s = KEY_SIZE + 1")
  case True
  then have "pad (KEY_SIZE + 1) (take KEY_SIZE s) = take KEY_SIZE s @ [0]" by (simp add: pad_def)
  with True assms show ?thesis by (simp add: copy_key_def copy_string_ok)
next
  case False
  then have l: "length s \<le> KEY_SIZE" using assms(2) by simp
  then have "KEY_SIZE + 1 - length s = Suc (KEY_SIZE - length s)" by simp
  then have r: "replicate (KEY_SIZE + 1 - length s) (0::byte) = replicate (KEY_SIZE - length s) 0 @ [0]"
    by (simp only: replicate_Suc replicate_append_same)
  have "c_write ((s @ replicate (KEY_SIZE - length s) 0) @ [0] @ []) KEY_SIZE [0] =
      Inr ((s @ replicate (KEY_SIZE - length s) 0) @ [0] @ [])"
    by (rule c_write_field) (use l in simp_all)
  with assms l r show ?thesis by (simp add: copy_key_def copy_string_ok pad_def)
qed

text \<open>When the copy stays inside the array, and what the array then holds.\<close>

definition key_field_ok :: "byte list \<Rightarrow> bool" where
  "key_field_ok b \<longleftrightarrow> 0 \<in> set b \<and> length (upto_nul b) \<le> KEY_SIZE + 1"

lemma copy_key_eq:
  "copy_key b =
    (if 0 \<notin> set b then Inl OutOfBoundsRead
     else if KEY_SIZE + 1 < length (upto_nul b) then Inl OutOfBoundsWrite
     else Inr (pad (KEY_SIZE + 1) (take KEY_SIZE (upto_nul b))))"
proof (cases "0 \<in> set b")
  case True
  then obtain s r where b: "b = s @ 0 # r" "nul_free s" by (rule split_at_nul)
  show ?thesis
  proof (cases "length s \<le> KEY_SIZE + 1")
    case True
    with b copy_key_string [OF b(2)] show ?thesis by simp
  next
    case False
    with b show ?thesis by (simp add: copy_key_def copy_string_def c_write_fail)
  qed
next
  case False
  then show ?thesis by (simp add: copy_key_def copy_string_no_nul nul_free_def)
qed

lemma key_string_field: "key_string (take KEY_SIZE (upto_nul b))"
  by (simp add: key_string_def nul_free_take)

lemma c_memcmp_take:
  "n \<le> length s \<Longrightarrow> n \<le> length t \<Longrightarrow> \<exists>d. c_memcmp s t n = Inr d \<and> (d = 0 \<longleftrightarrow> take n s = take n t)"
  by (induction s t n rule: c_memcmp.induct) auto

text \<open>Objects as the module builds them.\<close>

definition obj_ok :: "rhash_object \<Rightarrow> bool" where
  "obj_ok ob \<longleftrightarrow> key_string (upto_nul (ht_key ob)) \<and>
     ht_key ob = pad (KEY_SIZE + 1) (upto_nul (ht_key ob)) \<and> length (ht_data ob) = unat (ht_bytes ob)"

definition obj_name :: "rhash_object \<Rightarrow> byte list" where
  "obj_name ob = upto_nul (ht_key ob)"

lemma memcmp_keys:
  assumes "obj_ok ob" "key_string s"
  shows "\<exists>d. c_memcmp (ht_key ob) (pad (KEY_SIZE + 1) s) KEY_SIZE = Inr d \<and> (d = 0 \<longleftrightarrow> obj_name ob = s)"
proof -
  have k: "ht_key ob = pad (KEY_SIZE + 1) (obj_name ob)" "key_string (obj_name ob)"
    using assms(1) by (simp_all add: obj_ok_def obj_name_def)
  have "take KEY_SIZE (ht_key ob) = pad KEY_SIZE (obj_name ob)"
    "take KEY_SIZE (pad (KEY_SIZE + 1) s) = pad KEY_SIZE s"
    using k assms(2) by (simp_all add: take_pad key_string_def)
  with c_memcmp_take [of KEY_SIZE "ht_key ob" "pad (KEY_SIZE + 1) s"] k assms(2) show ?thesis
    by (auto simp: pad_inject key_string_def)
qed

lemma matches_name: "obj_ok ob \<Longrightarrow> key_string s \<Longrightarrow> matches (pad (KEY_SIZE + 1) s) ob \<longleftrightarrow> obj_name ob = s"
  using memcmp_keys [of ob s] by (auto simp: matches_def my_compare_function_def)

section \<open>The abstract store\<close>

type_synonym store = "byte list \<rightharpoonup> byte list"

datatype request =
    Init | Insert "byte list" "byte list" | Get "byte list" | Delete "byte list" | Unknown u8

inductive kv_step :: "store \<Rightarrow> request \<Rightarrow> byte list \<Rightarrow> store \<Rightarrow> bool" where
  init: "kv_step m Init (c_str ''Hashtable already initialized.'') m"
| insert_new: "m s = None \<Longrightarrow>
    kv_step m (Insert s v) (c_str ''Inserted object to rhashtable'') (m(s \<mapsto> v))"
| insert_failed: "m s = None \<Longrightarrow>
    kv_step m (Insert s v) (c_str ''Error when insert to rhashtable.'') m"
| insert_present: "m s = Some w \<Longrightarrow> kv_step m (Insert s v) (c_str ''Error, duplicated key.'') m"
| get_present: "m s = Some v \<Longrightarrow> kv_step m (Get s) v m"
| get_absent: "m s = None \<Longrightarrow> kv_step m (Get s) (c_str ''Error when getting object.'') m"
| delete_present: "m s = Some v \<Longrightarrow>
    kv_step m (Delete s) (c_str ''Successful deleting object from rhashtable.'') (m(s := None))"
| delete_absent: "m s = None \<Longrightarrow> kv_step m (Delete s) (c_str ''Error when getting object.'') m"
| unknown: "kv_step m (Unknown op) (c_str ''Error wrong OP_code to kernel'') m"

inductive_simps kv_step_simps [simp]:
  "kv_step m Init a m'" "kv_step m (Insert s v) a m'" "kv_step m (Get s) a m'"
  "kv_step m (Delete s) a m'" "kv_step m (Unknown op) a m'"

text \<open>One for an insertion that is turned down.\<close>

fun rejected :: "request \<Rightarrow> byte list \<Rightarrow> nat" where
  "rejected (Insert s v) a = (if a = c_str ''Inserted object to rhashtable'' then 0 else 1)"
| "rejected r a = 0"

lemma kv_step_finite: "kv_step m r a m' \<Longrightarrow> finite (dom m) \<Longrightarrow> finite (dom m')"
  by (induction rule: kv_step.induct) auto

text \<open>How user space writes the requests.\<close>

fun encode :: "request \<Rightarrow> byte list" where
  "encode Init = [INIT, 0, 0, 0]"
| "encode (Insert s v) = wire_insert s v"
| "encode (Get s) = wire_key GET s"
| "encode (Delete s) = wire_key DELETE s"
| "encode (Unknown op) = [op, 0, 0, 0]"

fun valid_request :: "request \<Rightarrow> bool" where
  "valid_request Init \<longleftrightarrow> True"
| "valid_request (Insert s v) \<longleftrightarrow> nul_free s \<and> length s < KEY_SIZE \<and> length v < 2 ^ 16"
| "valid_request (Get s) \<longleftrightarrow> nul_free s \<and> length s < KEY_SIZE"
| "valid_request (Delete s) \<longleftrightarrow> nul_free s \<and> length s < KEY_SIZE"
| "valid_request (Unknown op) \<longleftrightarrow> op \<notin> {INIT, INSERT, GET, DELETE}"

text \<open>
  The request that the bytes \<open>q\<close> of a message stand for, whatever they are, and the messages
  that can be read without leaving the message or the 65-byte key array.
\<close>

definition key_of :: "byte list \<Rightarrow> byte list" where
  "key_of q = take KEY_SIZE (upto_nul (drop HEADERSIZE q))"

definition size_of :: "byte list \<Rightarrow> nat" where
  "size_of q = unat (un_le16 (take 2 (drop 1 q)))"

definition request_of :: "byte list \<Rightarrow> request" where
  "request_of q =
     (if hd q = INIT then Init
      else if hd q = INSERT then Insert (key_of q) (take (size_of q) (drop (HEADERSIZE + KEY_SIZE) q))
      else if hd q = GET then Get (key_of q)
      else if hd q = DELETE then Delete (key_of q)
      else Unknown (hd q))"

definition safe_request :: "byte list \<Rightarrow> bool" where
  "safe_request q \<longleftrightarrow> q \<noteq> [] \<and>
     (hd q \<in> {INSERT, GET, DELETE} \<longrightarrow> HEADERSIZE \<le> length q \<and> key_field_ok (drop HEADERSIZE q)) \<and>
     (hd q = INSERT \<longrightarrow> HEADERSIZE + KEY_SIZE + size_of q \<le> length q)"

text \<open>The reply message that carries the answer \<open>a\<close>.\<close>

definition reply :: "byte \<Rightarrow> byte list \<Rightarrow> byte list" where
  "reply junk a = KERNEL # le16 (of_nat (length a)) @ [junk] @ a"

definition represents_table :: "('h \<Rightarrow> rhash_object set) \<Rightarrow> 'h \<Rightarrow> store \<Rightarrow> bool" where
  "represents_table objs t m \<longleftrightarrow> (\<forall>ob \<in> objs t. obj_ok ob) \<and> inj_on obj_name (objs t) \<and>
     (\<forall>s v. m s = Some v \<longleftrightarrow> (\<exists>ob \<in> objs t. obj_name ob = s \<and> ht_data ob = v))"

definition represents :: "('h \<Rightarrow> rhash_object set) \<Rightarrow> 'h kernel \<Rightarrow> store \<Rightarrow> bool" where
  "represents objs k m \<longleftrightarrow> hashtable_initialized k \<and> nl_sk_send k \<and> wq k = [] \<and>
     (\<exists>t. ht k = Some t \<and> represents_table objs t m)"

end
