(* ===== verification/KernelRefine.thy ===== *)
theory KernelRefine
  imports KernelSpec
begin

text \<open>
  The kernel module refines the abstract store of KernelSpec: the operations of the table on the
  module's padded keys, one handler after the other, a whole request from its message to its
  reply, and sequences of requests, for every table that meets its contract.
\<close>

section \<open>The table contract on the module's keys\<close>

lemma represents_table_None:
  "represents_table objs t m \<Longrightarrow> m s = None \<longleftrightarrow> (\<forall>ob \<in> objs t. obj_name ob \<noteq> s)"
  unfolding represents_table_def by (metis not_None_eq)

context rhashtable
begin

lemma lookup_absent:
  assumes "represents_table objs t m" "key_string s" "rht_lookup ops t (pad (KEY_SIZE + 1) s) = None"
  shows "m s = None"
proof (rule ccontr)
  assume "m s \<noteq> None"
  then obtain ob where "ob \<in> objs t" "obj_name ob = s" "obj_ok ob"
    using assms(1) by (auto simp: represents_table_def)
  with lookup_none [OF assms(3)] matches_name assms(2) show False by blast
qed

lemma lookup_present:
  assumes "represents_table objs t m" "key_string s" "rht_lookup ops t (pad (KEY_SIZE + 1) s) = Some ob"
  shows "ob \<in> objs t" and "obj_ok ob" and "obj_name ob = s" and "m s = Some (ht_data ob)"
proof -
  show ob: "ob \<in> objs t" and ok: "obj_ok ob"
    using lookup_some [OF assms(3)] assms(1) by (auto simp: represents_table_def)
  show nm: "obj_name ob = s" using lookup_some [OF assms(3)] matches_name [OF ok assms(2)] by simp
  show "m s = Some (ht_data ob)" using ob nm assms(1) by (auto simp: represents_table_def)
qed

lemma insert_represents:
  assumes r: "represents_table objs t m" and ok: "obj_ok ob" and i: "rht_insert ops t ob = (err, t')"
  shows "case m (obj_name ob) of
      Some v \<Rightarrow> err = - EEXIST \<and> represents_table objs t' m
    | None \<Rightarrow> err \<noteq> - EEXIST \<and>
        represents_table objs t' (if err < 0 then m else m(obj_name ob \<mapsto> ht_data ob))"
proof -
  have key: "ht_key ob = pad (KEY_SIZE + 1) (obj_name ob)" "key_string (obj_name ob)"
    using ok by (simp_all add: obj_ok_def obj_name_def)
  have mt: "matches (ht_key ob) ob' \<longleftrightarrow> obj_name ob' = obj_name ob" if "ob' \<in> objs t" for ob'
    using that r matches_name key by (auto simp: represents_table_def)
  show ?thesis
  proof (cases "m (obj_name ob)")
    case None
    then have "\<forall>ob' \<in> objs t. obj_name ob' \<noteq> obj_name ob"
      using represents_table_None [OF r] by auto
    with insert_fresh [OF i] mt None r ok show ?thesis
      by (auto simp: represents_table_def split: if_splits)
  next
    case (Some v)
    then obtain ob' where "ob' \<in> objs t" "obj_name ob' = obj_name ob"
      using r by (auto simp: represents_table_def)
    with insert_exists [OF i] mt have e: "err = - EEXIST" "objs t' = objs t" by blast+
    then have "represents_table objs t' m" using r by (simp add: represents_table_def)
    with e show ?thesis by (simp add: Some)
  qed
qed

lemma remove_represents:
  assumes r: "represents_table objs t m" and ob: "ob \<in> objs t" and d: "rht_remove ops t ob = (err, t')"
  shows "0 \<le> err" and "represents_table objs t' (m(obj_name ob := None))"
  using remove_present [OF d ob] r ob by (auto simp: represents_table_def inj_on_def)

lemma represents_finite: "represents objs k m \<Longrightarrow> finite (dom m)"
proof -
  assume "represents objs k m"
  then obtain t where "represents_table objs t m" by (auto simp: represents_def)
  then have "dom m \<subseteq> obj_name ` objs t" by (auto simp: represents_table_def)
  moreover have "finite (objs t)" using free_all [of t] by (metis List.finite_set)
  ultimately show ?thesis by (meson finite_imageI finite_subset)
qed

lemma init_represents: "rht_init ops = (err, t) \<Longrightarrow> 0 \<le> err \<Longrightarrow> represents_table objs t Map.empty"
  using init_empty by (auto simp: represents_table_def)

end

section \<open>Answers\<close>

definition carries :: "byte list PDU_struct \<Rightarrow> byte list \<Rightarrow> bool" where
  "carries response a \<longleftrightarrow> OP_code response = KERNEL \<and> data response = a \<and>
     data_bytes response = of_nat (length a) \<and> length a < 2 ^ 16"

lemma carries_text [simp]: "length s \<le> MAX_PAYLOAD \<Longrightarrow> carries (text_response s) a \<longleftrightarrow> a = c_str s"
  by (auto simp: carries_def text_response_def)

lemma u16_bound: "unat (w :: u16) < 2 ^ 16"
  using unsigned_less [of w] by simp

text \<open>A response is sent as it is when two more blocks can be had.\<close>

lemma work_handler_reply:
  assumes "skbs k skb = Some q" "read_exactly_from_user ops q k = Inr (Some response, k')" "carries response a"
    "2 \<le> kavail k'" "nl_sk_send k'"
  shows "work_handler ops junk skb k =
    Inr (k'\<lparr>kavail := kavail k' - 1, replies := replies k' @ [reply junk a]\<rparr>)"
  using assms
  by (simp add: work_handler_def kmalloc_def PDU_to_buffer_kernel_def carries_def reply_def
      nlmsg_unicast_def unat_of_nat)

lemma handle_one:
  assumes "wq k = []" "0 < kavail k"
  shows "handle ops junk q k =
    bind_r (work_handler ops junk 0 (netlink_message q (k\<lparr>kavail := kavail k - 1\<rparr>))) (\<lambda>k. Inr (netlink_release k))"
proof -
  have e: "netlink_message q k\<lparr>kavail := kavail k - 1, wq := []\<rparr> = netlink_message q (k\<lparr>kavail := kavail k - 1\<rparr>)"
    using assms(1) by (cases k) (simp add: netlink_message_def)
  have w: "run_work ops junk [] = Inr" by (rule ext) simp
  have "handle ops junk q k =
      bind_r (bind_r (work_handler ops junk 0 (netlink_message q k\<lparr>kavail := kavail k - 1, wq := []\<rparr>)) Inr)
        (\<lambda>k. Inr (netlink_release k))"
    using assms w by (simp add: handle_def recieve_data_def kmalloc_def flush_workqueue_def netlink_message_def del: One_nat_def)
  then show ?thesis unfolding e by (simp add: bind_r_def split: sum.splits)
qed

text \<open>A worker that comes after the release of the buffer reads freed memory, whatever the message.\<close>

lemma handle_late_faults:
  assumes "wq k = []" "0 < kavail k"
  shows "handle_late ops junk q k = Inl UseAfterFree"
  using assms by (simp add: handle_late_def recieve_data_def kmalloc_def flush_workqueue_def netlink_message_def
      netlink_release_def work_handler_def)

lemma netlink_fields [simp]:
  "kavail (netlink_message q k) = kavail k" "replies (netlink_message q k) = replies k" "nl_sk_send (netlink_message q k) = nl_sk_send k"
  "hashtable_initialized (netlink_message q k) = hashtable_initialized k" "ht (netlink_message q k) = ht k"
  "wq (netlink_message q k) = wq k" "skbs (netlink_message q k) 0 = Some q"
  "kavail (netlink_release k) = kavail k" "replies (netlink_release k) = replies k" "nl_sk_send (netlink_release k) = nl_sk_send k"
  "hashtable_initialized (netlink_release k) = hashtable_initialized k" "ht (netlink_release k) = ht k"
  "wq (netlink_release k) = wq k"
  by (simp_all add: netlink_message_def netlink_release_def)

lemma answers_differ [simp]:
  "c_str ''Error, duplicated key.'' \<noteq> c_str ''Inserted object to rhashtable''"
  "c_str ''Error when insert to rhashtable.'' \<noteq> c_str ''Inserted object to rhashtable''"
  by (auto dest: arg_cong [where f = length])

section \<open>The handlers\<close>

text \<open>The key of a request that can be read.\<close>

lemma request_key:
  assumes "HEADERSIZE \<le> length q" "key_field_ok (drop HEADERSIZE q)"
  shows "bind_r (c_advance q HEADERSIZE) (\<lambda>request. bind_r (copy_key request) f) =
    f (pad (KEY_SIZE + 1) (key_of q))"
  using assms by (simp add: copy_key_eq key_field_ok_def key_of_def)

lemma request_key_unsafe:
  assumes "\<not> (HEADERSIZE \<le> length q \<and> key_field_ok (drop HEADERSIZE q))"
  shows "\<exists>e \<in> {OutOfBoundsRead, OutOfBoundsWrite}.
    bind_r (c_advance q HEADERSIZE) (\<lambda>request. bind_r (copy_key request) f) = Inl e"
  using assms by (auto simp: copy_key_eq key_field_ok_def c_advance_def)

lemma key_string_key_of: "key_string (key_of q)"
  by (simp add: key_of_def key_string_field)

abbreviation insert_obj :: "byte list \<Rightarrow> rhash_object" where
  "insert_obj q \<equiv> \<lparr>ht_key = pad (KEY_SIZE + 1) (key_of q), ht_bytes = un_le16 (take 2 (drop 1 q)),
     ht_data = take (size_of q) (drop (HEADERSIZE + KEY_SIZE) q)\<rparr>"

lemma read_INSERT_request:
  assumes q: "HEADERSIZE + KEY_SIZE + size_of q \<le> length q" "key_field_ok (drop HEADERSIZE q)"
    and k: "2 \<le> kavail k" "ht k = Some t" and i: "rht_insert ops t (insert_obj q) = (err, t')"
  shows "read_INSERT_struct ops q k =
    Inr (if err = - EEXIST then text_response ''Error, duplicated key.''
         else if err < 0 then text_response ''Error when insert to rhashtable.''
         else text_response ''Inserted object to rhashtable'', k\<lparr>kavail := kavail k - 2, ht := Some t'\<rparr>)"
proof -
  let ?k1 = "k\<lparr>kavail := kavail k - 1\<rparr>" and ?k2 = "k\<lparr>kavail := kavail k - 2\<rparr>"
  have m: "kmalloc k = Some ?k1" "kmalloc ?k1 = Some ?k2" using k by (simp_all add: kmalloc_def)
  have a1: "c_advance q 1 = Inr (drop 1 q)" using q by simp
  have r1: "c_read (drop 1 q) 0 2 = Inr (take 2 (drop 1 q))" using q by simp
  have a2: "c_advance (drop 1 q) 3 = Inr (drop HEADERSIZE q)" using q by (simp add: drop_drop)
  have ck: "copy_key (drop HEADERSIZE q) = Inr (pad (KEY_SIZE + 1) (key_of q))"
    using q(2) by (simp add: copy_key_eq key_field_ok_def key_of_def)
  have a3: "c_advance (drop HEADERSIZE q) KEY_SIZE = Inr (drop (HEADERSIZE + KEY_SIZE) q)"
    using q by (simp add: drop_drop)
  have r2: "c_read (drop (HEADERSIZE + KEY_SIZE) q) 0 (unat (un_le16 (take 2 (drop 1 q)))) =
      Inr (take (size_of q) (drop (HEADERSIZE + KEY_SIZE) q))"
    unfolding size_of_def [symmetric] using q by (subst c_read_ok) simp_all
  have t: "table ?k2 = Inr t" using k by (simp add: table_def)
  show ?thesis
    unfolding read_INSERT_struct_def m a1 r1 a2 ck a3 r2 t bind_r_Inr option.case Let_def i
    by (simp add: numeral_2_eq_2)
qed

lemma read_INSERT_unsafe:
  assumes "2 \<le> kavail k" "\<not> (HEADERSIZE + KEY_SIZE + size_of q \<le> length q \<and> key_field_ok (drop HEADERSIZE q))"
  shows "\<exists>e \<in> {OutOfBoundsRead, OutOfBoundsWrite}. read_INSERT_struct ops q k = Inl e"
proof -
  obtain k1 k2 where m: "kmalloc k = Some k1" "kmalloc k1 = Some k2"
    using assms(1) by (auto simp: kmalloc_def)
  note d = read_INSERT_struct_def m option.case
  consider "length q < HEADERSIZE"
    | "HEADERSIZE \<le> length q" "\<not> key_field_ok (drop HEADERSIZE q)"
    | "HEADERSIZE \<le> length q" "key_field_ok (drop HEADERSIZE q)" "length q < HEADERSIZE + KEY_SIZE"
    | "HEADERSIZE + KEY_SIZE \<le> length q" "key_field_ok (drop HEADERSIZE q)"
      "length q < HEADERSIZE + KEY_SIZE + size_of q"
    using assms(2) by linarith
  then show ?thesis
  proof cases
    case 1
    then show ?thesis unfolding d by (auto simp: c_advance_def c_read_def)
  next
    case 2
    then show ?thesis unfolding d by (auto simp: c_advance_def c_read_def copy_key_eq key_field_ok_def)
  next
    case 3
    moreover from 3 have "\<not> KEY_SIZE \<le> length q - HEADERSIZE" by simp
    ultimately show ?thesis unfolding d by (simp add: copy_key_eq key_field_ok_def c_advance_def)
  next
    case 4
    then have "c_read (drop (HEADERSIZE + KEY_SIZE) q) 0 (size_of q) = Inl OutOfBoundsRead"
      by (intro c_read_fail) simp
    with 4 show ?thesis unfolding d
      by (simp add: copy_key_eq key_field_ok_def size_of_def)
  qed
qed

lemma insert_obj_ok:
  assumes "HEADERSIZE + KEY_SIZE + size_of q \<le> length q"
  shows "obj_ok (insert_obj q)" and "obj_name (insert_obj q) = key_of q"
proof -
  have "nul_free (key_of q)" using key_string_key_of by (simp add: key_string_def)
  with assms show "obj_ok (insert_obj q)" "obj_name (insert_obj q) = key_of q"
    using key_string_key_of [of q] by (simp_all add: obj_ok_def obj_name_def upto_nul_id key_string_def size_of_def)
qed

text \<open>
  What every handler must deliver for the request \<open>r\<close>: a response that carries an answer the
  abstract store can give, and a state that represents the store after the step, at most
  \<open>n\<close> blocks of memory later.
\<close>

definition serves :: "('h \<Rightarrow> rhash_object set) \<Rightarrow> nat \<Rightarrow> 'h kernel \<Rightarrow> store \<Rightarrow> request \<Rightarrow>
    (byte list PDU_struct \<times> 'h kernel) res \<Rightarrow> bool" where
  "serves objs n k m r out \<longleftrightarrow> (\<exists>response k' a m'. out = Inr (response, k') \<and> carries response a \<and>
     kv_step m r a m' \<and> represents objs k' m' \<and> replies k' = replies k \<and> kavail k \<le> kavail k' + n \<and>
     kavail k + 2 * card (dom m) = kavail k' + 2 * card (dom m') + 2 * rejected r a)"

lemma servesI:
  "out = Inr (response, k') \<Longrightarrow> carries response a \<Longrightarrow> kv_step m r a m' \<Longrightarrow> represents objs k' m' \<Longrightarrow>
   replies k' = replies k \<Longrightarrow> kavail k \<le> kavail k' + n \<Longrightarrow>
   kavail k + 2 * card (dom m) = kavail k' + 2 * card (dom m') + 2 * rejected r a \<Longrightarrow> serves objs n k m r out"
  by (auto simp: serves_def)

lemma representsE:
  assumes "represents objs k m"
  obtains t where "ht k = Some t" "table k = Inr t" "represents_table objs t m"
    "hashtable_initialized k" "nl_sk_send k" "wq k = []"
  using assms by (auto simp: represents_def table_def)

context rhashtable
begin

lemma read_GET_serves:
  assumes k: "HEADERSIZE \<le> length q" "key_field_ok (drop HEADERSIZE q)" and r: "represents objs k m"
  shows "serves objs 0 k m (Get (key_of q)) (read_GET_struct ops q k)"
proof -
  from r obtain t where t: "table k = Inr t" "represents_table objs t m" by (rule representsE)
  note s = key_string_key_of [of q]
  show ?thesis
  proof (cases "rht_lookup ops t (pad (KEY_SIZE + 1) (key_of q))")
    case None
    with lookup_absent [OF t(2) s None] r show ?thesis
      by (intro servesI [where m' = m and k' = k]) (auto simp: read_GET_struct_def request_key [OF k] t)
  next
    case (Some ob)
    note ob = lookup_present [OF t(2) s Some]
    obtain d where "c_memcmp (ht_key ob) (pad (KEY_SIZE + 1) (key_of q)) KEY_SIZE = Inr d" "d = 0"
      using memcmp_keys [OF ob(2) s] ob(3) by auto
    moreover have "carries \<lparr>OP_code = KERNEL, data_bytes = ht_bytes ob, data = ht_data ob\<rparr> (ht_data ob)"
      using ob(2) u16_bound [of "ht_bytes ob"] by (simp add: obj_ok_def carries_def)
    ultimately show ?thesis using Some ob r
      by (intro servesI [where m' = m and k' = k]) (auto simp: read_GET_struct_def request_key [OF k] t)
  qed
qed

lemma read_DELETE_serves:
  assumes k: "HEADERSIZE \<le> length q" "key_field_ok (drop HEADERSIZE q)" and r: "represents objs k m"
  shows "serves objs 0 k m (Delete (key_of q)) (read_DELETE_struct ops q k)"
proof -
  from r obtain t where t: "table k = Inr t" "represents_table objs t m" by (rule representsE)
  note s = key_string_key_of [of q]
  show ?thesis
  proof (cases "rht_lookup ops t (pad (KEY_SIZE + 1) (key_of q))")
    case None
    with lookup_absent [OF t(2) s None] r show ?thesis
      by (intro servesI [where m' = m and k' = k]) (auto simp: read_DELETE_struct_def request_key [OF k] t)
  next
    case (Some ob)
    note ob = lookup_present [OF t(2) s Some]
    obtain err t' where d: "rht_remove ops t ob = (err, t')" by (cases "rht_remove ops t ob")
    note rm = remove_represents [OF t(2) ob(1) d]
    have "card (dom m) = Suc (card (dom m - {key_of q}))"
      using ob(4) represents_finite [OF r] by (intro card.remove) auto
    then have c: "card (dom m) = Suc (card (dom (m(key_of q := None))))" by simp
    show ?thesis
      by (rule servesI [where m' = "m(key_of q := None)" and k' = "kfree (kfree (k\<lparr>ht := Some t'\<rparr>))"])
        (use Some ob rm r c in \<open>auto simp: read_DELETE_struct_def request_key [OF k] t d kfree_def represents_def\<close>)
  qed
qed

lemma read_INSERT_serves:
  assumes q: "HEADERSIZE + KEY_SIZE + size_of q \<le> length q" "key_field_ok (drop HEADERSIZE q)"
    and r: "represents objs k m" and mem: "2 \<le> kavail k"
  shows "serves objs 2 k m (Insert (key_of q) (take (size_of q) (drop (HEADERSIZE + KEY_SIZE) q)))
    (read_INSERT_struct ops q k)"
proof -
  let ?v = "take (size_of q) (drop (HEADERSIZE + KEY_SIZE) q)"
  from r obtain t where t: "ht k = Some t" "represents_table objs t m" by (rule representsE)
  obtain err t' where i: "rht_insert ops t (insert_obj q) = (err, t')"
    by (cases "rht_insert ops t (insert_obj q)")
  note ins = insert_represents [OF t(2) insert_obj_ok(1) [OF q(1)] i, unfolded insert_obj_ok(2) [OF q(1)]]
  note run = read_INSERT_request [OF q mem t(1) i]
  note rep = r [unfolded represents_def]
  consider (dup) w where "m (key_of q) = Some w" | (failed) "m (key_of q) = None" "err < 0"
    | (new) "m (key_of q) = None" "0 \<le> err"
    by (cases "m (key_of q)") linarith+
  then show ?thesis
  proof cases
    case dup
    with ins rep mem show ?thesis by (intro servesI [where m' = m, OF run]) (auto simp: represents_def)
  next
    case failed
    with ins rep mem show ?thesis
      by (intro servesI [where m' = m and a = "c_str ''Error when insert to rhashtable.''", OF run])
        (auto simp: represents_def)
  next
    case new
    have "key_of q \<notin> dom m" using new by auto
    then have "card (dom (m(key_of q \<mapsto> ?v))) = Suc (card (dom m))" using represents_finite [OF r] by simp
    with new ins rep mem show ?thesis
      by (intro servesI [where m' = "m(key_of q \<mapsto> ?v)" and a = "c_str ''Inserted object to rhashtable''", OF run])
        (auto simp: represents_def)
  qed
qed

end

section \<open>One request, from the socket to the answer\<close>

lemma serves_mono:
  assumes "serves objs n k m r out" "n \<le> n'"
  shows "serves objs n' k m r out"
proof -
  from assms(1) obtain response k' a m' where "out = Inr (response, k')" "carries response a"
    "kv_step m r a m'" "represents objs k' m'" "replies k' = replies k" "kavail k \<le> kavail k' + n"
    "kavail k + 2 * card (dom m) = kavail k' + 2 * card (dom m') + 2 * rejected r a"
    by (auto simp: serves_def)
  with assms(2) show ?thesis by (intro servesI [where k' = k' and m' = m' and a = a]) auto
qed

lemma read_INIT_serves: "represents objs k m \<Longrightarrow> serves objs 0 k m Init (Inr (read_INIT_struct ops k))"
  by (rule servesI [where m' = m and k' = k]) (auto simp: read_INIT_struct_def represents_def)

text \<open>The switch of \<open>read_exactly_from_user\<close>.\<close>

definition dispatch :: "'h rht_ops \<Rightarrow> byte list \<Rightarrow> 'h kernel \<Rightarrow> (byte list PDU_struct \<times> 'h kernel) res" where
  "dispatch ops q k =
     (if hd q = INIT then Inr (read_INIT_struct ops k)
      else if hd q = INSERT then read_INSERT_struct ops q k
      else if hd q = GET then read_GET_struct ops q k
      else if hd q = DELETE then read_DELETE_struct ops q k
      else Inr (text_response ''Error wrong OP_code to kernel'', k))"

lemma read_exactly_dispatch:
  "kmalloc k = Some k1 \<Longrightarrow> q \<noteq> [] \<Longrightarrow>
   read_exactly_from_user ops q k = bind_r (dispatch ops q k1) (\<lambda>(response, k). Inr (Some response, k))"
  by (cases q) (simp_all add: read_exactly_from_user_def dispatch_def)

lemma dispatch_unsafe:
  assumes "\<not> safe_request q" "q \<noteq> []" "2 \<le> kavail k"
  shows "\<exists>e \<in> {OutOfBoundsRead, OutOfBoundsWrite}. dispatch ops q k = Inl e"
  using assms read_INSERT_unsafe [OF assms(3), of q ops] request_key_unsafe [of q]
  by (auto simp: safe_request_def dispatch_def read_GET_struct_def read_DELETE_struct_def)

lemma represents_kavail [simp]: "represents objs (k\<lparr>kavail := n\<rparr>) m \<longleftrightarrow> represents objs k m"
  by (simp add: represents_def)

lemma represents_netlink [simp]:
  "represents objs (netlink_message q k) m \<longleftrightarrow> represents objs k m" "represents objs (netlink_release k) m \<longleftrightarrow> represents objs k m"
  by (simp_all add: represents_def)

lemma represents_replies [simp]: "represents objs (k\<lparr>replies := rs\<rparr>) m \<longleftrightarrow> represents objs k m"
  by (simp add: represents_def)

context rhashtable
begin

lemma dispatch_serves:
  assumes q: "safe_request q" and rep: "represents objs k m" and mem: "2 \<le> kavail k"
  shows "serves objs 2 k m (request_of q) (dispatch ops q k)"
proof -
  note key = serves_mono [OF read_GET_serves [OF _ _ rep, of q]] serves_mono [OF read_DELETE_serves [OF _ _ rep, of q]]
  show ?thesis
    using q serves_mono [OF read_INIT_serves [OF rep]] read_INSERT_serves [OF _ _ rep mem, of q] key rep
    by (auto simp: safe_request_def request_of_def dispatch_def intro!: servesI [where m' = m and k' = k])
qed

lemma read_exactly_serves:
  assumes v: "safe_request q" and rep: "represents objs k m" and mem: "3 \<le> kavail k"
  shows "\<exists>response k' a m'. read_exactly_from_user ops q k = Inr (Some response, k') \<and>
    carries response a \<and> kv_step m (request_of q) a m' \<and> represents objs k' m' \<and> replies k' = replies k \<and>
    kavail k \<le> kavail k' + 3 \<and>
    kavail k + 2 * card (dom m) = kavail k' + 2 * card (dom m') + 1 + 2 * rejected (request_of q) a"
proof -
  define k1 where "k1 = k\<lparr>kavail := kavail k - 1\<rparr>"
  then have k1: "kmalloc k = Some k1" "represents objs k1 m" "2 \<le> kavail k1"
      "replies k1 = replies k" "kavail k = kavail k1 + 1"
    using rep mem by (auto simp: kmalloc_def)
  have q: "q \<noteq> []" using v by (simp add: safe_request_def)
  from dispatch_serves [OF v k1(2,3)] k1(4,5) show ?thesis
    unfolding serves_def read_exactly_dispatch [OF k1(1) q] by (elim exE conjE, intro exI conjI) auto
qed

lemma handle_serves:
  assumes "safe_request q" "represents objs k m" "6 \<le> kavail k"
  shows "\<exists>k' a m'. handle ops junk q k = Inr k' \<and> kv_step m (request_of q) a m' \<and>
    represents objs k' m' \<and> replies k' = replies k @ [reply junk a] \<and> kavail k \<le> kavail k' + 5 \<and>
    kavail k + 2 * card (dom m) = kavail k' + 2 * card (dom m') + 3 + 2 * rejected (request_of q) a"
proof -
  define k1 where k1_def: "k1 = netlink_message q (k\<lparr>kavail := kavail k - 1\<rparr>)"
  then have q: "skbs k1 0 = Some q" by simp
  from k1_def have k1: "represents objs k1 m" "3 \<le> kavail k1" "replies k1 = replies k" "kavail k = kavail k1 + 1"
    using assms(2,3) by auto
  have one: "handle ops junk q k = bind_r (work_handler ops junk 0 k1) (\<lambda>k. Inr (netlink_release k))"
    unfolding k1_def using assms(2,3) by (intro handle_one) (auto simp: represents_def)
  from read_exactly_serves [OF assms(1) k1(1,2)] obtain response k' a m' where
    rd: "read_exactly_from_user ops q k1 = Inr (Some response, k')" and
    c: "carries response a" and st: "kv_step m (request_of q) a m'" and rep: "represents objs k' m'" and
    rl: "replies k' = replies k1" and mem: "kavail k1 \<le> kavail k' + 3" and
    bal: "kavail k1 + 2 * card (dom m) = kavail k' + 2 * card (dom m') + 1 + 2 * rejected (request_of q) a"
    by blast
  have "2 \<le> kavail k'" "nl_sk_send k'" using mem k1(4) assms(3) rep by (auto simp: represents_def)
  from work_handler_reply [OF q rd c this] one st rep rl mem bal k1(3,4) assms(3) show ?thesis by auto
qed

end

section \<open>Sequences of requests\<close>

inductive kv_run :: "store \<Rightarrow> request list \<Rightarrow> byte list list \<Rightarrow> store \<Rightarrow> bool" where
  kv_nil: "kv_run m [] [] m"
| kv_cons: "kv_step m r a m' \<Longrightarrow> kv_run m' rs as m'' \<Longrightarrow> kv_run m (r # rs) (a # as) m''"

inductive_simps kv_run_simps [simp]: "kv_run m [] as m'" "kv_run m (r # rs) as m'"

fun handle_all :: "'h rht_ops \<Rightarrow> byte \<Rightarrow> byte list list \<Rightarrow> 'h kernel \<Rightarrow> 'h kernel res" where
  "handle_all ops junk [] k = Inr k"
| "handle_all ops junk (q # qs) k = bind_r (handle ops junk q k) (handle_all ops junk qs)"

text \<open>
  What a client of the module may rely on: the state is a store, and each request whose bytes
  can be read safely moves it by the step of the store that the bytes stand for and is
  answered, as long as there is memory.
\<close>

locale kv_service =
  fixes serve :: "byte list \<Rightarrow> 's \<Rightarrow> 's res"
    and rep :: "'s \<Rightarrow> store \<Rightarrow> bool"
    and memory :: "'s \<Rightarrow> nat"
    and answers :: "'s \<Rightarrow> byte list list"
    and junk :: byte
  assumes serve_step: "safe_request q \<Longrightarrow> rep s m \<Longrightarrow> 6 \<le> memory s \<Longrightarrow>
    \<exists>s' a m'. serve q s = Inr s' \<and> kv_step m (request_of q) a m' \<and> rep s' m' \<and>
      answers s' = answers s @ [reply junk a] \<and> memory s \<le> memory s' + 5 \<and>
      memory s + 2 * card (dom m) = memory s' + 2 * card (dom m') + 3 + 2 * rejected (request_of q) a"
begin

fun serve_all :: "byte list list \<Rightarrow> 's \<Rightarrow> 's res" where
  "serve_all [] s = Inr s"
| "serve_all (q # qs) s = bind_r (serve q s) (serve_all qs)"

lemma serve_all_run:
  assumes "\<forall>q \<in> set qs. safe_request q" "rep s m" "5 * length qs < memory s"
  shows "\<exists>s' as m'. serve_all qs s = Inr s' \<and> kv_run m (map request_of qs) as m' \<and> rep s' m' \<and>
    answers s' = answers s @ map (reply junk) as \<and>
    memory s + 2 * card (dom m) = memory s' + 2 * card (dom m') + 3 * length qs +
      2 * sum_list (map2 rejected (map request_of qs) as) \<and> memory s \<le> memory s' + 5 * length qs"
  using assms
proof (induction qs arbitrary: s m)
  case (Cons q qs)
  have "safe_request q" "6 \<le> memory s" using Cons.prems by simp_all
  from serve_step [OF this(1) Cons.prems(2) this(2)] obtain s1 a m1 where
    s1: "serve q s = Inr s1" "kv_step m (request_of q) a m1" "rep s1 m1"
      "answers s1 = answers s @ [reply junk a]" "memory s \<le> memory s1 + 5"
      "memory s + 2 * card (dom m) = memory s1 + 2 * card (dom m1) + 3 + 2 * rejected (request_of q) a" by blast
  have "5 * length qs < memory s1" using s1(5) Cons.prems(3) by simp
  from Cons.IH [OF _ s1(3) this] Cons.prems(1) obtain s' as m' where
    "serve_all qs s1 = Inr s'" "kv_run m1 (map request_of qs) as m'" "rep s' m'"
    "answers s' = answers s1 @ map (reply junk) as"
    "memory s1 + 2 * card (dom m1) = memory s' + 2 * card (dom m') + 3 * length qs +
      2 * sum_list (map2 rejected (map request_of qs) as)" "memory s1 \<le> memory s' + 5 * length qs" by auto
  with s1 show ?case by (intro exI [of _ s'] exI [of _ "a # as"] exI [of _ m']) auto
qed simp

end

sublocale rhashtable \<subseteq> kv: kv_service "handle ops junk" "represents objs" kavail replies junk for junk
  by unfold_locales (rule handle_serves)

context rhashtable
begin

lemma serve_all_handle: "kv.serve_all junk = handle_all ops junk"
proof (intro ext)
  show "kv.serve_all junk qs k = handle_all ops junk qs k" for qs k
    by (induction qs arbitrary: k) (simp_all add: bind_r_def split: sum.splits)
qed

lemmas handle_all_run = kv.serve_all_run [unfolded serve_all_handle]

end

end
