(* ===== verification/KernelProps.thy ===== *)
theory KernelProps
  imports KernelRefine
begin

text \<open>
  The properties of the kernel module: refinement of the store, memory safety against
  arbitrary messages, the life of the module from loading to unloading, and the way its
  memory runs out.
\<close>

section \<open>Requests as user space writes them\<close>

lemma upto_nul_padded: "nul_free s \<Longrightarrow> length s < KEY_SIZE \<Longrightarrow> upto_nul (pad KEY_SIZE s @ r) = s"
proof -
  assume s: "nul_free s" "length s < KEY_SIZE"
  then have "KEY_SIZE - length s = Suc (KEY_SIZE - 1 - length s)" by simp
  then have "pad KEY_SIZE s @ r = s @ 0 # replicate (KEY_SIZE - 1 - length s) 0 @ r"
    unfolding pad_def by (simp only: replicate_Suc append.assoc append_Cons)
  with s show ?thesis by simp
qed

lemma zero_in_padded: "length s < KEY_SIZE \<Longrightarrow> 0 \<in> set (pad KEY_SIZE s @ r)"
  by (simp add: pad_def)

lemma drop_wire:
  "drop HEADERSIZE (wire_key op s @ rest) = pad KEY_SIZE s @ rest"
  "drop HEADERSIZE (wire_insert s v @ rest) = pad KEY_SIZE s @ v @ rest"
  by (simp_all add: wire_key_def wire_insert_def le16_def)

lemma size_of_wire: "length v < 2 ^ 16 \<Longrightarrow> size_of (wire_insert s v @ rest) = length v"
  by (simp add: size_of_def wire_insert_def unat_of_nat)

lemma encode_nonempty: "encode r @ rest \<noteq> []"
  by (cases r) (simp_all add: wire_key_def wire_insert_def)

lemma valid_encode_safe: "valid_request r \<Longrightarrow> safe_request (encode r @ rest)"
proof (cases r)
  case (Insert s v)
  assume "valid_request r"
  with Insert show ?thesis
    using size_of_wire [of v s rest] upto_nul_padded [of s "v @ rest"] zero_in_padded [of s "v @ rest"]
      length_wire_insert [of s v] drop_wire(2) [of s v rest]
    by (simp add: safe_request_def key_field_ok_def)
      (simp add: wire_insert_def)
qed (auto simp: safe_request_def key_field_ok_def drop_wire upto_nul_padded length_wire_key
    zero_in_padded [simplified] wire_key_def)

lemma valid_encode_request_of: "valid_request r \<Longrightarrow> request_of (encode r @ rest) = r"
proof (cases r)
  case (Insert s v)
  assume "valid_request r"
  with Insert have v: "nul_free s" "length s < KEY_SIZE" "length v < 2 ^ 16" by simp_all
  have d: "drop (HEADERSIZE + KEY_SIZE) (wire_insert s v @ rest) = v @ rest"
    using v(2) by (simp add: wire_insert_def le16_def)
  have "hd (wire_insert s v @ rest) = INSERT" by (simp add: wire_insert_def)
  then show ?thesis using Insert v
    unfolding Insert encode.simps request_of_def d size_of_wire [OF v(3)] key_of_def drop_wire upto_nul_padded [OF v(1,2)]
    by simp
qed (auto simp: request_of_def key_of_def drop_wire upto_nul_padded, auto simp: wire_key_def upto_nul_padded)

section \<open>Life of the module\<close>

lemma handle_init:
  assumes "rhashtable ops objs" "rht_init ops = (err, t)" "0 \<le> err"
    "\<not> hashtable_initialized k" "nl_sk_send k" "wq k = []" "4 \<le> kavail k"
  shows "\<exists>k'. handle ops junk (INIT # rest) k = Inr k' \<and> represents objs k' Map.empty \<and>
    replies k' = replies k @ [reply junk (c_str ''Initialized hashtable.'')] \<and> kavail k = kavail k' + 3"
proof -
  let ?k0 = "netlink_message (INIT # rest) (k\<lparr>kavail := kavail k - 1\<rparr>)"
  define k1 where "k1 = ?k0\<lparr>kavail := kavail k - 2, ht := Some t, hashtable_initialized := True\<rparr>"
  have skb: "skbs ?k0 0 = Some (INIT # rest)" by simp
  have "read_exactly_from_user ops (INIT # rest) ?k0 =
      Inr (Some (text_response ''Initialized hashtable.''), k1)"
    using assms by (simp add: read_exactly_from_user_def kmalloc_def read_INIT_struct_def k1_def numeral_2_eq_2)
  from work_handler_reply [OF skb this, of "c_str ''Initialized hashtable.''" junk]
    handle_one [of k ops junk "INIT # rest"] assms rhashtable.init_represents [OF assms(1-3)]
  show ?thesis by (auto simp: k1_def represents_def)
qed

text \<open>Before INIT, a request that reaches the table faults.\<close>

lemma read_before_init:
  assumes "ht k = None" "safe_request q" "hd q \<in> {INSERT, GET, DELETE}" "2 \<le> kavail k"
  shows "dispatch ops q k = Inl UninitTable"
proof -
  have q: "HEADERSIZE \<le> length q" "key_field_ok (drop HEADERSIZE q)"
    "hd q = INSERT \<Longrightarrow> HEADERSIZE + KEY_SIZE + size_of q \<le> length q"
    using assms by (auto simp: safe_request_def)
  obtain k1 k2 where m: "kmalloc k = Some k1" "kmalloc k1 = Some k2" and t: "table k = Inl UninitTable" "table k2 = Inl UninitTable"
    using assms(1,4) by (auto simp: kmalloc_def table_def)
  consider "hd q = INSERT" | "hd q = GET" | "hd q = DELETE" using assms(3) by blast
  then show ?thesis
  proof cases
    case 1
    then have "c_read (drop (HEADERSIZE + KEY_SIZE) q) 0 (size_of q) = Inr (take (size_of q) (drop (HEADERSIZE + KEY_SIZE) q))"
      using q(3) by (subst c_read_ok) simp_all
    with 1 q m t show ?thesis
      by (simp add: dispatch_def read_INSERT_struct_def copy_key_eq key_field_ok_def size_of_def)
  qed (simp_all add: dispatch_def read_GET_struct_def read_DELETE_struct_def request_key [OF q(1,2)] t)
qed

lemma handle_dispatch_error:
  assumes "wq k = []" "4 \<le> kavail k" "q \<noteq> []" "dispatch ops q (netlink_message q (k\<lparr>kavail := kavail k - 2\<rparr>)) = Inl e"
  shows "handle ops junk q k = Inl e"
proof -
  have m: "kmalloc (netlink_message q (k\<lparr>kavail := kavail k - 1\<rparr>)) = Some (netlink_message q (k\<lparr>kavail := kavail k - 2\<rparr>))"
    using assms(2) by (simp add: kmalloc_def netlink_message_def numeral_2_eq_2)
  show ?thesis
    using handle_one [OF assms(1), of ops junk q] assms(2) read_exactly_dispatch [OF m assms(3), of ops]
    by (simp add: work_handler_def assms(4))
qed

lemma handle_unsafe:
  assumes "wq k = []" "4 \<le> kavail k" "\<not> safe_request q"
  shows "\<exists>e \<in> {OutOfBoundsRead, OutOfBoundsWrite}. handle ops junk q k = Inl e"
proof (cases "q = []")
  case True
  have "handle ops junk [] k = Inl OutOfBoundsRead"
    using handle_one [OF assms(1), of ops junk "[]"] assms(2)
    by (simp add: work_handler_def read_exactly_from_user_def kmalloc_def c_read_def)
  with True show ?thesis by simp
next
  case False
  have "2 \<le> kavail (netlink_message q (k\<lparr>kavail := kavail k - 2\<rparr>))" using assms(2) by simp
  from dispatch_unsafe [OF assms(3) False this, of ops] handle_dispatch_error [OF assms(1,2) False, of ops]
  show ?thesis by blast
qed

lemma fold_free_ht_objects: "fold free_ht_objects xs k = k\<lparr>kavail := kavail k + 2 * length xs\<rparr>"
  by (induction xs arbitrary: k) (simp_all add: free_ht_objects_def kfree_def)

lemma card_objs: "represents_table objs t m \<Longrightarrow> card (objs t) = card (dom m)"
proof -
  assume r: "represents_table objs t m"
  then have "s \<in> dom m \<longleftrightarrow> s \<in> obj_name ` objs t" for s
    using represents_table_None [of objs t m s] by (auto simp: domIff)
  then have "dom m = obj_name ` objs t" by blast
  with r show ?thesis by (simp add: represents_table_def card_image)
qed

text \<open>Unloading with an empty work queue gives back the memory of every object.\<close>

lemma exit_module_frees:
  assumes "rhashtable ops objs" "represents objs k m"
  shows "exit_module ops junk k = Inr (k\<lparr>nl_sk_send := False, nl_sk_receive := False,
    kavail := kavail k + 2 * card (dom m), ht := None\<rparr>)"
proof -
  from assms(2) obtain t where t: "ht k = Some t" "represents_table objs t m" "hashtable_initialized k" "wq k = []"
    by (rule representsE)
  have "length (rht_free ops t) = card (dom m)"
    using rhashtable.free_all [OF assms(1), of t] card_objs [OF t(2)] by (metis distinct_card)
  with t show ?thesis
    by (simp add: exit_module_def table_def fold_free_ht_objects flush_workqueue_def)
qed

text \<open>A request that is still queued when the module is unloaded.\<close>

lemma exit_module_pending:
  assumes "hashtable_initialized k" "ht k = Some t" "wq k = p # ps" "skbs k p = Some q" "safe_request q" "5 \<le> kavail k"
  shows "\<exists>e \<in> {UninitTable, UseAfterFree}. exit_module ops junk k = Inl e"
proof -
  define k0 where "k0 = k\<lparr>nl_sk_send := False, nl_sk_receive := False,
    kavail := kavail k + 2 * length (rht_free ops t), ht := None, wq := ps\<rparr>"
  define k1 where "k1 = k0\<lparr>kavail := kavail k0 - 1\<rparr>"
  have skb: "skbs k0 p = Some q" using assms(4) by (simp add: k0_def)
  have ex: "exit_module ops junk k = bind_r (work_handler ops junk p k0) (run_work ops junk ps)"
    using assms(1-3) by (simp add: exit_module_def table_def fold_free_ht_objects flush_workqueue_def k0_def)
  have k1: "kmalloc k0 = Some k1" "ht k1 = None" "\<not> nl_sk_send k1" "3 \<le> kavail k1" "hashtable_initialized k1"
    using assms(1,6) by (simp_all add: kmalloc_def k0_def k1_def)
  have q: "q \<noteq> []" using assms(5) by (simp add: safe_request_def)
  show ?thesis
  proof (cases "hd q \<in> {INSERT, GET, DELETE}")
    case True
    with read_before_init [OF k1(2) assms(5), of ops] k1(4) have "dispatch ops q k1 = Inl UninitTable" by simp
    then show ?thesis by (simp add: ex work_handler_def skb read_exactly_dispatch [OF k1(1) q])
  next
    case False
    then have "dispatch ops q k1 = Inr (text_response (if hd q = INIT
        then ''Hashtable already initialized.'' else ''Error wrong OP_code to kernel''), k1)" (is "_ = Inr (?r, _)")
      using k1(5) by (auto simp: dispatch_def read_INIT_struct_def)
    moreover have "unat (data_bytes ?r) = length (data ?r)" by (simp add: text_response_def)
    ultimately obtain response where "dispatch ops q k1 = Inr (response, k1)"
      "unat (data_bytes response) = length (data response)" by blast
    then show ?thesis using k1(3,4)
      by (simp add: ex work_handler_def skb read_exactly_dispatch [OF k1(1) q] kmalloc_def
          PDU_to_buffer_kernel_def nlmsg_unicast_def)
  qed
qed

section \<open>Runs of the store\<close>

lemma kv_run_append:
  "kv_run m (rs @ rs') as m'' \<longleftrightarrow> (\<exists>as1 as2 m'. as = as1 @ as2 \<and> kv_run m rs as1 m' \<and> kv_run m' rs' as2 m'')"
proof (induction rs arbitrary: m as)
  case (Cons r rs)
  show ?case
  proof
    assume "kv_run m ((r # rs) @ rs') as m''"
    then show "\<exists>as1 as2 m'. as = as1 @ as2 \<and> kv_run m (r # rs) as1 m' \<and> kv_run m' rs' as2 m''"
      using Cons.IH by (auto intro: kv_cons) (metis append_Cons kv_cons)
  next
    assume "\<exists>as1 as2 m'. as = as1 @ as2 \<and> kv_run m (r # rs) as1 m' \<and> kv_run m' rs' as2 m''"
    then show "kv_run m ((r # rs) @ rs') as m''" using Cons.IH by auto blast
  qed
qed simp

lemma kv_run_length: "kv_run m rs as m' \<Longrightarrow> length as = length rs"
  by (induction rule: kv_run.induct) simp_all

lemma kv_run_keeps: "kv_run m rs as m' \<Longrightarrow> m s = Some v \<Longrightarrow> Delete s \<notin> set rs \<Longrightarrow> m' s = Some v"
proof (induction rule: kv_run.induct)
  case (kv_cons m r a m' rs as m'')
  then have "m' s = Some v" by (cases r) auto
  with kv_cons show ?case by simp
qed

section \<open>Properties of the module\<close>

text \<open>A module that has been loaded and initialised, over the table of the examples.\<close>

definition example_kernel :: "rhash_object list kernel" where
  "example_kernel = \<lparr>ht = Some [], hashtable_initialized = True, kavail = 40, wq = [], skbs = Map.empty,
     nl_sk_send = True, nl_sk_receive = True, replies = []\<rparr>"

lemma example_kernel_represents: "represents set example_kernel Map.empty"
  by (simp add: example_kernel_def represents_def represents_table_def)

lemma example_kernel_kavail [simp]: "kavail example_kernel = 40" "replies example_kernel = []"
  by (simp_all add: example_kernel_def)

text \<open>
  C4. The kernel module is the abstract key-value store: for every hash table that meets its
  contract, any sequence of messages whose bytes can be read safely is answered message by
  message the way the store answers the requests those bytes stand for, and the final table is
  the final store. Insertions of a present key, lookups and removals of an absent one, repeated
  INIT requests and unknown operation codes are among the steps.
\<close>

theorem kernel_refines_store:
  assumes "rhashtable ops objs" "represents objs k m" "\<forall>q \<in> set qs. safe_request q"
    "5 * length qs < kavail k"
  shows "\<exists>k' as m'. handle_all ops junk qs k = Inr k' \<and> kv_run m (map request_of qs) as m' \<and>
    represents objs k' m' \<and> replies k' = replies k @ map (reply junk) as"
  using rhashtable.handle_all_run [OF assms(1,3,2,4), of junk] by blast

definition example_requests :: "request list" where
  "example_requests = [Insert (bytes ''k'') (bytes ''v''), Get (bytes ''k''), Delete (bytes ''k''), Unknown 99]"

lemma example_requests_valid:
  "\<forall>q \<in> set (map (\<lambda>r. encode r @ [7, 7]) example_requests). safe_request q"
  "map request_of (map (\<lambda>r. encode r @ [7, 7]) example_requests) = example_requests"
proof -
  have v: "\<forall>r \<in> set example_requests. valid_request r" by (simp add: example_requests_def)
  then show "\<forall>q \<in> set (map (\<lambda>r. encode r @ [7, 7]) example_requests). safe_request q"
    using valid_encode_safe by auto
  show "map request_of (map (\<lambda>r. encode r @ [7, 7]) example_requests) = example_requests"
    using v valid_encode_request_of by (auto intro!: map_idI)
qed

theorem kernel_refines_store_witness:
  "\<exists>k' as m'. handle_all list_table 0 (map (\<lambda>r. encode r @ [7, 7]) example_requests) example_kernel = Inr k' \<and>
    kv_run Map.empty example_requests as m' \<and> represents set k' m' \<and> replies k' = map (reply 0) as"
  using kernel_refines_store [OF list_table.rhashtable_axioms example_kernel_represents
      example_requests_valid(1), of 0, unfolded example_requests_valid(2)]
  by (simp add: example_requests_def)

text \<open>
  C20. Memory safety of a request with arbitrary bytes: the module serves the message, answers
  it once and its table stays a store of well-formed objects exactly when the message holds
  what its header announces and the key field is a string of at most 65 bytes; any other
  message makes it read past the message or write past the 65-byte key array.
\<close>

theorem kernel_message_safety:
  assumes "rhashtable ops objs" "represents objs k m" "6 \<le> kavail k"
  shows "if safe_request q
    then \<exists>k' m' a. handle ops junk q k = Inr k' \<and> represents objs k' m' \<and> replies k' = replies k @ [reply junk a]
    else \<exists>e \<in> {OutOfBoundsRead, OutOfBoundsWrite}. handle ops junk q k = Inl e"
proof (cases "safe_request q")
  case True
  with rhashtable.handle_serves [OF assms(1) True assms(2,3), of junk] show ?thesis by auto
next
  case False
  have "wq k = []" using assms(2) by (simp add: represents_def)
  with False handle_unsafe [OF this _ False, of ops junk] assms(3) show ?thesis by simp
qed

theorem kernel_message_safety_witness:
  "\<exists>e \<in> {OutOfBoundsRead, OutOfBoundsWrite}.
    handle list_table 0 (GET # [0, 0, 0] @ replicate 70 65 @ [0]) example_kernel = Inl e"
proof -
  have "\<not> safe_request (GET # [0, 0, 0] @ replicate 70 65 @ [0])"
    by (simp add: safe_request_def key_field_ok_def nul_free_def)
  then show ?thesis
    using kernel_message_safety [OF list_table.rhashtable_axioms example_kernel_represents,
        of "GET # [0, 0, 0] @ replicate 70 65 @ [0]" 0] by simp
qed

text \<open>
  C11. What a client stores it gets back: an INSERT built by \<open>PDU_to_buffer_user\<close> and accepted
  by the module, any requests that do not delete the key, and a GET built by
  \<open>PDU_to_buffer_user\<close>: the last reply, read by \<open>read_exactly_from_kernel\<close>, carries the value,
  whatever bytes follow the messages in the netlink buffers.
\<close>

theorem insert_then_get:
  assumes "rhashtable ops objs" "represents objs k m" "5 * (length qs + 2) < kavail k"
    and "nul_free s" "length s < KEY_SIZE" "length v + HEADERSIZE < 2 ^ 16"
    and "\<forall>q \<in> set qs. safe_request q \<and> request_of q \<noteq> Delete s"
  shows "\<exists>b1 b2 k' first middle final.
    PDU_to_buffer_user INSERT (S_INSERT \<lparr>INSERT_op = INSERT, INSERT_key = s @ 0 # p1,
      INSERT_bytes = of_nat (length v), INSERT_data = v @ p2\<rparr>) = Inr (Some b1) \<and>
    PDU_to_buffer_user GET (S_GET \<lparr>GET_op = GET, GET_key = s @ 0 # p3\<rparr>) = Inr (Some b2) \<and>
    handle_all ops junk ([b1 @ z1] @ qs @ [b2 @ z2]) k = Inr k' \<and>
    replies k' = replies k @ [first] @ middle @ [final] \<and> length middle = length qs \<and>
    (first = reply junk (c_str ''Inserted object to rhashtable'') \<longrightarrow>
     read_exactly_from_kernel (final @ z3) =
       Inr \<lparr>OP_code = KERNEL, data_bytes = of_nat (length v + HEADERSIZE), data = reply junk v\<rparr>)"
proof -
  let ?b1 = "wire_insert s v" and ?b2 = "wire_key GET s"
  have b1: "PDU_to_buffer_user INSERT (S_INSERT \<lparr>INSERT_op = INSERT, INSERT_key = s @ 0 # p1,
      INSERT_bytes = of_nat (length v), INSERT_data = v @ p2\<rparr>) = Inr (Some ?b1)"
    using create_INSERT_buffer_ok [OF assms(4,5), of "of_nat (length v)" v p1 p2] assms(6)
    by (simp add: PDU_to_buffer_user_def unat_of_nat)
  have b2: "PDU_to_buffer_user GET (S_GET \<lparr>GET_op = GET, GET_key = s @ 0 # p3\<rparr>) = Inr (Some ?b2)"
    using create_GET_buffer_ok [OF assms(4,5)] by (simp add: PDU_to_buffer_user_def)
  have v1: "valid_request (Insert s v)" and v2: "valid_request (Get s)" using assms(4-6) by simp_all
  let ?qs = "[?b1 @ z1] @ qs @ [?b2 @ z2]"
  have rs: "map request_of ?qs = [Insert s v] @ map request_of qs @ [Get s]"
    using valid_encode_request_of [OF v1, of z1] valid_encode_request_of [OF v2, of z2] by simp
  have safe: "\<forall>q \<in> set ?qs. safe_request q"
    using valid_encode_safe [OF v1, of z1] valid_encode_safe [OF v2, of z2] assms(7) by simp
  have len: "5 * length ?qs < kavail k" using assms(3) by simp
  obtain k' as m' where run: "handle_all ops junk ?qs k = Inr k'" "kv_run m (map request_of ?qs) as m'"
    "replies k' = replies k @ map (reply junk) as"
    using rhashtable.handle_all_run [OF assms(1) safe assms(2) len, of junk] by blast
  obtain a1 mid m1 m2 a2 where as: "as = [a1] @ mid @ [a2]" "kv_step m (Insert s v) a1 m1"
    "kv_run m1 (map request_of qs) mid m2" "kv_step m2 (Get s) a2 m'"
    using run(2) unfolding rs kv_run_append by (auto simp del: kv_step_simps)
  have got: "a2 = v" if "reply junk a1 = reply junk (c_str ''Inserted object to rhashtable'')"
  proof -
    have "a1 = c_str ''Inserted object to rhashtable''" using that by (simp add: reply_def)
    then have "m1 s = Some v" using as(2) answers_differ by (auto simp: eq_commute)
    moreover have "Delete s \<notin> set (map request_of qs)" using assms(7) by force
    ultimately have "m2 s = Some v" by (rule kv_run_keeps [OF as(3)])
    with as(4) show ?thesis by simp
  qed
  have "read_exactly_from_kernel (reply junk v @ z3) =
      Inr \<lparr>OP_code = KERNEL, data_bytes = of_nat (length v + HEADERSIZE), data = reply junk v\<rparr>"
    using read_exactly_from_kernel_ok [of "reply junk v @ z3" KERNEL "of_nat (length v)" junk v z3] assms(6)
    by (simp add: reply_def unat_of_nat)
  with b1 b2 run as(1) got kv_run_length [OF as(3)] show ?thesis
    by (intro exI [of _ ?b1] exI [of _ ?b2] exI [of _ k'] exI [of _ "reply junk a1"]
        exI [of _ "map (reply junk) mid"] exI [of _ "reply junk a2"]) auto
qed

theorem insert_then_get_witness:
  "\<exists>b1 b2 k' first middle final.
    PDU_to_buffer_user INSERT (S_INSERT \<lparr>INSERT_op = INSERT, INSERT_key = [75] @ 0 # [],
      INSERT_bytes = of_nat (length [86::byte]), INSERT_data = [86] @ []\<rparr>) = Inr (Some b1) \<and>
    PDU_to_buffer_user GET (S_GET \<lparr>GET_op = GET, GET_key = [75] @ 0 # []\<rparr>) = Inr (Some b2) \<and>
    handle_all list_table 0 ([b1 @ []] @ [[INIT]] @ [b2 @ []]) example_kernel = Inr k' \<and>
    replies k' = replies example_kernel @ [first] @ middle @ [final] \<and> length middle = length [[INIT]] \<and>
    (first = reply 0 (c_str ''Inserted object to rhashtable'') \<longrightarrow>
     read_exactly_from_kernel (final @ []) =
       Inr \<lparr>OP_code = KERNEL, data_bytes = of_nat (length [86::byte] + HEADERSIZE), data = reply 0 [86]\<rparr>)"
  by (rule insert_then_get [OF list_table.rhashtable_axioms example_kernel_represents])
    (simp_all add: safe_request_def request_of_def)

text \<open>
  C21. The life of the module: loaded, initialised, any sequence of safe requests, unloaded. As long as the
  worker is done with each message before the input callback returns, it runs without a fault, and
  its memory balance is exact: every message leaks three blocks (the work item, the response and
  the reply buffer are never freed) and every insertion that is turned down two more, while the
  objects of the table are all given back. \<open>recieve_data\<close> does not see to that condition: it queues the
  address of a buffer that netlink releases when the callback returns, and at any point of such a life
  a message that the worker comes to later, whatever it is, makes it read freed memory.
\<close>

theorem module_lifetime_leak:
  assumes "rhashtable ops objs" "rht_init ops = (err, t)" "0 \<le> err"
    "\<forall>q \<in> set qs. safe_request q" "5 * length qs + 4 \<le> n"
  shows "\<exists>k k' k'' as m. handle ops junk (INIT # z) (snd (init_module True True (loaded n))) = Inr k \<and>
    handle_all ops junk qs k = Inr k' \<and> kv_run Map.empty (map request_of qs) as m \<and>
    replies k' = map (reply junk) (c_str ''Initialized hashtable.'' # as) \<and>
    exit_module ops junk k' = Inr k'' \<and>
    n = kavail k'' + 3 * Suc (length qs) + 2 * sum_list (map2 rejected (map request_of qs) as) \<and>
    (\<forall>q. handle_late ops junk q k' = Inl UseAfterFree)"
proof -
  let ?k = "snd (init_module True True (loaded n)) :: 'a kernel"
  have k: "\<not> hashtable_initialized ?k" "nl_sk_send ?k" "wq ?k = []" "4 \<le> kavail ?k" "replies ?k = []" "kavail ?k = n"
    using assms(5) by (simp_all add: init_module_def loaded_def Let_def)
  obtain k1 where k1: "handle ops junk (INIT # z) ?k = Inr k1" "represents objs k1 Map.empty"
    "replies k1 = [reply junk (c_str ''Initialized hashtable.'')]" "n = kavail k1 + 3"
    using handle_init [OF assms(1-3) k(1-4), of junk z] k(5,6) by auto
  have "5 * length qs < kavail k1" using k1(4) assms(5) by simp
  from rhashtable.handle_all_run [OF assms(1,4) k1(2) this, of junk] obtain k2 as m where
    k2: "handle_all ops junk qs k1 = Inr k2" "kv_run Map.empty (map request_of qs) as m" "represents objs k2 m"
    "replies k2 = replies k1 @ map (reply junk) as"
    "kavail k1 + 2 * card (dom (Map.empty :: store)) = kavail k2 + 2 * card (dom m) + 3 * length qs +
      2 * sum_list (map2 rejected (map request_of qs) as)" "kavail k1 \<le> kavail k2 + 5 * length qs" by blast
  have "wq k2 = []" "0 < kavail k2" using k2(3,6) k1(4) assms(5) by (simp_all add: represents_def)
  note late = handle_late_faults [OF this, of ops junk]
  from exit_module_frees [OF assms(1) k2(3), of junk] k1 k2 late show ?thesis
    by (intro exI [of _ k1] exI [of _ k2] exI [of _ as] exI [of _ m] exI conjI) auto
qed

theorem module_lifetime_leak_witness:
  "\<exists>k k' k'' as m. handle list_table 0 (INIT # []) (snd (init_module True True (loaded 40))) = Inr k \<and>
    handle_all list_table 0 (map (\<lambda>r. encode r @ [7, 7]) example_requests) k = Inr k' \<and>
    kv_run Map.empty example_requests as m \<and>
    replies k' = map (reply 0) (c_str ''Initialized hashtable.'' # as) \<and>
    exit_module list_table 0 k' = Inr k'' \<and>
    (40 :: nat) = kavail k'' + 3 * Suc 4 + 2 * sum_list (map2 rejected example_requests as) \<and>
    handle_late list_table 0 [GET] k' = Inl UseAfterFree"
proof -
  have "rht_init list_table = (0, [])" "length example_requests = 4"
    by (simp_all add: list_table_def example_requests_def)
  then show ?thesis
    using module_lifetime_leak [OF list_table.rhashtable_axioms _ _ example_requests_valid(1), of 0 "[]" 40 0 "[]",
        unfolded example_requests_valid(2)]
    by simp blast
qed

text \<open>
  A request that reaches the table before the first INIT faults: the module never checks
  \<open>hashtable_initialized\<close> outside \<open>read_INIT_struct\<close>.
\<close>

theorem request_before_init:
  assumes "valid_request r" "r \<noteq> Init" "\<forall>op. r \<noteq> Unknown op" "4 \<le> n"
  shows "handle ops junk (encode r @ z) (snd (init_module True True (loaded n))) = Inl UninitTable"
proof -
  let ?k = "snd (init_module True True (loaded n)) :: 'a kernel"
  let ?q = "encode r @ z"
  have k: "wq ?k = []" "4 \<le> kavail ?k" using assms(4) by (simp_all add: init_module_def loaded_def Let_def)
  have "hd ?q \<in> {INSERT, GET, DELETE}"
    using assms(2,3) by (cases r) (simp_all add: wire_key_def wire_insert_def)
  then have "dispatch ops ?q (netlink_message ?q (?k\<lparr>kavail := kavail ?k - 2\<rparr>)) = Inl UninitTable"
    using assms(4) by (intro read_before_init valid_encode_safe [OF assms(1)])
      (simp_all add: init_module_def loaded_def Let_def)
  then show ?thesis by (rule handle_dispatch_error [OF k encode_nonempty])
qed

theorem request_before_init_witness:
  "handle list_table 0 (encode (Get [75]) @ [0]) (snd (init_module True True (loaded 9))) = Inl UninitTable"
  by (rule request_before_init) simp_all

text \<open>
  C35. Unloading with a request still on the work queue: the sockets are released and the table
  destroyed before the queue is flushed, so whatever safe request comes first runs into the
  destroyed table or answers on a released socket, whether netlink still holds its buffer or, as after every
  return of \<open>recieve_data\<close>, has released it.
\<close>

theorem exit_with_pending_request:
  assumes "represents objs k m" "safe_request q" "6 \<le> kavail k"
  shows "\<exists>e \<in> {UninitTable, UseAfterFree}.
    bind_r (recieve_data 0 (netlink_message q k)) (\<lambda>k. exit_module ops junk (if released then netlink_release k else k)) = Inl e"
proof (cases released)
  case True
  from assms(1) obtain t where t: "ht k = Some t" "hashtable_initialized k" "wq k = []" by (rule representsE)
  have "bind_r (recieve_data 0 (netlink_message q k)) (\<lambda>k. exit_module ops junk (netlink_release k)) = Inl UseAfterFree"
    using assms(3) t
    by (simp add: recieve_data_def kmalloc_def netlink_message_def netlink_release_def exit_module_def table_def
        fold_free_ht_objects flush_workqueue_def work_handler_def)
  with True show ?thesis by simp
next
  case False
  let ?k = "(netlink_message q k)\<lparr>kavail := kavail k - 1, wq := wq k @ [0]\<rparr>"
  from assms(1) obtain t where "ht k = Some t" "hashtable_initialized k" "wq k = []" by (rule representsE)
  then have "hashtable_initialized ?k" "ht ?k = Some t" "wq ?k = 0 # []" "skbs ?k 0 = Some q" "5 \<le> kavail ?k"
    using assms(3) by simp_all
  from exit_module_pending [OF this(1-4) assms(2) this(5), of ops junk] assms(3) False show ?thesis
    by (simp add: recieve_data_def kmalloc_def)
qed

theorem exit_with_pending_request_witness:
  "\<exists>e \<in> {UninitTable, UseAfterFree}.
    bind_r (recieve_data 0 (netlink_message [INIT] example_kernel)) (\<lambda>k. exit_module list_table 0 k) = Inl e"
  using exit_with_pending_request [OF example_kernel_represents, of "[INIT]" list_table 0 False] by (simp add: safe_request_def)

end
