(* ===== verification/PduProps.thy ===== *)
theory PduProps
  imports KernelProps
begin

text \<open>
  What the encoders of PDU_user.c promise: the buffers the kernel module decodes to the same
  request, and their behaviour on every possible 64-byte key array.
\<close>

section \<open>The structs of a request\<close>

text \<open>The operation code and struct a caller fills in for \<open>r\<close>; \<open>p\<close> and \<open>d\<close> are whatever lies
  behind the key string and the data.\<close>

fun struct_of :: "request \<Rightarrow> byte list \<Rightarrow> byte list \<Rightarrow> u8 \<times> user_struct" where
  "struct_of Init p d = (INIT, S_INIT \<lparr>INIT_op = INIT\<rparr>)"
| "struct_of (Insert s v) p d = (INSERT, S_INSERT \<lparr>INSERT_op = INSERT, INSERT_key = s @ 0 # p,
     INSERT_bytes = of_nat (length v), INSERT_data = v @ d\<rparr>)"
| "struct_of (Get s) p d = (GET, S_GET \<lparr>GET_op = GET, GET_key = s @ 0 # p\<rparr>)"
| "struct_of (Delete s) p d = (DELETE, S_DELETE \<lparr>DELETE_op = DELETE, DELETE_key = s @ 0 # p\<rparr>)"
| "struct_of (Unknown op) p d = (op, S_INIT \<lparr>INIT_op = op\<rparr>)"

section \<open>Properties of the encoders\<close>

text \<open>A buffer stands for the request that was put into it, whatever bytes follow it.\<close>

lemma encoded_request:
  assumes "valid_request r"
  shows "case struct_of r p d of (op, st) \<Rightarrow>
    (case r of
       Unknown op' \<Rightarrow> PDU_to_buffer_user op st = Inr None
     | _ \<Rightarrow> \<exists>q. PDU_to_buffer_user op st = Inr (Some q) \<and> safe_request (q @ z) \<and> request_of (q @ z) = r)"
proof (cases r)
  case Init
  have "PDU_to_buffer_user INIT (S_INIT \<lparr>INIT_op = INIT\<rparr>) = Inr (Some (encode Init))"
    by (simp add: PDU_to_buffer_user_def create_INIT_buffer_def eval_nat_numeral)
  with Init valid_encode_safe [OF assms, of z] valid_encode_request_of [OF assms, of z]
  show ?thesis by (auto simp del: encode.simps)
next
  case (Insert s v)
  with assms create_INSERT_buffer_ok [of s "of_nat (length v)" v p d]
    valid_encode_safe [OF assms, of z] valid_encode_request_of [OF assms, of z]
  show ?thesis by (simp add: PDU_to_buffer_user_def unat_of_nat)
next
  case (Get s)
  with assms create_GET_buffer_ok [of s GET p] valid_encode_safe [OF assms, of z] valid_encode_request_of [OF assms, of z]
  show ?thesis by (simp add: PDU_to_buffer_user_def)
next
  case (Delete s)
  with assms create_DELETE_buffer_ok [of s DELETE p] valid_encode_safe [OF assms, of z] valid_encode_request_of [OF assms, of z]
  show ?thesis by (simp add: PDU_to_buffer_user_def)
next
  case (Unknown op)
  with assms show ?thesis by (simp add: PDU_to_buffer_user_def)
qed

text \<open>
  C14. The encoders of user space and the handlers of the kernel module fit together: for every request
  whose key is a terminated string of at most 63 bytes and whose value has at most 65535,
  \<open>PDU_to_buffer_user\<close> builds a message that \<open>read_exactly_from_user\<close>, with
  \<open>read_INIT_struct\<close>, \<open>read_INSERT_struct\<close>, \<open>read_GET_struct\<close> and \<open>read_DELETE_struct\<close> behind it, carries out and
  answers as the abstract store does that request, whatever bytes follow the message and for every table that meets
  the contract, three blocks of memory being left; an operation code that \<open>PDU_to_buffer_user\<close> does not know gives a null result.
\<close>

theorem encoded_request_served:
  assumes "rhashtable ops objs" "represents objs k m" "3 \<le> kavail k" "valid_request r"
  shows "case struct_of r p d of (op, st) \<Rightarrow>
    (case r of
       Unknown op' \<Rightarrow> PDU_to_buffer_user op st = Inr None
     | _ \<Rightarrow> \<exists>q response k' a m'. PDU_to_buffer_user op st = Inr (Some q) \<and>
         read_exactly_from_user ops (q @ z) k = Inr (Some response, k') \<and> carries response a \<and>
         kv_step m r a m' \<and> represents objs k' m' \<and> replies k' = replies k)"
proof -
  have served: "\<exists>response k' a m'. read_exactly_from_user ops (q @ z) k = Inr (Some response, k') \<and> carries response a \<and>
      kv_step m r a m' \<and> represents objs k' m' \<and> replies k' = replies k"
    if "safe_request (q @ z)" "request_of (q @ z) = r" for q
    using rhashtable.read_exactly_serves [OF assms(1) that(1) assms(2,3)] unfolding that(2) by blast
  obtain op st where s: "struct_of r p d = (op, st)" by fastforce
  note enc = encoded_request [OF assms(4), where p = p and d = d and z = z, unfolded s prod.case]
  show ?thesis
  proof (cases "\<exists>op'. r = Unknown op'")
    case True
    with enc s show ?thesis by auto
  next
    case False
    with enc obtain q where q: "PDU_to_buffer_user op st = Inr (Some q)" "safe_request (q @ z)" "request_of (q @ z) = r"
      by (cases r) auto
    with served have "\<exists>q response k' a m'. PDU_to_buffer_user op st = Inr (Some q) \<and>
        read_exactly_from_user ops (q @ z) k = Inr (Some response, k') \<and> carries response a \<and>
        kv_step m r a m' \<and> represents objs k' m' \<and> replies k' = replies k" by blast
    with False s show ?thesis by (cases r) (simp_all del: kv_step_simps)
  qed
qed

text \<open>A GET of the key ''K'', followed by a byte 1, on an empty table.\<close>

theorem encoded_request_served_witness:
  "\<exists>q response k' a. PDU_to_buffer_user GET (S_GET \<lparr>GET_op = GET, GET_key = [75] @ 0 # [9]\<rparr>) = Inr (Some q) \<and>
     read_exactly_from_user list_table (q @ [1]) example_kernel = Inr (Some response, k') \<and> carries response a \<and>
     a = c_str ''Error when getting object.''"
  using encoded_request_served [OF list_table.rhashtable_axioms example_kernel_represents, where r = "Get [75]" and p = "[9]" and d = "[]" and z = "[1]"]
  by (simp split del: if_split) blast

text \<open>
  The encoders on every content of a \<open>char key[KEY_SIZE]\<close>: with a NUL among the 64 bytes the
  buffer carries the string before it; without one they read past the array.
\<close>

theorem encoders_on_any_key:
  assumes "length key = KEY_SIZE" "unat n \<le> length v"
  shows "create_GET_buffer \<lparr>GET_op = op, GET_key = key\<rparr> =
      (if 0 \<in> set key then Inr (wire_key GET (upto_nul key)) else Inl OutOfBoundsRead) \<and>
    create_DELETE_buffer \<lparr>DELETE_op = op, DELETE_key = key\<rparr> =
      (if 0 \<in> set key then Inr (wire_key DELETE (upto_nul key)) else Inl OutOfBoundsRead) \<and>
    create_INSERT_buffer \<lparr>INSERT_op = INSERT, INSERT_key = key, INSERT_bytes = n, INSERT_data = v\<rparr> =
      (if 0 \<in> set key then Inr (wire_insert (upto_nul key) (take (unat n) v)) else Inl OutOfBoundsRead)"
proof -
  show ?thesis
  proof (cases "0 \<in> set key")
    case True
    then obtain s r where key: "key = s @ 0 # r" "nul_free s" by (rule split_at_nul)
    then have l: "length s < KEY_SIZE" using assms(1) by simp
    have u: "unat n = length (take (unat n) v)" using assms(2) by simp
    have s: "upto_nul key = s" using key by simp
    from create_INSERT_buffer_ok [OF key(2) l u, of r "drop (unat n) v"]
      create_GET_buffer_ok [OF key(2) l, of op r] create_DELETE_buffer_ok [OF key(2) l, of op r]
    show ?thesis unfolding append_take_drop_id s key(1) [symmetric] using True by simp
  next
    case False
    then show ?thesis using create_buffer_unterminated [of key] by (simp add: nul_free_def)
  qed
qed

theorem encoders_on_any_key_witness:
  "create_GET_buffer \<lparr>GET_op = GET, GET_key = replicate 64 65\<rparr> = Inl OutOfBoundsRead"
  using encoders_on_any_key [of "replicate 64 65" 0 "[]" GET] by simp

end
