(* ===== verification/Store.thy ===== *)
theory Store
  imports KernelSpec
begin

text \<open>
  Persistence in OU4/User/server.c: \<open>store_data\<close> keeps the text file \<open>stored_values.txt\<close> in
  step with the answers of the kernel module, \<open>load_stored_values\<close> (Server) sends its lines
  back to the module when the server starts, each as the struct that \<open>line_struct\<close> reads from it. A file is its bytes; \<open>getline\<close>, \<open>strtok\<close> with the separator
  \<open>:\<close>, \<open>strncpy\<close> and \<open>fprintf(f, "%s", s)\<close> are functions on byte lists. Both files can always
  be opened.
\<close>

section \<open>Text files\<close>

abbreviation colon :: byte where "colon \<equiv> 58"
abbreviation newline :: byte where "newline \<equiv> 10"

text \<open>The lines \<open>getline\<close> returns one after the other, each with its newline.\<close>

fun getlines :: "byte list \<Rightarrow> byte list list" where
  "getlines [] = []"
| "getlines (b # f) =
     (if b = newline then [newline] # getlines f
      else case getlines f of [] \<Rightarrow> [[b]] | l # ls \<Rightarrow> (b # l) # ls)"

text \<open>
  One call of \<open>strtok\<close> with the separator \<open>:\<close> on memory that starts at \<open>mem\<close>: the token and the
  memory behind it, \<open>None\<close> when only separators are left before the NUL. Running out of the
  block before a NUL or a separator is an error.
\<close>

fun token_end :: "byte list \<Rightarrow> (byte list \<times> byte list) res" where
  "token_end [] = Inl OutOfBoundsRead"
| "token_end (b # mem) =
     (if b = 0 then Inr ([], [0]) else if b = colon then Inr ([], mem)
      else bind_r (token_end mem) (\<lambda>(t, r). Inr (b # t, r)))"

fun c_strtok :: "byte list \<Rightarrow> (byte list \<times> byte list) option res" where
  "c_strtok [] = Inl OutOfBoundsRead"
| "c_strtok (b # mem) =
     (if b = 0 then Inr None else if b = colon then c_strtok mem
      else bind_r (token_end (b # mem)) (\<lambda>tr. Inr (Some tr)))"

text \<open>\<open>strncpy\<close> of a string into the first \<open>n\<close> bytes of a zeroed array of \<open>n\<close> bytes.\<close>

definition c_strncpy :: "byte list \<Rightarrow> nat \<Rightarrow> byte list" where
  "c_strncpy s n = take n s @ replicate (n - length s) 0"

section \<open>Storing\<close>

text \<open>The entry \<open>fprintf(srcFile, "%s:%s\n", key, mess)\<close> writes.\<close>

definition file_entry :: "byte list \<Rightarrow> byte list \<Rightarrow> byte list" where
  "file_entry key mess = upto_nul key @ [colon] @ upto_nul mess @ [newline]"

definition store_INSERT :: "byte list \<Rightarrow> byte list \<Rightarrow> nat \<Rightarrow> byte list \<Rightarrow> byte list res" where
  "store_INSERT key send_data mess_len srcFile =
     (if mess_len = 0 then Inl BadSize
      else bind_r (c_advance send_data KEY_SIZE) (\<lambda>send_data.
           bind_r (c_read send_data 0 mess_len) (\<lambda>mess.
           bind_r (c_write mess (mess_len - 1) [0]) (\<lambda>mess.
           Inr (srcFile @ file_entry key mess)))))"

text \<open>
  The lines that are copied to the temporary file: \<open>copy\<close> holds the \<open>read\<close> bytes of the line
  without a terminating NUL.
\<close>

fun keep_lines :: "byte list \<Rightarrow> byte list list \<Rightarrow> byte list res" where
  "keep_lines key [] = Inr []"
| "keep_lines key (line # ls) =
     bind_r (c_strtok (c_strncpy (upto_nul line) (length line))) (\<lambda>pt.
     case pt of
       None \<Rightarrow> Inl NullDeref
     | Some (tok, rest) \<Rightarrow>
         bind_r (c_strcmp (tok @ [0]) key) (\<lambda>d.
         bind_r (keep_lines key ls) (\<lambda>tempFile.
         Inr ((if d \<noteq> 0 then upto_nul line else []) @ tempFile))))"

definition store_DELETE :: "byte list \<Rightarrow> byte list \<Rightarrow> byte list res" where
  "store_DELETE key srcFile =
     bind_r (keep_lines key (getlines srcFile)) (\<lambda>tempFile.
     Inr (concat (map upto_nul (getlines tempFile))))"

text \<open>The new contents of the store file; \<open>send\<close> and \<open>receive\<close> are the blocks \<open>data\<close> points to.\<close>

definition store_data :: "byte list \<Rightarrow> byte list \<Rightarrow> byte list \<Rightarrow> byte list res" where
  "store_data send receive srcFile =
     bind_r (c_advance receive HEADERSIZE) (\<lambda>recieve_data.
     bind_r (c_strncmp recieve_data (c_str ''Error'') 5) (\<lambda>d.
     if d = 0 then Inr srcFile
     else
       bind_r (c_read send 0 1) (\<lambda>OP_code.
       bind_r (c_advance send 1) (\<lambda>send_data.
       bind_r (c_read send_data 0 2) (\<lambda>mess_len.
       bind_r (c_advance send_data 3) (\<lambda>send_data.
       bind_r (copy_key send_data) (\<lambda>key.
       if OP_code = [INSERT] then store_INSERT key send_data (unat (un_le16 mess_len)) srcFile
       else if OP_code = [DELETE] then store_DELETE key srcFile
       else Inr srcFile)))))))"

section \<open>Loading\<close>

text \<open>
  The netlink payload: the message is copied to the start of \<open>NLMSG_DATA\<close>, and \<open>sendmsg\<close> always
  sends the whole buffer of \<open>MAX_PAYLOAD\<close> bytes, the end of the previous message included.
\<close>

definition nlmsg_put :: "byte list \<Rightarrow> byte list \<Rightarrow> nat \<Rightarrow> byte list res" where
  "nlmsg_put nlmsg d n = bind_r (c_read d 0 n) (\<lambda>d. c_write nlmsg 0 d)"

text \<open>The INSERT struct \<open>load_stored_values\<close> fills in from a line.\<close>

definition line_struct :: "byte list \<Rightarrow> INSERT_struct res" where
  "line_struct line =
     bind_r (c_strtok line) (\<lambda>token.
     case token of
       None \<Rightarrow> Inr \<lparr>INSERT_op = INSERT, INSERT_key = replicate KEY_SIZE 0, INSERT_bytes = 0, INSERT_data = []\<rparr>
     | Some (token, rest) \<Rightarrow>
         let key = c_strncpy token KEY_SIZE
         in bind_r (c_strtok rest) (\<lambda>token.
            case token of
              None \<Rightarrow> Inr \<lparr>INSERT_op = INSERT, INSERT_key = key, INSERT_bytes = 0, INSERT_data = []\<rparr>
            | Some (token, rest) \<Rightarrow>
                let n = of_nat (length token + 1) :: u16
                in Inr \<lparr>INSERT_op = INSERT, INSERT_key = key, INSERT_bytes = n,
                        INSERT_data = c_strncpy token (unat n)\<rparr>))"

end
