(* ===== verification/StoreProps.thy ===== *)
theory StoreProps
  imports Store KernelProps
begin

text \<open>
  The store file against the abstract store: it mirrors the table through every request as long
  as keys and values are plain text, what the next start of the server makes of it, and the
  keys and values with which the file and the table part.
\<close>

section \<open>Plain text\<close>

definition plain :: "byte list \<Rightarrow> bool" where
  "plain s \<longleftrightarrow> nul_free s \<and> colon \<notin> set s \<and> newline \<notin> set s"

text \<open>What a line may hold behind its first colon.\<close>

definition line_text :: "byte list \<Rightarrow> bool" where
  "line_text s \<longleftrightarrow> nul_free s \<and> newline \<notin> set s"

lemma plain_line_text [simp]: "plain s \<Longrightarrow> line_text s"
  by (simp add: plain_def line_text_def)

definition key_text :: "byte list \<Rightarrow> bool" where
  "key_text s \<longleftrightarrow> plain s \<and> s \<noteq> [] \<and> length s < KEY_SIZE"

lemma plain_nul_free: "plain s \<Longrightarrow> nul_free s"
  by (simp add: plain_def)

fun file_of :: "(byte list \<times> byte list) list \<Rightarrow> byte list" where
  "file_of [] = []"
| "file_of ((k, v) # es) = (k @ [colon] @ v @ [newline]) @ file_of es"

lemma file_of_append: "file_of (es @ es') = file_of es @ file_of es'"
  by (induction es rule: file_of.induct) simp_all

lemma getlines_line: "newline \<notin> set l \<Longrightarrow> getlines (l @ newline # f) = (l @ [newline]) # getlines f"
  by (induction l) auto

lemma getlines_file_of:
  "\<forall>(k, v) \<in> set es. plain k \<and> line_text v \<Longrightarrow>
   getlines (file_of es) = map (\<lambda>(k, v). k @ [colon] @ v @ [newline]) es"
proof (induction es rule: file_of.induct)
  case (2 k v es)
  then have "newline \<notin> set (k @ [colon] @ v)" by (auto simp: plain_def line_text_def)
  from getlines_line [OF this, of "file_of es"] 2 show ?case by simp
qed simp

lemma token_end_colon: "nul_free t \<Longrightarrow> colon \<notin> set t \<Longrightarrow> token_end (t @ colon # r) = Inr (t, r)"
  by (induction t) auto

lemma token_end_nul: "nul_free t \<Longrightarrow> colon \<notin> set t \<Longrightarrow> token_end (t @ 0 # r) = Inr (t, [0])"
  by (induction t) auto

lemma strtok_colon:
  assumes "nul_free t" "colon \<notin> set t" "t \<noteq> []"
  shows "c_strtok (t @ colon # r) = Inr (Some (t, r))"
proof -
  obtain b t' where "t = b # t'" using assms(3) by (cases t) auto
  with assms token_end_colon [OF assms(1,2)] show ?thesis by auto
qed

lemma strtok_nul:
  assumes "nul_free t" "colon \<notin> set t" "t \<noteq> []"
  shows "c_strtok (t @ 0 # r) = Inr (Some (t, [0]))"
proof -
  obtain b t' where "t = b # t'" using assms(3) by (cases t) auto
  with assms token_end_nul [OF assms(1,2)] show ?thesis by auto
qed

lemma strcmp_key:
  assumes "nul_free k" "nul_free s" "length s \<le> KEY_SIZE"
  shows "\<exists>d. c_strcmp (k @ [0]) (pad (KEY_SIZE + 1) s) = Inr d \<and> (d = 0 \<longleftrightarrow> k = s)"
proof -
  have "KEY_SIZE + 1 - length s = Suc (KEY_SIZE - length s)" using assms(3) by simp
  then have "pad (KEY_SIZE + 1) s = s @ 0 # replicate (KEY_SIZE - length s) 0"
    unfolding pad_def by (simp only: replicate_Suc)
  with c_strcmp_strings [OF assms(1,2)] show ?thesis by simp
qed

section \<open>Deleting from the file\<close>

lemma entry_line:
  assumes "plain k" "line_text v"
  shows "upto_nul (k @ [colon] @ v @ [newline]) = k @ [colon] @ v @ [newline]"
    "c_strncpy (k @ [colon] @ v @ [newline]) (length (k @ [colon] @ v @ [newline])) = k @ colon # v @ [newline]"
  using assms by (simp_all add: upto_nul_id plain_def line_text_def c_strncpy_def)

lemma keep_lines_file:
  assumes "nul_free s" "length s \<le> KEY_SIZE"
    "\<forall>(k, v) \<in> set es. plain k \<and> line_text v \<and> k \<noteq> []"
  shows "keep_lines (pad (KEY_SIZE + 1) s) (map (\<lambda>(k, v). k @ [colon] @ v @ [newline]) es) =
    Inr (file_of (filter (\<lambda>(k, v). k \<noteq> s) es))"
  using assms(3)
proof (induction es rule: file_of.induct)
  case (2 k v es)
  have p: "plain k" "line_text v" "k \<noteq> []" using "2.prems" by auto
  obtain d where d: "c_strcmp (k @ [0]) (pad (KEY_SIZE + 1) s) = Inr d" "d = 0 \<longleftrightarrow> k = s"
    using strcmp_key [OF plain_nul_free [OF p(1)] assms(1,2)] by blast
  have "c_strtok (k @ colon # v @ [newline]) = Inr (Some (k, v @ [newline]))"
    using p by (intro strtok_colon) (auto simp: plain_def line_text_def)
  with 2 d show ?case
    unfolding list.map keep_lines.simps prod.case entry_line [OF p(1,2)] by auto
qed simp

lemma concat_lines_file_of:
  "\<forall>(k, v) \<in> set es. plain k \<and> line_text v \<Longrightarrow> concat (map upto_nul (getlines (file_of es))) = file_of es"
proof (induction es rule: file_of.induct)
  case (2 k v es)
  then have p: "plain k" "line_text v" by auto
  have "newline \<notin> set (k @ [colon] @ v)" using p by (auto simp: plain_def line_text_def)
  from getlines_line [OF this, of "file_of es"] 2 entry_line(1) [OF p] show ?case by simp
qed simp

lemma store_DELETE_file:
  assumes "nul_free s" "length s \<le> KEY_SIZE" "\<forall>(k, v) \<in> set es. plain k \<and> line_text v \<and> k \<noteq> []"
  shows "store_DELETE (pad (KEY_SIZE + 1) s) (file_of es) = Inr (file_of (filter (\<lambda>(k, v). k \<noteq> s) es))"
proof -
  have g: "getlines (file_of es) = map (\<lambda>(k, v). k @ [colon] @ v @ [newline]) es"
    using assms(3) by (intro getlines_file_of) auto
  have f: "\<forall>(k, v) \<in> set (filter (\<lambda>(k, v). k \<noteq> s) es). plain k \<and> line_text v" using assms(3) by auto
  show ?thesis
    unfolding store_DELETE_def g keep_lines_file [OF assms] bind_r_Inr concat_lines_file_of [OF f] ..
qed

section \<open>Storing an answer\<close>

lemma strncmp_total:
  "0 \<in> set s \<or> n \<le> length s \<Longrightarrow> n \<le> length t \<Longrightarrow> \<exists>d. c_strncmp s t n = Inr d"
  by (induction s t n rule: c_strncmp.induct) auto

lemma five: "(5 :: nat) = Suc (Suc (Suc (Suc (Suc 0))))"
  by simp

lemma strncmp_error:
  "c_strncmp (c_str ''Error, duplicated key.'') (c_str ''Error'') 5 = Inr 0"
  "c_strncmp (c_str ''Error when insert to rhashtable.'') (c_str ''Error'') 5 = Inr 0"
  "c_strncmp (c_str ''Error when getting object.'') (c_str ''Error'') 5 = Inr 0"
  unfolding five c_str_def by simp_all

lemma strncmp_success:
  "c_strncmp (c_str ''Inserted object to rhashtable'') (c_str ''Error'') 5 = Inr 4"
  "c_strncmp (c_str ''Successful deleting object from rhashtable.'') (c_str ''Error'') 5 = Inr 14"
  unfolding five c_str_def by simp_all

lemma drop_reply: "c_advance (reply junk a) HEADERSIZE = Inr a"
  by (simp add: reply_def le16_def)

lemma store_error:
  "c_strncmp a (c_str ''Error'') 5 = Inr 0 \<Longrightarrow> store_data send (reply junk a) f = Inr f"
  by (simp only: store_data_def drop_reply bind_r_Inr) simp

lemma copy_key_wire:
  assumes "nul_free s" "length s < KEY_SIZE"
  shows "copy_key (pad KEY_SIZE s @ r) = Inr (pad (KEY_SIZE + 1) s)"
  using assms upto_nul_padded [OF assms] zero_in_padded [OF assms(2)]
  by (simp only: copy_key_eq) simp

text \<open>Any message whose key field holds the string \<open>s\<close>, and any answer that is no error.\<close>

lemma store_data_message:
  assumes "c_strncmp a (c_str ''Error'') 5 = Inr d" "d \<noteq> 0" "nul_free s" "length s < KEY_SIZE"
  shows "store_data (op # le16 n @ [x] @ pad KEY_SIZE s @ v) (reply junk a) f =
    (if op = INSERT then store_INSERT (pad (KEY_SIZE + 1) s) (pad KEY_SIZE s @ v) (unat n) f
     else if op = DELETE then store_DELETE (pad (KEY_SIZE + 1) s) f else Inr f)"
proof -
  let ?t = "le16 n @ [x] @ pad KEY_SIZE s @ v"
  have a0: "c_read (op # ?t) 0 1 = Inr [op]" "c_advance (op # ?t) 1 = Inr ?t" by simp_all
  have r: "c_read ?t 0 2 = Inr (le16 n)" using c_read_field [of 0 "[]" 2 "le16 n"] by simp
  have a: "c_advance ?t 3 = Inr (pad KEY_SIZE s @ v)" by (simp add: le16_def)
  show ?thesis using assms(2)
    unfolding store_data_def drop_reply bind_r_Inr assms(1) a0 r a copy_key_wire [OF assms(3,4)] un_le16_le16
    by simp
qed

lemma store_INSERT_text:
  assumes "nul_free s" "length s < KEY_SIZE" "nul_free t"
  shows "store_INSERT (pad (KEY_SIZE + 1) s) (pad KEY_SIZE s @ t @ 0 # z) (length t + 1) f =
    Inr (f @ s @ [colon] @ t @ [newline])"
  using assms by (simp add: store_INSERT_def file_entry_def upto_nul_id)

section \<open>The file mirrors the store\<close>

definition mirrors :: "byte list \<Rightarrow> store \<Rightarrow> bool" where
  "mirrors f m \<longleftrightarrow> (\<exists>es. f = file_of es \<and> distinct (map fst es) \<and>
     (\<forall>(k, v) \<in> set es. key_text k \<and> plain v) \<and> m = map_of (map (\<lambda>(k, v). (k, v @ [0])) es))"

text \<open>Requests about text: the value is a NUL-terminated string.\<close>

fun text_request :: "request \<Rightarrow> bool" where
  "text_request (Insert s w) \<longleftrightarrow> key_text s \<and> w \<noteq> [] \<and> last w = 0 \<and> plain (butlast w) \<and> length w < 2 ^ 16"
| "text_request (Get s) \<longleftrightarrow> key_text s"
| "text_request (Delete s) \<longleftrightarrow> key_text s"
| "text_request r \<longleftrightarrow> False"

lemma mirrors_value: "mirrors f m \<Longrightarrow> m s = Some w \<Longrightarrow> 0 \<in> set w"
  by (auto simp: mirrors_def dest!: map_of_SomeD)

lemma map_of_text: "map_of (map (\<lambda>(k, v). (k, v @ [0])) es) s = map_option (\<lambda>v. v @ [0]) (map_of es s)"
  by (induction es) auto

lemma mirrors_insert:
  assumes "mirrors f m" "m s = None" "key_text s" "plain t"
  shows "mirrors (f @ s @ [colon] @ t @ [newline]) (m(s \<mapsto> t @ [0]))"
proof -
  from assms(1) obtain es where es: "f = file_of es" "distinct (map fst es)"
    "\<forall>(k, v) \<in> set es. key_text k \<and> plain v" "m = map_of (map (\<lambda>(k, v). (k, v @ [0])) es)"
    by (auto simp: mirrors_def)
  have mn: "map_of es s = None" using assms(2) by (simp add: es(4) map_of_text)
  have n: "s \<notin> fst ` set es" using mn by (simp add: map_of_eq_None_iff)
  then have "map_of (map (\<lambda>(k, v). (k, v @ [0])) (es @ [(s, t)])) = m(s \<mapsto> t @ [0])"
    using mn by (auto simp: es(4) map_of_text map_add_def fun_eq_iff split: option.splits)
  moreover have "f @ s @ [colon] @ t @ [newline] = file_of (es @ [(s, t)])"
    by (simp add: es(1) file_of_append)
  ultimately show ?thesis unfolding mirrors_def
    using es(2,3) n assms(3,4) by (intro exI [of _ "es @ [(s, t)]"]) auto
qed

lemma mirrors_delete:
  assumes "mirrors f m" "key_text s"
  shows "\<exists>f'. store_DELETE (pad (KEY_SIZE + 1) s) f = Inr f' \<and> mirrors f' (m(s := None))"
proof -
  from assms(1) obtain es where es: "f = file_of es" "distinct (map fst es)"
    "\<forall>(k, v) \<in> set es. key_text k \<and> plain v" "m = map_of (map (\<lambda>(k, v). (k, v @ [0])) es)"
    by (auto simp: mirrors_def)
  let ?es = "filter (\<lambda>(k, v). k \<noteq> s) es"
  have "store_DELETE (pad (KEY_SIZE + 1) s) f = Inr (file_of ?es)"
    unfolding es(1) using es(3) assms(2) by (intro store_DELETE_file) (auto simp: key_text_def plain_def)
  moreover have "map_of ?es = (map_of es)(s := None)"
    by (induction es) auto
  then have "m(s := None) = map_of (map (\<lambda>(k, v). (k, v @ [0])) ?es)"
    by (simp add: es(4) map_of_text fun_eq_iff)
  moreover have "distinct (map fst ?es)" using es(2) by (simp add: distinct_map_filter)
  ultimately show ?thesis unfolding mirrors_def using es(3) by (intro exI conjI) auto
qed

lemma wire_key_fields: "wire_key op s = op # le16 0 @ [0] @ pad KEY_SIZE s @ []"
  by (simp add: wire_key_def le16_def numeral_3_eq_3)

lemma key_textD: "key_text s \<Longrightarrow> nul_free s" "key_text s \<Longrightarrow> length s < KEY_SIZE"
  by (simp_all add: key_text_def plain_def)

lemma store_step_mirrors:
  assumes f: "mirrors f m" and step: "kv_step m r a m'" and tx: "text_request r"
  shows "\<exists>f'. store_data (encode r @ z) (reply junk a) f = Inr f' \<and> mirrors f' m'"
  using step
proof (cases rule: kv_step.cases)
  case (insert_new s w)
  then have t: "key_text s" "length w < 2 ^ 16" using tx by auto
  have "w \<noteq> []" "last w = 0" "plain (butlast w)" using tx insert_new by auto
  then obtain u where u: "w = u @ [0]" "plain u" using append_butlast_last_id [of w] by metis
  let ?n = "of_nat (length w) :: u16"
  have n: "unat ?n = length u + 1" using t(2) by (simp only: unat_of_nat u) simp
  have e: "encode r @ z = INSERT # le16 ?n @ [0] @ pad KEY_SIZE s @ u @ 0 # z"
    using insert_new(1) by (simp add: wire_insert_def u)
  have d: "(4 :: int) \<noteq> 0" by simp
  have "store_data (encode r @ z) (reply junk a) f = Inr (f @ s @ [colon] @ u @ [newline])"
    unfolding e insert_new(2) store_data_message [OF strncmp_success(1) d key_textD [OF t(1)]] n
    using store_INSERT_text [OF key_textD [OF t(1)] plain_nul_free [OF u(2)], of z f] by simp
  with mirrors_insert [OF f insert_new(4) t(1) u(2)] insert_new(3) u show ?thesis by auto
next
  case (get_present s)
  then have t: "key_text s" using tx by simp
  have "0 \<in> set a" using mirrors_value [OF f] get_present by simp
  then obtain d where d: "c_strncmp a (c_str ''Error'') 5 = Inr d" using strncmp_total [of a 5 "c_str ''Error''"] by auto
  have "store_data (encode r @ z) (reply junk a) f = Inr f"
  proof (cases "d = 0")
    case True
    with d get_present show ?thesis by (simp add: store_error)
  next
    case False
    from store_data_message [OF d False key_textD [OF t], of GET 0 0 z junk f] get_present show ?thesis
      by (simp add: wire_key_fields)
  qed
  with f get_present show ?thesis by simp
next
  case (delete_present s v)
  then have t: "key_text s" using tx by simp
  obtain f' where f': "store_DELETE (pad (KEY_SIZE + 1) s) f = Inr f'" "mirrors f' (m(s := None))"
    using mirrors_delete [OF f t] by blast
  from store_data_message [OF strncmp_success(2) _ key_textD [OF t], of DELETE 0 0 z junk f] f' delete_present
  show ?thesis by (simp add: wire_key_fields)
qed (use f tx in \<open>auto simp: store_error strncmp_error\<close>)

section \<open>A line without a colon\<close>

lemma getlines_last_line:
  assumes "line_text w" "\<forall>(k, v) \<in> set es. plain k \<and> line_text v"
  shows "getlines (file_of es @ w @ [newline]) = getlines (file_of es) @ [w @ [newline]]"
  using assms(2)
proof (induction es rule: file_of.induct)
  case 1
  then show ?case using getlines_line [of w "[]"] assms(1) by (simp add: line_text_def)
next
  case (2 k v es)
  then have "newline \<notin> set (k @ [colon] @ v)" by (auto simp: plain_def line_text_def)
  note l = getlines_line [OF this]
  show ?case using l [of "file_of es @ w @ [newline]"] l [of "file_of es"] 2 by simp
qed

lemma strtok_open_line:
  assumes "line_text w" "colon \<notin> set w"
  shows "c_strtok (c_strncpy (upto_nul (w @ [newline])) (length (w @ [newline]))) = Inl OutOfBoundsRead"
proof -
  have "token_end (xs @ [newline]) = Inl OutOfBoundsRead" if "nul_free xs" "colon \<notin> set xs" for xs
    using that by (induction xs) auto
  from this [of w] this [of "tl w"] assms show ?thesis
    by (cases w) (auto simp: c_strncpy_def upto_nul_id line_text_def)
qed

lemma keep_lines_open_line:
  assumes "keep_lines key ls = Inr x" "line_text w" "colon \<notin> set w"
  shows "keep_lines key (ls @ [w @ [newline]]) = Inl OutOfBoundsRead"
  using assms(1)
proof (induction ls arbitrary: x)
  case Nil
  then show ?case using strtok_open_line [OF assms(2,3)] by simp
next
  case (Cons line ls)
  then show ?case by (auto simp: bind_r_eq_Inr split: option.splits)
qed

lemma store_DELETE_open_line:
  assumes "\<forall>(k, v) \<in> set es. plain k \<and> line_text v \<and> k \<noteq> []" "nul_free s" "length s < KEY_SIZE"
    "line_text w" "colon \<notin> set w"
  shows "store_DELETE (pad (KEY_SIZE + 1) s) (file_of es @ w @ [newline]) = Inl OutOfBoundsRead"
proof -
  have es: "\<forall>(k, v) \<in> set es. plain k \<and> line_text v" using assms(1) by auto
  have "keep_lines (pad (KEY_SIZE + 1) s) (getlines (file_of es)) = Inr (file_of (filter (\<lambda>(k, v). k \<noteq> s) es))"
    unfolding getlines_file_of [OF es] using assms(1-3) by (intro keep_lines_file) auto
  from keep_lines_open_line [OF this assms(4,5)] show ?thesis
    by (simp only: store_DELETE_def getlines_last_line [OF assms(4) es] bind_r_Inl)
qed

section \<open>Properties of the store file\<close>

text \<open>
  C5. For requests about plain text the store file mirrors the table. Plain text means: the key is a
  non-empty string of at most 63 bytes, the value of an insertion a string with its terminating NUL, at most 65535 bytes
  together, and there is no colon and no newline in either. If the file holds exactly the pairs of a store
  of such texts, then after such a request and the answer the store gives, \<open>store_data\<close> returns
  without a fault, whatever follows the message in its block, and the file holds exactly the pairs of the new store.
  Without these conditions it does not: see \<open>colon_key_survives_delete\<close> and \<open>newline_value_breaks_delete\<close>.
\<close>

theorem store_file_mirrors_table:
  assumes "mirrors f m" "kv_step m r a m'" "text_request r"
  shows "\<exists>f'. store_data (encode r @ z) (reply junk a) f = Inr f' \<and> mirrors f' m'"
  using assms by (rule store_step_mirrors)

theorem store_file_mirrors_table_witness:
  "\<exists>f'. store_data (encode (Insert [75] [86, 0]) @ [0]) (reply 0 (c_str ''Inserted object to rhashtable'')) [] = Inr f' \<and>
    mirrors f' [[75] \<mapsto> [86, 0]]"
proof (rule store_file_mirrors_table)
  show "mirrors [] Map.empty" unfolding mirrors_def by (intro exI [of _ "[]"]) simp
qed (simp_all add: key_text_def plain_def)

text \<open>
  A key with a colon is never deleted from the file: whatever the file holds, and although
  the module has removed the key from the table, \<open>store_data\<close> keeps every line, since it compares
  the key with what stands before the first colon. The entry is back after the next start.
\<close>

theorem colon_key_survives_delete:
  assumes "\<forall>(k, v) \<in> set es. plain k \<and> line_text v \<and> k \<noteq> []" "nul_free s" "length s < KEY_SIZE" "colon \<in> set s"
  shows "store_data (encode (Delete s)) (reply junk (c_str ''Successful deleting object from rhashtable.'')) (file_of es) =
    Inr (file_of es)"
proof -
  have "\<forall>(k, v) \<in> set es. k \<noteq> s" using assms(1,4) by (auto simp: plain_def)
  then have "filter (\<lambda>(k, v). k \<noteq> s) es = es" by (auto simp: filter_id_conv)
  with store_DELETE_file [of s es] assms(1-3) store_data_message [OF strncmp_success(2) _ assms(2,3), of DELETE 0 0 "[]" junk "file_of es"]
  show ?thesis by (simp add: wire_key_fields)
qed

theorem colon_key_survives_delete_witness:
  "store_data (encode (Delete [75, 58, 76])) (reply 0 (c_str ''Successful deleting object from rhashtable.''))
    (file_of [([75], [76, 58, 86])]) = Inr (file_of [([75], [76, 58, 86])])"
  by (rule colon_key_survives_delete) (simp_all add: plain_def line_text_def)

text \<open>
  A value with a newline breaks the next removal: \<open>store_data\<close> writes it as two lines, and the
  next DELETE that succeeds, of any key, lets \<open>strtok\<close> run past the unterminated copy of the
  second one.
\<close>

theorem newline_value_breaks_delete:
  assumes "mirrors f m" "key_text s" "key_text s'" "plain v" "line_text w" "colon \<notin> set w"
    "length v + length w + 2 < 2 ^ 16"
  shows "bind_r (store_data (encode (Insert s (v @ [newline] @ w @ [0])))
        (reply junk (c_str ''Inserted object to rhashtable'')) f) (\<lambda>f.
      store_data (encode (Delete s')) (reply junk (c_str ''Successful deleting object from rhashtable.'')) f) =
    Inl OutOfBoundsRead"
proof -
  from assms(1) obtain es where es: "f = file_of es" "\<forall>(k, v) \<in> set es. key_text k \<and> plain v"
    by (auto simp: mirrors_def)
  let ?t = "v @ [newline] @ w" and ?es = "es @ [(s, v)]"
  have nt: "nul_free ?t" using assms(4,5) by (simp add: plain_def line_text_def)
  have n: "unat (of_nat (length (?t @ [0])) :: u16) = length ?t + 1"
    using assms(7) by (simp only: unat_of_nat) simp
  have d: "(4 :: int) \<noteq> 0" "(14 :: int) \<noteq> 0" by simp_all
  have e: "encode (Insert s (?t @ [0])) = INSERT # le16 (of_nat (length (?t @ [0]))) @ [0] @ pad KEY_SIZE s @ ?t @ [0]"
    by (simp add: wire_insert_def)
  have f: "f @ s @ [colon] @ ?t @ [newline] = file_of ?es @ w @ [newline]"
    by (simp add: es(1) file_of_append)
  have ins: "store_data (encode (Insert s (v @ [newline] @ w @ [0]))) (reply junk (c_str ''Inserted object to rhashtable'')) f =
      Inr (file_of ?es @ w @ [newline])"
    using store_data_message [OF strncmp_success(1) d(1) key_textD [OF assms(2)], of INSERT
        "of_nat (length (?t @ [0]))" 0 "?t @ [0]" junk f]
      store_INSERT_text [OF key_textD [OF assms(2)] nt, of "[]" f]
    unfolding n f e [symmetric] by simp
  have "store_DELETE (pad (KEY_SIZE + 1) s') (file_of ?es @ w @ [newline]) = Inl OutOfBoundsRead"
    by (rule store_DELETE_open_line)
      (use es(2) assms(2,4-6) key_textD [OF assms(3)] in \<open>auto simp: key_text_def plain_def line_text_def\<close>)
  then show ?thesis
    using ins store_data_message [OF strncmp_success(2) d(2) key_textD [OF assms(3)], of DELETE 0 0 "[]" junk
        "file_of ?es @ w @ [newline]"]
    by (simp add: wire_key_fields)
qed

theorem newline_value_breaks_delete_witness:
  "bind_r (store_data (encode (Insert [75] ([86] @ [newline] @ [87] @ [0])))
      (reply 0 (c_str ''Inserted object to rhashtable'')) []) (\<lambda>f.
    store_data (encode (Delete [75])) (reply 0 (c_str ''Successful deleting object from rhashtable.'')) f) =
  Inl OutOfBoundsRead"
proof (rule newline_value_breaks_delete)
  show "mirrors [] Map.empty" unfolding mirrors_def by (intro exI [of _ "[]"]) simp
qed (simp_all add: key_text_def plain_def line_text_def)

end
