(* ===== verification/Sock.thy ===== *)
theory Sock
  imports Pdu
begin

text \<open>
  Receiving PDUs from a stream socket: \<open>receive_pdu\<close> (OU4/Resources/socket.c) and the readers
  \<open>read_exactly\<close>, \<open>read_INSERT\<close>, ... of OU4/Resources/PDU_user.c. A socket is the bytes that
  have arrived and are unread, the segments still to come (one is added before each call of
  \<open>recv\<close>, and more while there is nothing to return), and what follows the last of them. The
  return value of \<open>recv\<close> goes into a \<open>size_t\<close>, as in the code: \<open>-1\<close> is the largest value.
  A call that blocks for ever, and a loop that does not end, are \<open>None\<close>.
\<close>

section \<open>Sockets\<close>

datatype ending = Open | Closed | Failed   \<comment> \<open>silence, orderly shutdown, an error\<close>

record sock =
  inbuf :: "byte list"
  segs :: "byte list list"
  fin :: ending

fun wait_data :: "byte list \<Rightarrow> byte list list \<Rightarrow> byte list \<times> byte list list" where
  "wait_data b [] = (b, [])"
| "wait_data b (s # ss) = (if b @ s = [] then wait_data [] ss else (b @ s, ss))"

definition recv :: "nat \<Rightarrow> bool \<Rightarrow> sock \<Rightarrow> (byte list \<times> 64 word \<times> sock) option" where
  "recv n peek s =
     (let (b, ss) = wait_data (inbuf s) (segs s)
      in if b = [] then
           (case fin s of
              Open \<Rightarrow> None
            | Closed \<Rightarrow> Some ([], 0, s\<lparr>segs := ss\<rparr>)
            | Failed \<Rightarrow> Some ([], - 1, s\<lparr>segs := ss\<rparr>))
         else Some (take n b, of_nat (min n (length b)),
                    s\<lparr>inbuf := (if peek then b else drop n b), segs := ss\<rparr>))"

section \<open>The readers\<close>

text \<open>
  \<open>while (nread < n) { nread = recv(sock, buf, n, flags); if (nread == -1) continue; }\<close> with a
  buffer of at least \<open>n\<close> bytes: each call writes to the start of the buffer and replaces
  \<open>nread\<close>.
\<close>

partial_function (option) read_loop ::
  "nat \<Rightarrow> bool \<Rightarrow> 64 word \<Rightarrow> byte list \<Rightarrow> sock \<Rightarrow> (byte list \<times> sock) option" where
  "read_loop n peek nread buf s =
     (if nread < of_nat n
      then Option.bind (recv n peek s) (\<lambda>(d, nread, s).
             read_loop n peek nread (d @ drop (length d) buf) s)
      else Some (buf, s))"

definition header_size_field :: "byte list \<Rightarrow> u16" where
  "header_size_field header = un_le16 (take 2 (drop 1 header))"

type_synonym 'a reader = "sock \<Rightarrow> ('a \<times> sock) option"

definition read_QUIT :: "u32 \<Rightarrow> payload PDU_struct reader" where
  "read_QUIT sock s =
     Option.bind (read_loop HEADERSIZE False 0 (replicate HEADERSIZE 0) s) (\<lambda>(header, s).
     Some (\<lparr>OP_code = QUIT, data_bytes = 0, data = Quit \<lparr>QUIT_op = QUIT, QUIT_sock = ucast sock\<rparr>\<rparr>, s))"

definition read_JOIN :: "payload PDU_struct reader" where
  "read_JOIN s =
     Option.bind (read_loop HEADERSIZE False 0 (replicate HEADERSIZE 0) s) (\<lambda>(header, s).
     let name_len = header_size_field header
     in Option.bind (read_loop (unat name_len) False 0 (replicate (unat name_len + 1) 0) s) (\<lambda>(client_ID, s).
        Some (\<lparr>OP_code = JOIN, data_bytes = name_len,
               data = Join \<lparr>JOIN_op = JOIN, ID_len = name_len, client_ID = client_ID\<rparr>\<rparr>, s)))"

definition read_KERNEL :: "payload PDU_struct reader" where
  "read_KERNEL s =
     Option.bind (read_loop HEADERSIZE False 0 (replicate HEADERSIZE 0) s) (\<lambda>(header, s).
     let msg_size = header_size_field header
     in Option.bind (read_loop (unat msg_size) False 0 (replicate (unat msg_size + 8) 0) s) (\<lambda>(d, s).
        Some (\<lparr>OP_code = KERNEL, data_bytes = msg_size, data = Buffer d\<rparr>, s)))"

definition read_INIT :: "payload PDU_struct reader" where
  "read_INIT s =
     Option.bind (read_loop HEADERSIZE False 0 (replicate HEADERSIZE 0) s) (\<lambda>(header, s).
     Some (\<lparr>OP_code = INIT, data_bytes = of_nat HEADERSIZE, data = Buffer header\<rparr>, s))"

text \<open>The header is only looked at; the sum is truncated to the 16 bits of \<open>data_bytes\<close>.\<close>

definition read_INSERT :: "payload PDU_struct reader" where
  "read_INSERT s =
     Option.bind (read_loop HEADERSIZE True 0 (replicate HEADERSIZE 0) s) (\<lambda>(header, s).
     let n = header_size_field header + of_nat HEADERSIZE + of_nat KEY_SIZE
     in Option.bind (read_loop (unat n) False 0 (replicate (unat n) 0) s) (\<lambda>(pdu, s).
        Some (\<lparr>OP_code = INSERT, data_bytes = n, data = Buffer pdu\<rparr>, s)))"

definition read_GET :: "payload PDU_struct reader" where
  "read_GET s =
     Option.bind (read_loop (HEADERSIZE + KEY_SIZE) False 0 (replicate (HEADERSIZE + KEY_SIZE) 0) s) (\<lambda>(pdu, s).
     Some (\<lparr>OP_code = GET, data_bytes = of_nat (HEADERSIZE + KEY_SIZE), data = Buffer pdu\<rparr>, s))"

definition read_DELETE :: "payload PDU_struct reader" where
  "read_DELETE s =
     Option.bind (read_loop (HEADERSIZE + KEY_SIZE) False 0 (replicate (HEADERSIZE + KEY_SIZE) 0) s) (\<lambda>(pdu, s).
     Some (\<lparr>OP_code = DELETE, data_bytes = of_nat (HEADERSIZE + KEY_SIZE), data = Buffer pdu\<rparr>, s))"

text \<open>What \<open>receive_pdu\<close> returns: a PDU, \<open>NULL\<close>, or the marker \<open>-100\<close>.\<close>

datatype received = Received "payload PDU_struct" | Null_PDU | Disconnected

definition received :: "(payload PDU_struct \<times> sock) option \<Rightarrow> (received \<times> sock) option" where
  "received m = Option.bind m (\<lambda>(pdu, s). Some (Received pdu, s))"

definition read_exactly :: "u32 \<Rightarrow> u8 \<Rightarrow> received reader" where
  "read_exactly sock op s =
     (if op = INIT then received (read_INIT s)
      else if op = INSERT then received (read_INSERT s)
      else if op = GET then received (read_GET s)
      else if op = DELETE then received (read_DELETE s)
      else if op = KERNEL then received (read_KERNEL s)
      else if op = JOIN then received (read_JOIN s)
      else if op = QUIT then received (read_QUIT sock s)
      else Some (Null_PDU, s))"

partial_function (option) receive_loop :: "u32 \<Rightarrow> 64 word \<Rightarrow> byte list \<Rightarrow> sock \<Rightarrow> (received \<times> sock) option" where
  "receive_loop sock nread buffer_read s =
     (if nread < of_nat HEADERSIZE
      then Option.bind (recv HEADERSIZE True s) (\<lambda>(d, nread, s).
             if nread = 0 then Some (Disconnected, s)
             else if nread = - 1 then Some (Null_PDU, s)
             else receive_loop sock nread (d @ drop (length d) buffer_read) s)
      else read_exactly sock (hd buffer_read) s)"

text \<open>\<open>stack\<close>: the four uninitialised bytes of \<open>buffer_read\<close>.\<close>

definition receive_pdu :: "byte list \<Rightarrow> u32 \<Rightarrow> received reader" where
  "receive_pdu stack sock s = receive_loop sock 0 stack s"

end
