(* ===== verification/Server.thy ===== *)
theory Server
  imports Store Sock
begin

text \<open>
  The server process of OU4/User/server.c around the netlink sockets: start-up with INIT, one
  round of \<open>kernel_communication\<close> (take a PDU from \<open>sender_list\<close>, pass it to the kernel module,
  keep the store file, send the answer to every client), and the farewell of \<open>close_server\<close>.
  The lists are the sequences of their items (ListProps relates them to the heap), the kernel
  module is the one of Kernel, and the netlink buffers are the 1024 payload bytes behind
  \<open>NLMSG_DATA\<close>, never cleared between messages.
\<close>

section \<open>State\<close>

record 'h system =
  sender_list :: "byte list PDU_struct list"
  clients_sockets :: "u32 list"
  nl_send_buf :: "byte list"
  nl_receive_buf :: "byte list"
  store_file :: "byte list"
  module :: "'h kernel"
  sent :: "(u32 \<times> byte list) list"   \<comment> \<open>what \<open>send\<close> put on the sockets\<close>

definition start_state :: "byte list \<Rightarrow> 'h kernel \<Rightarrow> 'h system" where
  "start_state f k = \<lparr>sender_list = [], clients_sockets = [], nl_send_buf = replicate MAX_PAYLOAD 0,
     nl_receive_buf = replicate MAX_PAYLOAD 0, store_file = f, module = k, sent = []\<rparr>"

section \<open>The netlink sockets\<close>

text \<open>\<open>sendmsg\<close> hands the whole buffer to the module, which works it off.\<close>

definition sendmsg :: "'h rht_ops \<Rightarrow> byte \<Rightarrow> 'h system \<Rightarrow> 'h system res" where
  "sendmsg ops junk s =
     bind_r (handle ops junk (nl_send_buf s) (module s)) (\<lambda>k. Inr (s\<lparr>module := k\<rparr>))"

text \<open>
  \<open>recvmsg\<close> takes the oldest reply, cut off at the size of the buffer, and blocks for ever
  (\<open>None\<close>) when the module has not answered.
\<close>

definition recvmsg :: "'h system \<Rightarrow> 'h system option" where
  "recvmsg s =
     (case replies (module s) of
        [] \<Rightarrow> None
      | r # rs \<Rightarrow> Some (s\<lparr>nl_receive_buf := take MAX_PAYLOAD r @ drop (length r) (nl_receive_buf s),
                        module := (module s)\<lparr>replies := rs\<rparr>\<rparr>))"

text \<open>A result that may never come.\<close>

definition bind_b :: "'a res option \<Rightarrow> ('a \<Rightarrow> 'b res option) \<Rightarrow> 'b res option" where
  "bind_b m f = (case m of None \<Rightarrow> None | Some (Inl e) \<Rightarrow> Some (Inl e) | Some (Inr x) \<Rightarrow> f x)"

lemma bind_b_simps [simp]:
  "bind_b None f = None" "bind_b (Some (Inl e)) f = Some (Inl e)" "bind_b (Some (Inr x)) f = f x"
  by (simp_all add: bind_b_def)

definition nl_exchange :: "'h rht_ops \<Rightarrow> byte \<Rightarrow> byte list \<Rightarrow> nat \<Rightarrow> 'h system \<Rightarrow> 'h system res option" where
  "nl_exchange ops junk d n s =
     bind_b (Some (nlmsg_put (nl_send_buf s) d n)) (\<lambda>b.
     bind_b (Some (sendmsg ops junk (s\<lparr>nl_send_buf := b\<rparr>))) (\<lambda>s.
     map_option Inr (recvmsg s)))"

section \<open>Start-up\<close>

text \<open>
  The exchange with the module is a parameter: \<open>nl_exchange\<close> when both sockets are set up; what happens
  otherwise is in ServerMain.
\<close>

fun send_lines_over :: "(byte list \<Rightarrow> nat \<Rightarrow> 'h system \<Rightarrow> 'h system res option) \<Rightarrow> byte list list \<Rightarrow> 'h system \<Rightarrow> 'h system res option" where
  "send_lines_over exchange [] s = Some (Inr s)"
| "send_lines_over exchange (line # ls) s =
     (if colon \<notin> set (upto_nul line) then send_lines_over exchange ls s
      else
        bind_b (Some (line_struct (line @ [0]))) (\<lambda>insert_struct.
        bind_b (Some (create_INSERT_buffer insert_struct)) (\<lambda>action.
        let n = INSERT_bytes insert_struct + of_nat HEADERSIZE + of_nat KEY_SIZE
        in bind_b (exchange action (unat n) s) (\<lambda>s. send_lines_over exchange ls s))))"

definition load_stored_values_over :: "(byte list \<Rightarrow> nat \<Rightarrow> 'h system \<Rightarrow> 'h system res option) \<Rightarrow> 'h system \<Rightarrow> 'h system res option" where
  "load_stored_values_over exchange s = send_lines_over exchange (getlines (store_file s)) s"

definition init_hashtable_over :: "(byte list \<Rightarrow> nat \<Rightarrow> 'h system \<Rightarrow> 'h system res option) \<Rightarrow> 'h system \<Rightarrow> 'h system res option" where
  "init_hashtable_over exchange s =
     bind_b (Some (c_write (replicate HEADERSIZE 0) 0 [INIT])) (\<lambda>d.
     bind_b (exchange d HEADERSIZE s) (\<lambda>s.
     load_stored_values_over exchange s))"

abbreviation send_lines :: "'h rht_ops \<Rightarrow> byte \<Rightarrow> byte list list \<Rightarrow> 'h system \<Rightarrow> 'h system res option" where
  "send_lines ops junk \<equiv> send_lines_over (nl_exchange ops junk)"

definition init_hashtable :: "'h rht_ops \<Rightarrow> byte \<Rightarrow> 'h system \<Rightarrow> 'h system res option" where
  "init_hashtable ops junk = init_hashtable_over (nl_exchange ops junk)"

section \<open>Serving\<close>

definition send_pdu :: "u32 \<Rightarrow> byte list PDU_struct \<Rightarrow> 'h system \<Rightarrow> 'h system res" where
  "send_pdu sock pdu s =
     bind_r (c_read (data pdu) 0 (unat (data_bytes pdu))) (\<lambda>d. Inr (s\<lparr>sent := sent s @ [(sock, d)]\<rparr>))"

fun send_all :: "u32 list \<Rightarrow> byte list PDU_struct \<Rightarrow> 'h system \<Rightarrow> 'h system res" where
  "send_all [] pdu s = Inr s"
| "send_all (sock # socks) pdu s = bind_r (send_pdu sock pdu s) (\<lambda>s. send_all socks pdu s)"

text \<open>The copy that \<open>llist_removefirst_PDU\<close> makes: its data has one byte more, which is 0.\<close>

definition removed_PDU :: "byte list PDU_struct \<Rightarrow> byte list PDU_struct res" where
  "removed_PDU pdu = bind_r (c_read (data pdu) 0 (unat (data_bytes pdu))) (\<lambda>d. Inr (pdu\<lparr>data := d @ [0]\<rparr>))"

text \<open>
  The pass of the loop of \<open>kernel_communication\<close> behind its wait (the test for an empty list and the wait are in
  Interleave); removing from an empty list dereferences null.
\<close>

definition kernel_communication :: "'h rht_ops \<Rightarrow> byte \<Rightarrow> 'h system \<Rightarrow> 'h system res option" where
  "kernel_communication ops junk s =
     (case sender_list s of
        [] \<Rightarrow> Some (Inl NullDeref)
      | pdu_send # q \<Rightarrow>
          bind_b (Some (removed_PDU pdu_send)) (\<lambda>pdu_send.
          bind_b (nl_exchange ops junk (data pdu_send) (unat (data_bytes pdu_send)) (s\<lparr>sender_list := q\<rparr>)) (\<lambda>s.
          bind_b (Some (read_exactly_from_kernel (nl_receive_buf s))) (\<lambda>pdu_recieve.
          bind_b (Some (store_data (data pdu_send) (data pdu_recieve) (store_file s))) (\<lambda>f.
          Some (send_all (clients_sockets s) pdu_recieve (s\<lparr>store_file := f\<rparr>)))))))"

fun serve_queue :: "'h rht_ops \<Rightarrow> byte \<Rightarrow> nat \<Rightarrow> 'h system \<Rightarrow> 'h system res option" where
  "serve_queue ops junk 0 s = Some (Inr s)"
| "serve_queue ops junk (Suc n) s = bind_b (kernel_communication ops junk s) (serve_queue ops junk n)"

text \<open>
  What a listening thread does with a received PDU: QUIT and JOIN are dropped, everything else is
  queued for the kernel; a null PDU is dereferenced.
\<close>

definition client_pdu :: "received \<Rightarrow> 'h system \<Rightarrow> 'h system res" where
  "client_pdu r s =
     (case r of
        Null_PDU \<Rightarrow> Inl NullDeref
      | Disconnected \<Rightarrow> Inr s
      | Received pdu \<Rightarrow>
          (if OP_code pdu = QUIT \<or> OP_code pdu = JOIN then Inr s
           else case data pdu of
             Buffer d \<Rightarrow> Inr (s\<lparr>sender_list := sender_list s @
               [\<lparr>OP_code = OP_code pdu, data_bytes = data_bytes pdu, data = d\<rparr>]\<rparr>)
           | _ \<Rightarrow> Inl WrongCell))"

section \<open>The first message of a client\<close>

text \<open>
  \<open>client_JOIN\<close> asks again as long as \<open>receive_pdu\<close> returns \<open>NULL\<close>. The start of
  \<open>client_listener\<close> then reads the name behind \<open>data\<close>, whatever it was given: the marker of a
  closed connection is no pointer, and only \<open>read_JOIN\<close> makes a \<open>JOIN_struct\<close>.
\<close>

partial_function (option) client_JOIN :: "byte list \<Rightarrow> u32 \<Rightarrow> sock \<Rightarrow> (received \<times> sock) option" where
  "client_JOIN stack client_sock s =
     Option.bind (receive_pdu stack client_sock s) (\<lambda>(pdu, s).
     if pdu = Null_PDU then client_JOIN stack client_sock s else Some (pdu, s))"

definition client_joined :: "received \<Rightarrow> byte list res" where
  "client_joined r =
     (case r of
        Null_PDU \<Rightarrow> Inl NullDeref
      | Disconnected \<Rightarrow> Inl UninitDeref
      | Received pdu \<Rightarrow> (case data pdu of Join j \<Rightarrow> Inr (client_ID j) | _ \<Rightarrow> Inl WrongCell))"

text \<open>
  The loop of \<open>client_listener\<close>: it ends when the connection is closed (what it does then to the
  pool of threads is in Threads) or at a fault, and waits for ever otherwise.
\<close>

partial_function (option) listen_loop :: "byte list \<Rightarrow> u32 \<Rightarrow> sock \<Rightarrow> 'h system \<Rightarrow> 'h system res option" where
  "listen_loop stack temp_socket c s =
     Option.bind (receive_pdu stack temp_socket c) (\<lambda>(pdu, c).
     if pdu = Disconnected then Some (Inr s)
     else case client_pdu pdu s of
       Inl e \<Rightarrow> Some (Inl e)
     | Inr s \<Rightarrow> listen_loop stack temp_socket c s)"

definition client_listener :: "byte list \<Rightarrow> u32 \<Rightarrow> sock \<Rightarrow> 'h system \<Rightarrow> 'h system res option" where
  "client_listener stack temp_socket c s =
     Option.bind (client_JOIN stack temp_socket c) (\<lambda>(pdu_JOIN, c).
     case client_joined pdu_JOIN of
       Inl e \<Rightarrow> Some (Inl e)
     | Inr name \<Rightarrow> listen_loop stack temp_socket c s)"

end
