(* ===== verification/SockProps.thy ===== *)
theory SockProps
  imports Sock KernelSpec
begin

text \<open>
  What the receivers deliver: every message when it lies in the socket's buffer as a whole, and
  what becomes of one that arrives in pieces or is cut off.
\<close>

section \<open>Calls that are served from the buffer\<close>

text \<open>All bytes that will ever arrive, in order.\<close>

definition stream :: "sock \<Rightarrow> byte list" where
  "stream s = inbuf s @ concat (segs s)"

lemma wait_data_stream:
  "wait_data b ss = (b', ss') \<Longrightarrow> b @ concat ss = b' @ concat ss' \<and> length b \<le> length b'"
  by (induction b ss rule: wait_data.induct) (auto split: if_splits)

lemma recv_buffered:
  assumes "n \<le> length (inbuf s)" "0 < n"
  shows "\<exists>s'. recv n peek s = Some (take n (stream s), of_nat n, s') \<and> fin s' = fin s \<and>
    (if peek then stream s' = stream s \<and> length (inbuf s) \<le> length (inbuf s')
     else stream s' = drop n (stream s) \<and> length (inbuf s) \<le> length (inbuf s') + n)"
proof -
  obtain b ss where w: "wait_data (inbuf s) (segs s) = (b, ss)" by (cases "wait_data (inbuf s) (segs s)")
  note b = wait_data_stream [OF w]
  with assms have "b \<noteq> []" "min n (length b) = n" "n \<le> length b" by auto
  moreover have "stream s = b @ concat ss" using b by (simp add: stream_def)
  ultimately show ?thesis using b assms by (simp add: recv_def w stream_def)
qed

lemma read_loop_done: "\<not> nread < of_nat n \<Longrightarrow> read_loop n peek nread buf s = Some (buf, s)"
  by (subst read_loop.simps) simp

lemma read_loop_buffered:
  assumes "n \<le> length (inbuf s)" "n < 2 ^ 64" "n \<le> length buf"
  shows "\<exists>s'. read_loop n peek 0 buf s = Some (take n (stream s) @ drop n buf, s') \<and> fin s' = fin s \<and>
    (if peek then stream s' = stream s \<and> length (inbuf s) \<le> length (inbuf s')
     else stream s' = drop n (stream s) \<and> length (inbuf s) \<le> length (inbuf s') + n)"
proof (cases "n = 0")
  case True
  then show ?thesis by (simp add: read_loop_done)
next
  case False
  then obtain s' where r: "recv n peek s = Some (take n (stream s), of_nat n, s')" "fin s' = fin s"
    "if peek then stream s' = stream s \<and> length (inbuf s) \<le> length (inbuf s')
     else stream s' = drop n (stream s) \<and> length (inbuf s) \<le> length (inbuf s') + n"
    using recv_buffered [OF assms(1)] by blast
  have "length (take n (stream s)) = n" using assms(1) by (simp add: stream_def)
  moreover have "(0 :: 64 word) < of_nat n" using False assms(2) by (simp add: word_less_nat_alt unat_of_nat)
  ultimately show ?thesis using r by (subst read_loop.simps) (simp add: read_loop_done)
qed

section \<open>Messages\<close>

datatype message = Request request | MJoin "byte list" | MQuit | MKernel "byte list"

fun wire :: "message \<Rightarrow> byte list" where
  "wire (Request r) = encode r"
| "wire (MJoin name) = JOIN # le16 (of_nat (length name)) @ [0] @ name"
| "wire MQuit = [QUIT, 0, 0, 0]"
| "wire (MKernel d) = KERNEL # le16 (of_nat (length d)) @ [0] @ d"

fun message_ok :: "message \<Rightarrow> bool" where
  "message_ok (Request (Unknown op)) \<longleftrightarrow> op \<notin> {INIT, INSERT, GET, DELETE, KERNEL, JOIN, QUIT}"
| "message_ok (Request (Insert s v)) \<longleftrightarrow> length s \<le> KEY_SIZE \<and> HEADERSIZE + KEY_SIZE + length v < 2 ^ 16"
| "message_ok (Request (Get s)) \<longleftrightarrow> length s \<le> KEY_SIZE"
| "message_ok (Request (Delete s)) \<longleftrightarrow> length s \<le> KEY_SIZE"
| "message_ok (Request Init) \<longleftrightarrow> True"
| "message_ok (MJoin name) \<longleftrightarrow> length name < 2 ^ 16"
| "message_ok MQuit \<longleftrightarrow> True"
| "message_ok (MKernel d) \<longleftrightarrow> length d < 2 ^ 16"

text \<open>The PDU a message is received as.\<close>

fun pdu_of :: "u32 \<Rightarrow> message \<Rightarrow> received" where
  "pdu_of sock (Request (Unknown op)) = Null_PDU"
| "pdu_of sock (Request r) =
     Received \<lparr>OP_code = hd (encode r), data_bytes = of_nat (length (encode r)), data = Buffer (encode r)\<rparr>"
| "pdu_of sock (MJoin name) =
     Received \<lparr>OP_code = JOIN, data_bytes = of_nat (length name), data = Join
       \<lparr>JOIN_op = JOIN, ID_len = of_nat (length name), client_ID = name @ [0]\<rparr>\<rparr>"
| "pdu_of sock MQuit =
     Received \<lparr>OP_code = QUIT, data_bytes = 0, data = Quit \<lparr>QUIT_op = QUIT, QUIT_sock = ucast sock\<rparr>\<rparr>"
| "pdu_of sock (MKernel d) =
     Received \<lparr>OP_code = KERNEL, data_bytes = of_nat (length d), data = Buffer (d @ replicate 8 0)\<rparr>"

text \<open>The bytes it takes off the stream: an unknown operation code is left where it is.\<close>

definition consumed :: "message \<Rightarrow> nat" where
  "consumed msg = (case msg of Request (Unknown op) \<Rightarrow> 0 | _ \<Rightarrow> length (wire msg))"

lemma wire_header: "message_ok msg \<Longrightarrow> HEADERSIZE \<le> length (wire msg)"
  by (cases msg rule: message_ok.cases) (simp_all add: wire_key_def wire_insert_def)

lemma receive_pdu_header:
  assumes "HEADERSIZE \<le> length (inbuf s)" "length stack = HEADERSIZE"
  shows "\<exists>s'. receive_pdu stack sock s = read_exactly sock (hd (stream s)) s' \<and> fin s' = fin s \<and>
    stream s' = stream s \<and> length (inbuf s) \<le> length (inbuf s')"
proof -
  obtain s' where r: "recv HEADERSIZE True s = Some (take HEADERSIZE (stream s), of_nat HEADERSIZE, s')"
    "fin s' = fin s" "stream s' = stream s" "length (inbuf s) \<le> length (inbuf s')"
    using recv_buffered [OF assms(1), of True] by auto
  have "length (take HEADERSIZE (stream s)) = HEADERSIZE" "hd (take HEADERSIZE (stream s)) = hd (stream s)"
    using assms(1) by (cases "inbuf s"; simp add: stream_def)+
  then have "receive_pdu stack sock s = read_exactly sock (hd (stream s)) s'"
    using r(1) assms(2) unfolding receive_pdu_def
    by (subst receive_loop.simps) (simp, subst receive_loop.simps, simp add: hd_append)
  with r show ?thesis by blast
qed

text \<open>A buffered header, a buffered body.\<close>

definition buffered :: "sock \<Rightarrow> byte list \<Rightarrow> byte list \<Rightarrow> bool" where
  "buffered s msg rest \<longleftrightarrow> stream s = msg @ rest \<and> length msg \<le> length (inbuf s)"

lemma read_loop_take:
  assumes "buffered s (a @ b) rest" "n = length a" "n < 2 ^ 64" "n \<le> length buf"
  shows "\<exists>s'. read_loop n False 0 buf s = Some (a @ drop n buf, s') \<and> buffered s' b rest \<and> fin s' = fin s"
proof -
  have "n \<le> length (inbuf s)" using assms by (simp add: buffered_def)
  from read_loop_buffered [OF this assms(3,4), of False] assms(1,2) show ?thesis
    by (auto simp: buffered_def)
qed

lemma read_loop_peek:
  assumes "buffered s (a @ b) rest" "n = length a" "n < 2 ^ 64" "n \<le> length buf"
  shows "\<exists>s'. read_loop n True 0 buf s = Some (a @ drop n buf, s') \<and> buffered s' (a @ b) rest \<and> fin s' = fin s"
proof -
  have "n \<le> length (inbuf s)" using assms by (simp add: buffered_def)
  from read_loop_buffered [OF this assms(3,4), of True] assms(1,2) show ?thesis
    by (auto simp: buffered_def)
qed

lemma header_size_field_wire [simp]: "header_size_field (op # le16 n @ [x]) = n"
  by (simp add: header_size_field_def)

lemma read_GET_buffered:
  assumes "buffered s (msg @ b) rest" "length msg = HEADERSIZE + KEY_SIZE"
  shows "\<exists>s'. read_GET s = Some (\<lparr>OP_code = GET, data_bytes = of_nat (length msg), data = Buffer msg\<rparr>, s') \<and>
    buffered s' b rest \<and> fin s' = fin s"
  using read_loop_take [of s msg b rest "HEADERSIZE + KEY_SIZE" "replicate (HEADERSIZE + KEY_SIZE) 0"] assms
  by (auto simp: read_GET_def)

lemma read_DELETE_buffered:
  assumes "buffered s (msg @ b) rest" "length msg = HEADERSIZE + KEY_SIZE"
  shows "\<exists>s'. read_DELETE s = Some (\<lparr>OP_code = DELETE, data_bytes = of_nat (length msg), data = Buffer msg\<rparr>, s') \<and>
    buffered s' b rest \<and> fin s' = fin s"
  using read_loop_take [of s msg b rest "HEADERSIZE + KEY_SIZE" "replicate (HEADERSIZE + KEY_SIZE) 0"] assms
  by (auto simp: read_DELETE_def)

lemma read_INIT_buffered:
  assumes "buffered s (msg @ b) rest" "length msg = HEADERSIZE"
  shows "\<exists>s'. read_INIT s = Some (\<lparr>OP_code = INIT, data_bytes = of_nat (length msg), data = Buffer msg\<rparr>, s') \<and>
    buffered s' b rest \<and> fin s' = fin s"
  using read_loop_take [of s msg b rest "HEADERSIZE" "replicate HEADERSIZE 0"] assms
  by (auto simp: read_INIT_def)

lemma read_QUIT_buffered:
  assumes "buffered s (msg @ b) rest" "length msg = HEADERSIZE"
  shows "\<exists>s'. read_QUIT sock s = Some (\<lparr>OP_code = QUIT, data_bytes = 0,
      data = Quit \<lparr>QUIT_op = QUIT, QUIT_sock = ucast sock\<rparr>\<rparr>, s') \<and> buffered s' b rest \<and> fin s' = fin s"
  using read_loop_take [of s msg b rest "HEADERSIZE" "replicate HEADERSIZE 0"] assms
  by (auto simp: read_QUIT_def)

lemma read_header_then:
  assumes "buffered s (op # le16 n @ [x] @ b) rest"
  shows "\<exists>s'. read_loop HEADERSIZE False 0 (replicate HEADERSIZE 0) s = Some (op # le16 n @ [x], s') \<and>
    buffered s' b rest \<and> fin s' = fin s"
  using read_loop_take [of s "op # le16 n @ [x]" b rest HEADERSIZE "replicate HEADERSIZE 0"] assms by simp

lemma read_JOIN_buffered:
  assumes "buffered s (op # le16 (of_nat (length name)) @ [x] @ name @ b) rest" "length name < 2 ^ 16"
  shows "\<exists>s'. read_JOIN s = Some (\<lparr>OP_code = JOIN, data_bytes = of_nat (length name), data = Join
      \<lparr>JOIN_op = JOIN, ID_len = of_nat (length name), client_ID = name @ [0]\<rparr>\<rparr>, s') \<and>
    buffered s' b rest \<and> fin s' = fin s"
proof -
  obtain s1 where s1: "read_loop HEADERSIZE False 0 (replicate HEADERSIZE 0) s =
      Some (op # le16 (of_nat (length name)) @ [x], s1)" "buffered s1 (name @ b) rest" "fin s1 = fin s"
    using read_header_then [OF assms(1)] by blast
  have "unat (of_nat (length name) :: u16) = length name" using assms(2) by (simp add: unat_of_nat)
  moreover note s1 read_loop_take [of s1 name b rest "length name" "replicate (length name + 1) 0"] assms(2)
  moreover have "drop (length name) (0 # replicate (length name) 0) = [0 :: byte]"
    by (induction name) simp_all
  ultimately show ?thesis by (auto simp: read_JOIN_def header_size_field_wire [simplified] Let_def)
qed

lemma read_KERNEL_buffered:
  assumes "buffered s (op # le16 (of_nat (length d)) @ [x] @ d @ b) rest" "length d < 2 ^ 16"
  shows "\<exists>s'. read_KERNEL s = Some (\<lparr>OP_code = KERNEL, data_bytes = of_nat (length d),
      data = Buffer (d @ replicate 8 0)\<rparr>, s') \<and> buffered s' b rest \<and> fin s' = fin s"
proof -
  obtain s1 where s1: "read_loop HEADERSIZE False 0 (replicate HEADERSIZE 0) s =
      Some (op # le16 (of_nat (length d)) @ [x], s1)" "buffered s1 (d @ b) rest" "fin s1 = fin s"
    using read_header_then [OF assms(1)] by blast
  have "unat (of_nat (length d) :: u16) = length d" using assms(2) by (simp add: unat_of_nat)
  with s1 read_loop_take [of s1 d b rest "length d" "replicate (length d + 8) 0"] assms(2)
  show ?thesis by (auto simp: read_KERNEL_def header_size_field_wire [simplified] Let_def)
qed

lemma read_INSERT_buffered:
  assumes "buffered s (op # le16 m @ [x] @ b) rest" "unat (m + 68) \<le> 4 + length b"
  shows "\<exists>s'. read_INSERT s = Some (\<lparr>OP_code = INSERT, data_bytes = m + 68,
      data = Buffer (take (unat (m + 68)) (op # le16 m @ [x] @ b))\<rparr>, s') \<and>
    buffered s' (drop (unat (m + 68)) (op # le16 m @ [x] @ b)) rest \<and> fin s' = fin s"
proof -
  let ?msg = "op # le16 m @ [x] @ b" and ?n = "unat (m + 68)"
  obtain s1 where s1: "read_loop HEADERSIZE True 0 (replicate HEADERSIZE 0) s = Some (op # le16 m @ [x], s1)"
    "buffered s1 ?msg rest" "fin s1 = fin s"
    using read_loop_peek [of s "op # le16 m @ [x]" b rest HEADERSIZE "replicate HEADERSIZE 0"] assms by auto
  have n: "?n < 2 ^ 16" using unsigned_less [of "m + 68"] by simp
  have "buffered s1 (take ?n ?msg @ drop ?n ?msg) rest" using s1(2) by (simp only: append_take_drop_id)
  from read_loop_take [OF this, of ?n "replicate ?n 0"] n assms(2) obtain s2 where
    "read_loop ?n False 0 (replicate ?n 0) s1 = Some (take ?n ?msg @ drop ?n (replicate ?n 0), s2)"
    "buffered s2 (drop ?n ?msg) rest" "fin s2 = fin s1" by auto
  with s1 show ?thesis
    by (auto simp: read_INSERT_def Let_def header_size_field_wire [simplified] add.assoc)
qed

section \<open>Whole messages\<close>

lemma receive_message:
  assumes ok: "message_ok msg" and s: "buffered s (wire msg @ q) rest" and st: "length stack = HEADERSIZE"
  shows "\<exists>s'. receive_pdu stack sock s = Some (pdu_of sock msg, s') \<and>
    buffered s' (drop (consumed msg) (wire msg) @ q) rest \<and> fin s' = fin s"
proof -
  have h: "HEADERSIZE \<le> length (inbuf s)" using s wire_header [OF ok] by (simp add: buffered_def)
  have hd: "hd (stream s) = hd (wire msg)"
    using s wire_header [OF ok] by (cases "wire msg") (auto simp: buffered_def)
  obtain s1 where s1: "receive_pdu stack sock s = read_exactly sock (hd (wire msg)) s1"
    "fin s1 = fin s" "stream s1 = stream s" "length (inbuf s) \<le> length (inbuf s1)"
    using receive_pdu_header [OF h st, of sock] unfolding hd by blast
  have b: "buffered s1 (wire msg @ q) rest" using s s1(3,4) by (simp add: buffered_def)
  show ?thesis
  proof (cases msg)
    case (Request r)
    show ?thesis
    proof (cases r)
      case Init
      with Request b s1 read_INIT_buffered [of s1 "wire msg" q rest] show ?thesis
        by (auto simp: read_exactly_def received_def consumed_def)
    next
      case (Insert k v)
      have l: "length (wire msg) = HEADERSIZE + KEY_SIZE + length v"
        using Request Insert ok by (simp add: length_wire_insert)
      have n: "of_nat (length v) + 68 = (of_nat (length (wire msg)) :: u16)" by (simp add: l)
      have lt: "length (wire msg) < 2 ^ 16" using l Request Insert ok by simp
      have u: "unat (of_nat (length v) + 68 :: u16) = length (wire msg)"
        unfolding n using lt by (simp add: unat_of_nat)
      have w: "wire msg = INSERT # le16 (of_nat (length v)) @ [0] @ pad KEY_SIZE k @ v"
        using Request Insert by (simp add: wire_insert_def)
      have w': "INSERT # le16 (of_nat (length v)) @ [0] @ pad KEY_SIZE k @ v @ q = wire msg @ q" by (simp add: w)
      have "buffered s1 (INSERT # le16 (of_nat (length v)) @ [0] @ pad KEY_SIZE k @ v @ q) rest"
        using b unfolding w by simp
      moreover have "unat (of_nat (length v) + 68 :: u16) \<le> 4 + length (pad KEY_SIZE k @ v @ q)"
        unfolding u l using Request Insert ok by simp
      ultimately obtain s2 where "read_INSERT s1 = Some (\<lparr>OP_code = INSERT, data_bytes = of_nat (length (wire msg)),
          data = Buffer (wire msg)\<rparr>, s2)" "buffered s2 q rest" "fin s2 = fin s1"
        using read_INSERT_buffered [of s1 INSERT "of_nat (length v)" 0 "pad KEY_SIZE k @ v @ q" rest]
        unfolding w' u by (auto simp: n)
      moreover have "hd (wire msg) = INSERT" by (simp add: w)
      moreover have "pdu_of sock msg = Received \<lparr>OP_code = INSERT, data_bytes = of_nat (length (wire msg)),
          data = Buffer (wire msg)\<rparr>" using Request Insert by (simp add: wire_insert_def)
      moreover have "consumed msg = length (wire msg)" using Request Insert by (simp add: consumed_def)
      ultimately show ?thesis using s1 by (simp add: read_exactly_def received_def)
    next
      case (Get k)
      with Request b s1 ok read_GET_buffered [of s1 "wire msg" q rest] show ?thesis
        by (auto simp: read_exactly_def received_def consumed_def length_wire_key) (auto simp: wire_key_def)
    next
      case (Delete k)
      with Request b s1 ok read_DELETE_buffered [of s1 "wire msg" q rest] show ?thesis
        by (auto simp: read_exactly_def received_def consumed_def length_wire_key) (auto simp: wire_key_def)
    next
      case (Unknown op)
      with Request b s1 ok show ?thesis by (auto simp: read_exactly_def consumed_def)
    qed
  next
    case (MJoin name)
    with b s1 ok read_JOIN_buffered [of s1 JOIN name 0 q rest] show ?thesis
      by (auto simp: read_exactly_def received_def consumed_def)
  next
    case MQuit
    with b s1 read_QUIT_buffered [of s1 "wire msg" q rest sock] show ?thesis
      by (auto simp: read_exactly_def received_def consumed_def)
  next
    case (MKernel d)
    with b s1 ok read_KERNEL_buffered [of s1 KERNEL d 0 q rest] show ?thesis
      by (auto simp: read_exactly_def received_def consumed_def)
  qed
qed

text \<open>Calling \<open>receive_pdu\<close> again and again, as the listening threads do.\<close>

fun receive_n :: "byte list \<Rightarrow> u32 \<Rightarrow> nat \<Rightarrow> sock \<Rightarrow> (received list \<times> sock) option" where
  "receive_n stack sock 0 s = Some ([], s)"
| "receive_n stack sock (Suc n) s =
     Option.bind (receive_pdu stack sock s) (\<lambda>(r, s).
     Option.bind (receive_n stack sock n s) (\<lambda>(rs, s). Some (r # rs, s)))"

text \<open>
  What both ends of a connection rely on: a way of writing things to a stream such that one call
  of \<open>receive_pdu\<close> takes exactly one of them off it. Then any sequence of them arrives.
\<close>

locale stream_codec =
  fixes put :: "'m \<Rightarrow> byte list"
    and got :: "'m \<Rightarrow> received"
    and valid :: "'m \<Rightarrow> bool"
    and stack :: "byte list"
    and sock :: u32
  assumes receive_one: "valid x \<Longrightarrow> buffered s (put x @ q) rest \<Longrightarrow>
    \<exists>s'. receive_pdu stack sock s = Some (got x, s') \<and> buffered s' q rest \<and> fin s' = fin s"
begin

lemma receive_all:
  assumes "\<forall>x \<in> set xs. valid x" "buffered s (concat (map put xs) @ q) rest"
  shows "\<exists>s'. receive_n stack sock (length xs) s = Some (map got xs, s') \<and> buffered s' q rest \<and> fin s' = fin s"
  using assms
proof (induction xs arbitrary: s)
  case (Cons x xs)
  have b: "buffered s (put x @ (concat (map put xs) @ q)) rest" using Cons.prems(2) by simp
  obtain s1 where s1: "receive_pdu stack sock s = Some (got x, s1)"
    "buffered s1 (concat (map put xs) @ q) rest" "fin s1 = fin s"
    using receive_one [OF _ b] Cons.prems(1) by auto
  from Cons.IH [OF _ s1(2)] Cons.prems(1) obtain s2 where
    "receive_n stack sock (length xs) s1 = Some (map got xs, s2)" "buffered s2 q rest" "fin s2 = fin s1" by auto
  with s1 show ?case by simp
qed simp

end

lemma consumed_known: "\<forall>op. msg \<noteq> Request (Unknown op) \<Longrightarrow> consumed msg = length (wire msg)"
  by (cases msg rule: message_ok.cases) (auto simp: consumed_def)

interpretation messages: stream_codec wire "pdu_of sock"
    "\<lambda>msg. message_ok msg \<and> (\<forall>op. msg \<noteq> Request (Unknown op)) \<and> length stack = HEADERSIZE" stack sock for stack sock
proof
  fix msg s q rest
  assume a: "message_ok msg \<and> (\<forall>op. msg \<noteq> Request (Unknown op)) \<and> length stack = HEADERSIZE"
    and b: "buffered s (wire msg @ q) rest"
  have "consumed msg = length (wire msg)" by (rule consumed_known) (use a in blast)
  with receive_message [OF _ b, of stack sock] a
  show "\<exists>s'. receive_pdu stack sock s = Some (pdu_of sock msg, s') \<and> buffered s' q rest \<and> fin s' = fin s" by auto
qed

section \<open>Messages in pieces\<close>

lemma recv_bounds:
  assumes "recv n peek s = Some (d, r, s')"
  shows "fin s' = fin s" and "length (stream s') \<le> length (stream s)"
    and "fin s \<noteq> Failed \<Longrightarrow> \<exists>j. r = of_nat j \<and> j \<le> length (stream s) \<and> j \<le> n"
proof -
  obtain b ss where w: "wait_data (inbuf s) (segs s) = (b, ss)" by (cases "wait_data (inbuf s) (segs s)")
  have b: "stream s = b @ concat ss" using wait_data_stream [OF w] by (simp add: stream_def)
  show "fin s' = fin s" "length (stream s') \<le> length (stream s)"
    "fin s \<noteq> Failed \<Longrightarrow> \<exists>j. r = of_nat j \<and> j \<le> length (stream s) \<and> j \<le> n"
    using assms b wait_data_stream [OF w] unfolding recv_def w
    by (auto simp: stream_def split: ending.splits if_splits intro: exI [of _ 0] exI [of _ "min n (length b)"])
qed

lemma of_nat_less_64: "a < 2 ^ 64 \<Longrightarrow> b < 2 ^ 64 \<Longrightarrow> (of_nat a :: 64 word) < of_nat b \<longleftrightarrow> a < b"
  by (simp add: word_less_nat_alt unat_of_nat)

lemma read_loop_short:
  assumes "length (stream s) < n" "fin s \<noteq> Failed" "n < 2 ^ 64" "nread < of_nat n"
  shows "read_loop n peek nread buf s = None"
proof -
  let ?P = "\<lambda>n (peek :: bool) (nread :: 64 word) (buf :: byte list) s (y :: byte list \<times> sock).
    length (stream s) < n \<longrightarrow> fin s \<noteq> Failed \<longrightarrow> n < 2 ^ 64 \<longrightarrow> \<not> nread < of_nat n"
  have "?P n peek nread buf s y" if y: "read_loop n peek nread buf s = Some y" for y
  proof (rule read_loop.raw_induct [where P = ?P, OF _ y], intro impI notI)
    fix f n peek nread buf s and y :: "byte list \<times> sock"
    assume IH: "\<And>n peek nread buf s y. f n peek nread buf s = Some y \<Longrightarrow> ?P n peek nread buf s y"
      and body: "(if nread < of_nat n then Option.bind (recv n peek s) (\<lambda>(d, nread, s).
        f n peek nread (d @ drop (length d) buf) s) else Some (buf, s)) = Some y"
      and short: "length (stream s) < n" and nf: "fin s \<noteq> Failed" and small: "n < 2 ^ 64" and less: "nread < of_nat n"
    from body less obtain d r s' where r: "recv n peek s = Some (d, r, s')"
      "f n peek r (d @ drop (length d) buf) s' = Some y" by (auto split: bind_splits)
    note rb = recv_bounds [OF r(1)]
    obtain j where j: "r = of_nat j" "j < n" using rb(3) [OF nf] short by auto
    then have "r < of_nat n" using small by (simp add: of_nat_less_64)
    with IH [OF r(2)] rb(1,2) short nf small show False by simp
  qed
  with assms show ?thesis by (cases "read_loop n peek nread buf s") auto
qed

section \<open>Properties of the receivers\<close>

text \<open>
  C6. Messages that have arrived are received in order and complete: on a socket whose buffer
  starts with any sequence of messages of all seven kinds, as many calls of \<open>receive_pdu\<close> return
  the PDU of each and leave the bytes behind them (and the segments still to come) unread.
\<close>

theorem messages_received:
  assumes "\<forall>msg \<in> set msgs. message_ok msg \<and> (\<forall>op. msg \<noteq> Request (Unknown op))"
    "inbuf s = concat (map wire msgs) @ rest" "length stack = HEADERSIZE"
  shows "\<exists>s'. receive_n stack sock (length msgs) s = Some (map (pdu_of sock) msgs, s') \<and>
    stream s' = rest @ concat (segs s) \<and> fin s' = fin s"
proof -
  have "buffered s (concat (map wire msgs) @ []) (rest @ concat (segs s))"
    using assms(2) by (simp add: buffered_def stream_def)
  from messages.receive_all [OF _ this, of stack sock] assms(1,3) show ?thesis by (auto simp: buffered_def)
qed

theorem messages_received_witness:
  "\<exists>s'. receive_n [0, 0, 0, 0] 5 3 \<lparr>inbuf = wire (MJoin [72]) @ wire (Request (Get [75])) @ wire MQuit @ [1],
      segs = [[2]], fin = Open\<rparr> =
      Some ([pdu_of 5 (MJoin [72]), pdu_of 5 (Request (Get [75])), pdu_of 5 MQuit], s') \<and>
    stream s' = [1, 2] \<and> fin s' = Open"
  using messages_received [of "[MJoin [72], Request (Get [75]), MQuit]"
      "\<lparr>inbuf = wire (MJoin [72]) @ wire (Request (Get [75])) @ wire MQuit @ [1], segs = [[2]], fin = Open\<rparr>" "[1]"
      "[0, 0, 0, 0]" 5]
  by (simp del: wire.simps pdu_of.simps receive_n.simps add: numeral_3_eq_3 stream_def)

text \<open>
  C36. A GET or DELETE message of which a part is still missing when the loop first reads is lost, and the receiver with it.
  The first part, already there, has at least the four bytes of the header; the rest comes after the
  look at the header and the first call of \<open>recv\<close> in the loop; behind it the connection stays silent or is shut down in order. As
  the loops replace \<open>nread\<close> by the result of the last call instead of adding to it, \<open>receive_pdu\<close> then never returns.
  A message cut inside its header, or of which both parts are there in time, is received like any other, and with a connection that
  fails the part that came is delivered: see \<open>messages_received\<close> and \<open>failed_connection_delivers_truncated\<close>.
\<close>

theorem split_message_never_returns:
  assumes "op \<in> {GET, DELETE}" "first @ second = wire_key op k" "length k \<le> KEY_SIZE"
    "HEADERSIZE \<le> length first" "second \<noteq> []" "fin s \<noteq> Failed" "length stack = HEADERSIZE"
    "inbuf s = first" "segs s = [[], [], second]"
  shows "receive_pdu stack sock s = None"
proof -
  have len: "length first + length second = HEADERSIZE + KEY_SIZE"
    using arg_cong [OF assms(2), where f = length] assms(3) by (simp add: length_wire_key)
  have ne: "first \<noteq> []" using assms(4) by auto
  have hd: "hd first = op" using arg_cong [OF assms(2), where f = hd] ne by (simp add: wire_key_def)
  have short: "length first < HEADERSIZE + KEY_SIZE" "length second < HEADERSIZE + KEY_SIZE"
    using len ne assms(5) by (cases first; cases second; simp)+
  let ?s1 = "\<lparr>inbuf = first, segs = [[], second], fin = fin s\<rparr>"
  let ?s2 = "\<lparr>inbuf = [], segs = [second], fin = fin s\<rparr>"
  have r1: "recv HEADERSIZE True s = Some (take HEADERSIZE first, of_nat HEADERSIZE, ?s1)"
    using ne assms(4,8,9) by (cases s) (simp add: recv_def)
  have r2: "recv (HEADERSIZE + KEY_SIZE) False ?s1 = Some (first, of_nat (length first), ?s2)"
    using ne short by (simp add: recv_def)
  have n: "(of_nat (length first) :: 64 word) < of_nat (HEADERSIZE + KEY_SIZE)"
    using short by (subst of_nat_less_64) simp_all
  have "read_loop (HEADERSIZE + KEY_SIZE) False (of_nat (length first)) buf ?s2 = None" for buf
    using short n assms(6) by (intro read_loop_short) (simp_all add: stream_def)
  then have "read_loop (HEADERSIZE + KEY_SIZE) False 0 buf ?s1 = None" for buf
    using r2 by (subst read_loop.simps) simp
  moreover have "receive_pdu stack sock s = read_exactly sock op ?s1"
    using r1 assms(7) ne hd unfolding receive_pdu_def
    by (subst receive_loop.simps) (simp, subst receive_loop.simps, simp add: hd_append)
  ultimately show ?thesis using assms(1)
    by (auto simp: read_exactly_def received_def read_GET_def read_DELETE_def)
qed

theorem split_message_never_returns_witness:
  "receive_pdu [0, 0, 0, 0] 5 \<lparr>inbuf = take 10 (wire_key GET [75]), segs = [[], [], drop 10 (wire_key GET [75])],
    fin = Open\<rparr> = None"
  by (rule split_message_never_returns [of GET "take 10 (wire_key GET [75])" "drop 10 (wire_key GET [75])" "[75]"])
    (simp_all add: length_wire_key)

text \<open>
  A connection that fails in the middle of a GET or DELETE message delivers the part that
  came, filled up with NULs, as a complete PDU: \<open>recv\<close>'s \<open>-1\<close> in the \<open>size_t\<close> ends the loop.
\<close>

theorem failed_connection_delivers_truncated:
  assumes "op \<in> {GET, DELETE}" "first @ second = wire_key op k" "length k \<le> KEY_SIZE"
    "HEADERSIZE \<le> length first" "second \<noteq> []" "length stack = HEADERSIZE"
  shows "receive_pdu stack sock \<lparr>inbuf = first, segs = [], fin = Failed\<rparr> =
    Some (Received \<lparr>OP_code = op, data_bytes = 68, data = Buffer (first @ replicate (length second) 0)\<rparr>,
      \<lparr>inbuf = [], segs = [], fin = Failed\<rparr>)"
proof -
  have len: "length first + length second = HEADERSIZE + KEY_SIZE"
    using arg_cong [OF assms(2), where f = length] assms(3) by (simp add: length_wire_key)
  have ne: "first \<noteq> []" using assms(4) by auto
  have hd: "hd first = op" using arg_cong [OF assms(2), where f = hd] ne by (simp add: wire_key_def)
  have short: "length first < HEADERSIZE + KEY_SIZE" using len assms(5) by (cases second) simp_all
  let ?s = "\<lparr>inbuf = first, segs = [], fin = Failed\<rparr>" and ?e = "\<lparr>inbuf = [], segs = [], fin = Failed\<rparr>"
  have r1: "recv HEADERSIZE True ?s = Some (take HEADERSIZE first, of_nat HEADERSIZE, ?s)"
    using ne assms(4) by (simp add: recv_def)
  have r2: "recv (HEADERSIZE + KEY_SIZE) False ?s = Some (first, of_nat (length first), ?e)"
    using ne short by (simp add: recv_def)
  have r3: "recv (HEADERSIZE + KEY_SIZE) False ?e = Some ([], - 1, ?e)" by (simp add: recv_def)
  have n: "(of_nat (length first) :: 64 word) < of_nat (HEADERSIZE + KEY_SIZE)"
    using short by (subst of_nat_less_64) simp_all
  have "read_loop (HEADERSIZE + KEY_SIZE) False (of_nat (length first)) buf ?e = Some (buf, ?e)" for buf
    using r3 n by (subst read_loop.simps) (simp add: read_loop_done)
  then have rl: "read_loop (HEADERSIZE + KEY_SIZE) False 0 buf ?s = Some (first @ drop (length first) buf, ?e)" for buf
    using r2 by (subst read_loop.simps) simp
  have "receive_pdu stack sock ?s = read_exactly sock op ?s"
    using r1 assms(6) ne hd unfolding receive_pdu_def
    by (subst receive_loop.simps) (simp, subst receive_loop.simps, simp add: hd_append)
  moreover have "HEADERSIZE + KEY_SIZE - length first = length second" using len by simp
  ultimately show ?thesis using assms(1)
    by (auto simp: read_exactly_def received_def read_GET_def read_DELETE_def rl [simplified])
qed

theorem failed_connection_delivers_truncated_witness:
  "receive_pdu [0, 0, 0, 0] 5 \<lparr>inbuf = take 4 (wire_key DELETE [75]), segs = [], fin = Failed\<rparr> =
    Some (Received \<lparr>OP_code = DELETE, data_bytes = 68, data = Buffer
      (take 4 (wire_key DELETE [75]) @ replicate (length (drop 4 (wire_key DELETE [75]))) 0)\<rparr>,
      \<lparr>inbuf = [], segs = [], fin = Failed\<rparr>)"
  by (rule failed_connection_delivers_truncated [of DELETE _ "drop 4 (wire_key DELETE [75])" "[75]"])
    (simp_all add: length_wire_key)

text \<open>
  The size of an INSERT wraps: a value of 65468 bytes or more makes the 16-bit sum in
  \<open>read_INSERT\<close> overflow, so only the first few bytes of the message are delivered and the rest
  of it stays in the stream, where the next call takes it for the next message.
\<close>

theorem insert_size_wraps:
  assumes "length k \<le> KEY_SIZE" "2 ^ 16 \<le> HEADERSIZE + KEY_SIZE + length v" "length v < 2 ^ 16"
    "inbuf s = wire_insert k v @ rest" "length stack = HEADERSIZE"
    "n = HEADERSIZE + KEY_SIZE + length v - 2 ^ 16"
  shows "\<exists>s'. receive_pdu stack sock s =
      Some (Received \<lparr>OP_code = INSERT, data_bytes = of_nat n, data = Buffer (take n (wire_insert k v))\<rparr>, s') \<and>
    stream s' = drop n (wire_insert k v) @ rest @ concat (segs s)"
proof -
  let ?m = "of_nat (length v) :: u16" and ?b = "pad KEY_SIZE k @ v"
  have w: "wire_insert k v = INSERT # le16 ?m @ [0] @ ?b" by (simp add: wire_insert_def)
  have st: "stream s = (INSERT # le16 ?m @ [0] @ ?b) @ rest @ concat (segs s)"
    using assms(4) by (simp add: stream_def w)
  have "HEADERSIZE \<le> length (inbuf s)" using assms(1,4) by (simp add: length_wire_insert)
  from receive_pdu_header [OF this assms(5), of sock] obtain s1 where
    s1: "receive_pdu stack sock s = read_exactly sock INSERT s1" "stream s1 = stream s"
      "length (inbuf s) \<le> length (inbuf s1)" by (auto simp: st)
  have b: "buffered s1 (INSERT # le16 ?m @ [0] @ ?b) (rest @ concat (segs s))"
    using s1(2,3) assms(4) st by (simp add: buffered_def w)
  have "unat (of_nat (length v + 68) :: u16) = (length v + 68) mod 2 ^ 16"
    by (simp only: unat_of_nat) simp
  also have "\<dots> = n"
    using assms(2,3,6) by (simp add: mod_if)
  finally have n: "unat (?m + 68) = n" by simp
  then have m: "?m + 68 = of_nat n" by (simp add: of_nat_eq_unat)
  have nu: "unat (of_nat n :: u16) = n" using n unfolding m .
  have "unat (?m + 68) \<le> 4 + length ?b" using assms(1,3,6) by (simp only: n) simp
  from read_INSERT_buffered [OF b this] obtain s2 where
    "read_INSERT s1 = Some (\<lparr>OP_code = INSERT, data_bytes = of_nat n, data = Buffer (take n (wire_insert k v))\<rparr>, s2)"
    "buffered s2 (drop n (wire_insert k v)) (rest @ concat (segs s))" by (auto simp only: nu m w)
  with s1(1) show ?thesis by (simp add: read_exactly_def received_def buffered_def)
qed

theorem insert_size_wraps_witness:
  "\<exists>s'. receive_pdu [0, 0, 0, 0] 5 \<lparr>inbuf = wire_insert [75] (replicate 65500 86) @ [], segs = [], fin = Open\<rparr> =
      Some (Received \<lparr>OP_code = INSERT, data_bytes = of_nat (32 :: nat),
        data = Buffer (take 32 (wire_insert [75] (replicate 65500 86)))\<rparr>, s') \<and>
    stream s' = drop 32 (wire_insert [75] (replicate 65500 86)) @ [] @ concat []"
  using insert_size_wraps [of "[75]" "replicate 65500 86"
      "\<lparr>inbuf = wire_insert [75] (replicate 65500 86) @ [], segs = [], fin = Open\<rparr>" "[]" "[0, 0, 0, 0]" 32 5]
  by (simp del: replicate.simps)

end
