(* ===== verification/ServerProps.thy ===== *)
theory ServerProps
  imports Server StoreProps SockProps
begin

text \<open>
  The server as a whole: clients, netlink buffers, kernel module and store file together
  implement the abstract store, and the messages with which a client breaks the server.
\<close>

section \<open>The server's invariant\<close>

definition server_ok :: "('h \<Rightarrow> rhash_object set) \<Rightarrow> 'h system \<Rightarrow> store \<Rightarrow> bool" where
  "server_ok objs s m \<longleftrightarrow> represents objs (module s) m \<and> mirrors (store_file s) m \<and>
     length (nl_send_buf s) = MAX_PAYLOAD \<and> length (nl_receive_buf s) = MAX_PAYLOAD \<and>
     replies (module s) = [] \<and> (\<forall>k v. m k = Some v \<longrightarrow> length v + HEADERSIZE \<le> MAX_PAYLOAD)"

text \<open>The PDU in which a request waits in the queue, and the requests that fit the netlink buffer.\<close>

definition request_pdu :: "request \<Rightarrow> byte list PDU_struct" where
  "request_pdu r = \<lparr>OP_code = hd (encode r), data_bytes = of_nat (length (encode r)), data = encode r\<rparr>"

definition fits :: "request \<Rightarrow> bool" where
  "fits r \<longleftrightarrow> text_request r \<and> length (encode r) \<le> MAX_PAYLOAD"

lemma fits_valid: "fits r \<Longrightarrow> valid_request r"
proof (cases r)
  case (Insert s w)
  assume "fits r"
  with Insert have "plain (butlast w)" "w \<noteq> []" "last w = 0" "key_text s" "length w < 2 ^ 16"
    by (auto simp: fits_def)
  with Insert show ?thesis by (auto simp: key_text_def plain_def)
qed (auto simp: fits_def key_text_def plain_def)

lemma fits_length: "fits r \<Longrightarrow> unat (of_nat (length (encode r)) :: u16) = length (encode r)"
  by (simp only: unat_of_nat fits_def) simp

text \<open>Answers are short enough for the netlink buffer.\<close>

lemma answer_length:
  "kv_step m r a m' \<Longrightarrow> \<forall>k v. m k = Some v \<longrightarrow> length v + HEADERSIZE \<le> MAX_PAYLOAD \<Longrightarrow>
   length a + HEADERSIZE \<le> MAX_PAYLOAD"
  by (induction rule: kv_step.induct) auto

lemma step_keeps_short:
  "kv_step m r a m' \<Longrightarrow> fits r \<Longrightarrow> \<forall>k v. m k = Some v \<longrightarrow> length v + HEADERSIZE \<le> MAX_PAYLOAD \<Longrightarrow>
   \<forall>k v. m' k = Some v \<longrightarrow> length v + HEADERSIZE \<le> MAX_PAYLOAD"
proof (induction rule: kv_step.induct)
  case (insert_new m s v)
  then have "length v + HEADERSIZE \<le> MAX_PAYLOAD"
    by (auto simp: fits_def wire_insert_def key_text_def)
  with insert_new show ?case by auto
qed (auto split: if_splits)

lemma nlmsg_put_message:
  assumes "length d \<le> length b"
  shows "nlmsg_put b d (length d) = Inr (d @ drop (length d) b)"
  using assms by (simp add: nlmsg_put_def)

lemma length_reply: "length (reply junk a) = length a + HEADERSIZE"
  by (simp add: reply_def)

lemma read_reply:
  assumes "length a + HEADERSIZE \<le> MAX_PAYLOAD"
  shows "read_exactly_from_kernel (reply junk a @ z) =
    Inr \<lparr>OP_code = KERNEL, data_bytes = of_nat (length (reply junk a)), data = reply junk a\<rparr>"
  using read_exactly_from_kernel_ok [of "reply junk a @ z" KERNEL "of_nat (length a)" junk a z] assms
  by (simp add: reply_def unat_of_nat)

lemma send_all_sent:
  assumes "unat (data_bytes pdu) = length (data pdu)"
  shows "send_all socks pdu s = Inr (s\<lparr>sent := sent s @ map (\<lambda>sock. (sock, data pdu)) socks\<rparr>)"
  by (induction socks arbitrary: s) (simp_all add: send_pdu_def assms)

section \<open>One exchange with the module, one round of the loop\<close>

lemma nl_exchange_serves:
  assumes ht: "rhashtable ops objs" and rep: "represents objs (module s) m" and emp: "replies (module s) = []"
    and buf: "length (nl_send_buf s) = MAX_PAYLOAD" and v: "valid_request r" and len: "length (encode r) \<le> MAX_PAYLOAD"
    and mem: "6 \<le> kavail (module s)"
  shows "\<exists>k' a m'. nl_exchange ops junk (encode r) (length (encode r)) s = Some (Inr
      (s\<lparr>nl_send_buf := encode r @ drop (length (encode r)) (nl_send_buf s),
         nl_receive_buf := take MAX_PAYLOAD (reply junk a) @ drop (length (reply junk a)) (nl_receive_buf s),
         module := k'\<rparr>)) \<and>
    kv_step m r a m' \<and> represents objs k' m' \<and> replies k' = [] \<and> kavail (module s) \<le> kavail k' + 5"
proof -
  define z where "z = drop (length (encode r)) (nl_send_buf s)"
  have put: "nlmsg_put (nl_send_buf s) (encode r) (length (encode r)) = Inr (encode r @ z)"
    unfolding z_def by (rule nlmsg_put_message) (simp add: buf len)
  have q: "safe_request (encode r @ z)" "request_of (encode r @ z) = r"
    using valid_encode_safe [OF v] valid_encode_request_of [OF v] by auto
  from rhashtable.handle_serves [OF ht q(1) rep mem, of junk] obtain k a m' where
    k: "handle ops junk (encode r @ z) (module s) = Inr k" "kv_step m r a m'" "represents objs k m'"
      "replies k = [reply junk a]" "kavail (module s) \<le> kavail k + 5"
    unfolding q(2) emp by auto
  let ?k = "k\<lparr>replies := []\<rparr>"
  have "nl_exchange ops junk (encode r) (length (encode r)) s = Some (Inr
      (s\<lparr>nl_send_buf := encode r @ z,
         nl_receive_buf := take MAX_PAYLOAD (reply junk a) @ drop (length (reply junk a)) (nl_receive_buf s),
         module := ?k\<rparr>))"
    unfolding nl_exchange_def put bind_b_simps using k(1,4) by (simp add: sendmsg_def recvmsg_def)
  with k show ?thesis unfolding z_def by (intro exI [of _ ?k] exI [of _ a] exI [of _ m']) simp
qed

definition answer_message :: "byte \<Rightarrow> byte list \<Rightarrow> byte list PDU_struct" where
  "answer_message junk a = \<lparr>OP_code = KERNEL, data_bytes = of_nat (length (reply junk a)), data = reply junk a\<rparr>"

lemma nl_exchange_append:
  "nl_exchange ops junk (d @ z) (length d) s = nl_exchange ops junk d (length d) s"
  by (simp add: nl_exchange_def nlmsg_put_def)

lemma exchange_round:
  assumes ht: "rhashtable ops objs" and ok: "server_ok objs s m" and f: "fits r" and mem: "6 \<le> kavail (module s)"
  shows "\<exists>s' a m' f'. nl_exchange ops junk (encode r) (length (encode r)) s = Some (Inr s') \<and>
    read_exactly_from_kernel (nl_receive_buf s') = Inr (answer_message junk a) \<and>
    store_data (encode r @ z) (reply junk a) (store_file s') = Inr f' \<and>
    kv_step m r a m' \<and> server_ok objs (s'\<lparr>store_file := f'\<rparr>) m' \<and> length a + HEADERSIZE \<le> MAX_PAYLOAD \<and>
    sender_list s' = sender_list s \<and> clients_sockets s' = clients_sockets s \<and> sent s' = sent s \<and>
    kavail (module s) \<le> kavail (module s') + 5"
proof -
  have rep: "represents objs (module s) m" "replies (module s) = []" "length (nl_send_buf s) = MAX_PAYLOAD" and
    mir: "mirrors (store_file s) m" and rb: "length (nl_receive_buf s) = MAX_PAYLOAD" and
    sh: "\<forall>k v. m k = Some v \<longrightarrow> length v + HEADERSIZE \<le> MAX_PAYLOAD"
    using ok by (auto simp: server_ok_def)
  have len: "length (encode r) \<le> MAX_PAYLOAD" using f by (simp add: fits_def)
  from nl_exchange_serves [OF ht rep fits_valid [OF f] len mem, of junk] obtain k' a m' where
    ex: "nl_exchange ops junk (encode r) (length (encode r)) s = Some (Inr
      (s\<lparr>nl_send_buf := encode r @ drop (length (encode r)) (nl_send_buf s),
         nl_receive_buf := take MAX_PAYLOAD (reply junk a) @ drop (length (reply junk a)) (nl_receive_buf s),
         module := k'\<rparr>))" (is "_ = Some (Inr ?s1)") and
    st: "kv_step m r a m'" "represents objs k' m'" "replies k' = []" "kavail (module s) \<le> kavail k' + 5" by auto
  have al: "length a + HEADERSIZE \<le> MAX_PAYLOAD" by (rule answer_length [OF st(1) sh])
  define y where "y = drop (length (reply junk a)) (nl_receive_buf s)"
  have rl: "nl_receive_buf ?s1 = reply junk a @ y" using al by (simp add: y_def length_reply)
  have rd: "read_exactly_from_kernel (nl_receive_buf ?s1) = Inr (answer_message junk a)"
    unfolding rl answer_message_def by (rule read_reply [OF al])
  obtain f' where f': "store_data (encode r @ z) (reply junk a) (store_file s) = Inr f'" "mirrors f' m'"
    using store_step_mirrors [OF mir st(1), of z junk] f by (auto simp: fits_def)
  have "length y = MAX_PAYLOAD - length (reply junk a)" by (simp add: y_def rb)
  then have "length (nl_receive_buf ?s1) = MAX_PAYLOAD" unfolding rl using al by (simp add: length_reply)
  moreover have "length (nl_send_buf ?s1) = MAX_PAYLOAD" using rep(3) len by simp
  ultimately have "server_ok objs (?s1\<lparr>store_file := f'\<rparr>) m'"
    using st f'(2) step_keeps_short [OF st(1) f sh] unfolding server_ok_def by simp
  with ex rd f'(1) st al show ?thesis
    by (intro exI [of _ ?s1] exI [of _ a] exI [of _ m'] exI [of _ f']) simp
qed

lemma kernel_round:
  assumes ht: "rhashtable ops objs" and ok: "server_ok objs s m" and f: "fits r"
    and q: "sender_list s = request_pdu r # rs" and mem: "6 \<le> kavail (module s)"
  shows "\<exists>s' a m'. kernel_communication ops junk s = Some (Inr s') \<and> kv_step m r a m' \<and> server_ok objs s' m' \<and>
    sender_list s' = rs \<and> clients_sockets s' = clients_sockets s \<and>
    sent s' = sent s @ map (\<lambda>sock. (sock, reply junk a)) (clients_sockets s) \<and>
    kavail (module s) \<le> kavail (module s') + 5"
proof -
  let ?s = "s\<lparr>sender_list := rs\<rparr>"
  have "server_ok objs ?s m" "6 \<le> kavail (module ?s)" using ok mem by (simp_all add: server_ok_def)
  from exchange_round [OF ht this(1) f this(2), of junk "[0]"] obtain s1 a m' f' where
    x: "nl_exchange ops junk (encode r @ [0]) (length (encode r)) ?s = Some (Inr s1)"
      "read_exactly_from_kernel (nl_receive_buf s1) = Inr (answer_message junk a)"
      "store_data (encode r @ [0]) (reply junk a) (store_file s1) = Inr f'" and
    st: "kv_step m r a m'" "server_ok objs (s1\<lparr>store_file := f'\<rparr>) m'" "length a + HEADERSIZE \<le> MAX_PAYLOAD"
      "sender_list s1 = rs" "clients_sockets s1 = clients_sockets s" "sent s1 = sent s"
      "kavail (module s) \<le> kavail (module s1) + 5" by (auto simp: nl_exchange_append)
  have rem: "removed_PDU (request_pdu r) = Inr ((request_pdu r)\<lparr>data := encode r @ [0]\<rparr>)"
    unfolding removed_PDU_def by (simp add: request_pdu_def fits_length [OF f])
  have u: "unat (data_bytes (answer_message junk a)) = length (data (answer_message junk a))"
    using st(3) by (simp only: answer_message_def PDU_struct.select_convs unat_of_nat length_reply) simp
  have "kernel_communication ops junk s = Some (Inr (s1\<lparr>store_file := f',
      sent := sent s @ map (\<lambda>sock. (sock, reply junk a)) (clients_sockets s)\<rparr>))"
    unfolding kernel_communication_def q list.case rem bind_b_simps
    unfolding request_pdu_def PDU_struct.simps fits_length [OF f] x(1) bind_b_simps x(2)
    using x(3) by (simp add: send_all_sent [OF u] st(5,6)) (simp add: answer_message_def)
  with st show ?thesis by (auto simp: server_ok_def)
qed

section \<open>Whole runs\<close>

lemma serve_queue_run:
  assumes ht: "rhashtable ops objs"
  shows "server_ok objs s m \<Longrightarrow> sender_list s = map request_pdu rs \<Longrightarrow> \<forall>r \<in> set rs. fits r \<Longrightarrow>
    5 * length rs < kavail (module s) \<Longrightarrow>
    \<exists>s' as m'. serve_queue ops junk (length rs) s = Some (Inr s') \<and> kv_run m rs as m' \<and> server_ok objs s' m' \<and>
      sender_list s' = [] \<and> sent s' = sent s @
        concat (map (\<lambda>a. map (\<lambda>sock. (sock, reply junk a)) (clients_sockets s)) as)"
proof (induction rs arbitrary: s m)
  case (Cons r rs)
  have q: "sender_list s = request_pdu r # map request_pdu rs" and f: "fits r" and mem: "6 \<le> kavail (module s)"
    using Cons.prems by auto
  from kernel_round [OF ht Cons.prems(1) f q mem, of junk] obtain s1 a m1 where
    s1: "kernel_communication ops junk s = Some (Inr s1)" "kv_step m r a m1" "server_ok objs s1 m1"
      "sender_list s1 = map request_pdu rs" "clients_sockets s1 = clients_sockets s"
      "sent s1 = sent s @ map (\<lambda>sock. (sock, reply junk a)) (clients_sockets s)"
      "kavail (module s) \<le> kavail (module s1) + 5" by blast
  have "5 * length rs < kavail (module s1)" using s1(7) Cons.prems(4) by simp
  from Cons.IH [OF s1(3,4) _ this] Cons.prems(3) obtain s' as m' where
    "serve_queue ops junk (length rs) s1 = Some (Inr s')" "kv_run m1 rs as m'" "server_ok objs s' m'"
    "sender_list s' = []" "sent s' = sent s1 @
        concat (map (\<lambda>a. map (\<lambda>sock. (sock, reply junk a)) (clients_sockets s1)) as)" by auto
  with s1 show ?case by (intro exI [of _ s'] exI [of _ "a # as"] exI [of _ m']) auto
qed simp

fun queue_all :: "received list \<Rightarrow> 'h system \<Rightarrow> 'h system res" where
  "queue_all [] s = Inr s"
| "queue_all (r # rs) s = bind_r (client_pdu r s) (queue_all rs)"

lemma client_pdu_request:
  assumes "fits r"
  shows "client_pdu (pdu_of sock (Request r)) s = Inr (s\<lparr>sender_list := sender_list s @ [request_pdu r]\<rparr>)"
  using assms by (cases r) (auto simp: client_pdu_def request_pdu_def fits_def wire_insert_def wire_key_def)

lemma queue_all_requests:
  "\<forall>r \<in> set rs. fits r \<Longrightarrow> queue_all (map (pdu_of sock) (map Request rs)) s =
    Inr (s\<lparr>sender_list := sender_list s @ map request_pdu rs\<rparr>)"
  by (induction rs arbitrary: s) (simp_all add: client_pdu_request)

lemma fits_message_ok: "fits r \<Longrightarrow> message_ok (Request r) \<and> (\<forall>op. Request r \<noteq> Request (Unknown op))"
  by (cases r) (auto simp: fits_def key_text_def wire_insert_def)

lemma receive_requests:
  assumes "\<forall>r \<in> set rs. fits r" "length stack = HEADERSIZE" "inbuf c = concat (map encode rs) @ rest"
  shows "\<exists>c'. receive_n stack sock (length rs) c = Some (map (pdu_of sock) (map Request rs), c')"
proof -
  have ok: "\<forall>msg \<in> set (map Request rs).
      message_ok msg \<and> (\<forall>op. msg \<noteq> Request (Unknown op)) \<and> length stack = HEADERSIZE"
    using assms(1,2) fits_message_ok by auto
  have "wire \<circ> Request = encode" by auto
  then have "buffered c (concat (map wire (map Request rs)) @ []) (rest @ concat (segs c))"
    using assms(3) by (simp add: buffered_def stream_def)
  from messages.receive_all [OF ok this, of sock] show ?thesis by auto
qed

section \<open>Restarting\<close>

lemma line_struct_entry:
  assumes "key_text k" "plain v" "length v + 2 < 2 ^ 16"
  shows "line_struct ((k @ [colon] @ v @ [newline]) @ [0]) = Inr \<lparr>INSERT_op = INSERT,
    INSERT_key = k @ 0 # replicate (KEY_SIZE - 1 - length k) 0, INSERT_bytes = of_nat (length v + 2),
    INSERT_data = (v @ [newline, 0]) @ []\<rparr>"
proof -
  have k: "nul_free k" "colon \<notin> set k" "k \<noteq> []" "length k < KEY_SIZE"
    using assms(1) by (auto simp: key_text_def plain_def)
  have v: "nul_free (v @ [newline])" "colon \<notin> set (v @ [newline])" "v @ [newline] \<noteq> []"
    using assms(2) by (auto simp: plain_def)
  have t1: "c_strtok ((k @ [colon] @ v @ [newline]) @ [0]) = Inr (Some (k, (v @ [newline]) @ 0 # []))"
    using strtok_colon [OF k(1-3), of "v @ [newline, 0]"] by simp
  have "KEY_SIZE - length k = Suc (KEY_SIZE - 1 - length k)" using k(4) by simp
  then have c: "c_strncpy k KEY_SIZE = k @ 0 # replicate (KEY_SIZE - 1 - length k) 0"
    using k(4) unfolding c_strncpy_def by (simp only: replicate_Suc) simp
  have u: "unat (of_nat (length (v @ [newline]) + 1) :: u16) = length v + 2"
    using assms(3) by (simp only: unat_of_nat) simp
  show ?thesis
    unfolding line_struct_def t1 bind_r_Inr option.case prod.case Let_def strtok_nul [OF v] c u
    by (simp add: c_strncpy_def)
qed

lemma send_entry:
  assumes "key_text k" "plain v" "length v + 2 + HEADERSIZE + KEY_SIZE \<le> MAX_PAYLOAD"
  shows "send_lines_over exchange ((k @ [colon] @ v @ [newline]) # ls) s =
    bind_b (exchange (encode (Insert k (v @ [newline, 0])))
      (length (encode (Insert k (v @ [newline, 0])))) s) (send_lines_over exchange ls)"
proof -
  let ?v = "v @ [newline, 0]" and ?n = "of_nat (length v + 2) :: u16"
  have k: "nul_free k" "length k < KEY_SIZE" using assms(1) by (auto simp: key_text_def plain_def)
  have n: "unat ?n = length ?v" using assms(3) by (simp only: unat_of_nat) simp
  have b: "create_INSERT_buffer \<lparr>INSERT_op = INSERT, INSERT_key = k @ 0 # replicate (KEY_SIZE - 1 - length k) 0,
      INSERT_bytes = ?n, INSERT_data = ?v @ []\<rparr> = Inr (wire_insert k ?v)"
    by (rule create_INSERT_buffer_ok [OF k n])
  have l: "length (wire_insert k ?v) = length v + 70" using k by (simp add: length_wire_insert)
  have "?n + of_nat HEADERSIZE + of_nat KEY_SIZE = (of_nat (length v + 70) :: u16)" by simp
  then have u: "unat (?n + of_nat HEADERSIZE + of_nat KEY_SIZE) = length (wire_insert k ?v)"
    unfolding l using assms(3) by (simp only: unat_of_nat) simp
  have "length v + 2 < 2 ^ 16" using assms(3) by simp
  note ls = line_struct_entry [OF assms(1,2) this]
  have c: "colon \<in> set (upto_nul (k @ [colon] @ v @ [newline]))"
    using assms(1,2) by (subst entry_line(1)) (auto simp: key_text_def)
  show ?thesis
    unfolding send_lines_over.simps ls bind_b_simps INSERT_struct.select_convs b Let_def u encode.simps using c by simp
qed

definition reloaded :: "byte list \<times> byte list \<Rightarrow> request" where
  "reloaded e = Insert (fst e) (snd e @ [newline, 0])"

lemma reloaded_eq: "map reloaded es = map (\<lambda>(k, v). Insert k (v @ [newline, 0])) es"
  by (simp add: reloaded_def case_prod_beta)

text \<open>
  What the start of the server needs of the exchange with the module: every request it passes on is
  carried out, and INIT makes a fresh module empty.
\<close>

definition carries_out :: "(byte list \<Rightarrow> nat \<Rightarrow> 'h system \<Rightarrow> 'h system res option) \<Rightarrow> ('h \<Rightarrow> rhash_object set) \<Rightarrow>
    request \<Rightarrow> nat \<Rightarrow> 'h system \<Rightarrow> (store \<Rightarrow> bool) \<Rightarrow> bool" where
  "carries_out exchange objs r n s P \<longleftrightarrow> (\<exists>s' m'. exchange (encode r) (length (encode r)) s = Some (Inr s') \<and> P m' \<and>
     represents objs (module s') m' \<and> replies (module s') = [] \<and> length (nl_send_buf s') = MAX_PAYLOAD \<and>
     kavail (module s) \<le> kavail (module s') + n \<and> store_file s' = store_file s)"

locale module_exchange =
  fixes exchange :: "byte list \<Rightarrow> nat \<Rightarrow> 'h system \<Rightarrow> 'h system res option" and objs :: "'h \<Rightarrow> rhash_object set"
  assumes serves: "represents objs (module s) m \<Longrightarrow> replies (module s) = [] \<Longrightarrow> length (nl_send_buf s) = MAX_PAYLOAD \<Longrightarrow>
      valid_request r \<Longrightarrow> length (encode r) \<le> MAX_PAYLOAD \<Longrightarrow> 6 \<le> kavail (module s) \<Longrightarrow>
      carries_out exchange objs r 5 s (\<lambda>m'. \<exists>a. kv_step m r a m')"
    and starts: "\<not> hashtable_initialized (module s) \<Longrightarrow> nl_sk_send (module s) \<Longrightarrow> wq (module s) = [] \<Longrightarrow>
      replies (module s) = [] \<Longrightarrow> 4 \<le> kavail (module s) \<Longrightarrow> length (nl_send_buf s) = MAX_PAYLOAD \<Longrightarrow>
      carries_out exchange objs Init 3 s (\<lambda>m'. m' = Map.empty)"
begin

lemma send_lines_run:
  "represents objs (module s) m \<Longrightarrow> replies (module s) = [] \<Longrightarrow> length (nl_send_buf s) = MAX_PAYLOAD \<Longrightarrow>
   \<forall>(k, v) \<in> set es. key_text k \<and> plain v \<and> length v + 70 \<le> MAX_PAYLOAD \<Longrightarrow>
   5 * length es < kavail (module s) \<Longrightarrow>
   \<exists>s' as m'. send_lines_over exchange (map (\<lambda>(k, v). k @ [colon] @ v @ [newline]) es) s = Some (Inr s') \<and>
     kv_run m (map reloaded es) as m' \<and> represents objs (module s') m' \<and> store_file s' = store_file s"
proof (induction es arbitrary: s m rule: file_of.induct)
  case (2 k v es)
  have e: "key_text k" "plain v" "length v + 2 + HEADERSIZE + KEY_SIZE \<le> MAX_PAYLOAD" and mem: "6 \<le> kavail (module s)"
    using "2.prems" by auto
  let ?r = "Insert k (v @ [newline, 0])"
  have val: "valid_request ?r" "length (encode ?r) \<le> MAX_PAYLOAD"
    using e length_wire_insert [of k "v @ [newline, 0]"] key_textD [OF e(1)] by simp_all
  from serves [OF "2.prems"(1-3) val mem] obtain s1 m1 a where
    x: "exchange (encode ?r) (length (encode ?r)) s = Some (Inr s1)" "kv_step m ?r a m1"
      "represents objs (module s1) m1" "replies (module s1) = []" "length (nl_send_buf s1) = MAX_PAYLOAD"
      "kavail (module s) \<le> kavail (module s1) + 5" "store_file s1 = store_file s" by (auto simp: carries_out_def)
  have "\<forall>(k, v) \<in> set es. key_text k \<and> plain v \<and> length v + 70 \<le> MAX_PAYLOAD" "5 * length es < kavail (module s1)"
    using x(6) "2.prems"(4,5) by auto
  from "2.IH" [OF x(3-5) this] obtain s' as m' where
    r: "send_lines_over exchange (map (\<lambda>(k, v). k @ [colon] @ v @ [newline]) es) s1 = Some (Inr s')"
    "kv_run m1 (map reloaded es) as m'" "represents objs (module s') m'" "store_file s' = store_file s1" by blast
  have "send_lines_over exchange (map (\<lambda>(k, v). k @ [colon] @ v @ [newline]) ((k, v) # es)) s = Some (Inr s')"
    unfolding list.map prod.case send_entry [OF e] x(1) bind_b_simps by (rule r(1))
  moreover have "kv_run m (map reloaded ((k, v) # es)) (a # as) m'"
    using kv_cons [OF x(2) r(2)] by (simp only: list.map reloaded_def fst_conv snd_conv)
  moreover have "store_file s' = store_file s" using r(4) x(7) by simp
  ultimately show ?case using r(3) by blast
qed simp

lemma init_hashtable_run:
  assumes "\<forall>(k, v) \<in> set es. key_text k \<and> plain v \<and> length v + 70 \<le> MAX_PAYLOAD" "5 * length es + 4 \<le> n"
  shows "\<exists>s' as m'. init_hashtable_over exchange (start_state (file_of es) (snd (init_module True True (loaded n)))) =
      Some (Inr s') \<and>
    kv_run Map.empty (map reloaded es) as m' \<and> represents objs (module s') m' \<and> store_file s' = file_of es"
proof -
  let ?k = "snd (init_module True True (loaded n)) :: 'h kernel"
  let ?s = "start_state (file_of es) ?k"
  have k: "\<not> hashtable_initialized ?k" "nl_sk_send ?k" "wq ?k = []" "replies ?k = []" "4 \<le> kavail ?k" "kavail ?k = n"
    using assms(2) by (simp_all add: init_module_def loaded_def Let_def)
  have s: "module ?s = ?k" "length (nl_send_buf ?s) = MAX_PAYLOAD" "store_file ?s = file_of es"
    by (simp_all add: start_state_def)
  obtain s1 where x: "exchange (encode Init) (length (encode Init)) ?s = Some (Inr s1)" "represents objs (module s1) Map.empty"
    "replies (module s1) = []" "length (nl_send_buf s1) = MAX_PAYLOAD" "n \<le> kavail (module s1) + 3" "store_file s1 = file_of es"
    using starts [of ?s] k s by (auto simp: carries_out_def)
  have d: "c_write (replicate HEADERSIZE 0) 0 [INIT] = Inr (encode Init)" "length (encode Init) = HEADERSIZE"
    by (simp_all add: eval_nat_numeral)
  have g: "getlines (file_of es) = map (\<lambda>(k, v). k @ [colon] @ v @ [newline]) es"
    using assms(1) by (intro getlines_file_of) (auto simp: key_text_def)
  have "5 * length es < kavail (module s1)" using x(5) assms(2) by simp
  from send_lines_run [OF x(2-4) assms(1) this] obtain s' as m' where
    r: "send_lines_over exchange (getlines (file_of es)) s1 = Some (Inr s')"
    "kv_run Map.empty (map reloaded es) as m'" "represents objs (module s') m'" "store_file s' = store_file s1" unfolding g by blast
  have "init_hashtable_over exchange ?s = Some (Inr s')"
    unfolding init_hashtable_over_def d(1) bind_b_simps x(1) [unfolded d(2)] load_stored_values_over_def x(6) by (rule r(1))
  with r x(6) show ?thesis by auto
qed

end

lemma nl_exchange_starts:
  assumes "rhashtable ops objs" "rht_init ops = (err, t)" "0 \<le> err" "\<not> hashtable_initialized (module s)" "nl_sk_send (module s)"
    "wq (module s) = []" "replies (module s) = []" "4 \<le> kavail (module s)" "length (nl_send_buf s) = MAX_PAYLOAD"
  shows "carries_out (nl_exchange ops junk) objs Init 3 s (\<lambda>m'. m' = Map.empty)"
proof -
  have put: "nlmsg_put (nl_send_buf s) (encode Init) HEADERSIZE = Inr (INIT # [0, 0, 0] @ drop HEADERSIZE (nl_send_buf s))"
    using nlmsg_put_message [of "encode Init" "nl_send_buf s"] assms(9) by (simp add: eval_nat_numeral)
  obtain k1 where k1: "handle ops junk (INIT # [0, 0, 0] @ drop HEADERSIZE (nl_send_buf s)) (module s) = Inr k1"
    "represents objs k1 Map.empty" "replies k1 = [reply junk (c_str ''Initialized hashtable.'')]" "kavail (module s) = kavail k1 + 3"
    using handle_init [OF assms(1-6,8), of junk "[0, 0, 0] @ drop HEADERSIZE (nl_send_buf s)"] assms(7) by auto
  have l: "length (encode Init) = HEADERSIZE" by simp
  have "\<exists>rb. nl_exchange ops junk (encode Init) (length (encode Init)) s = Some (Inr
      (s\<lparr>nl_send_buf := INIT # [0, 0, 0] @ drop HEADERSIZE (nl_send_buf s), nl_receive_buf := rb, module := k1\<lparr>replies := []\<rparr>\<rparr>))"
    unfolding nl_exchange_def l put bind_b_simps using k1(1,3)
    by (intro exI [of _ "take MAX_PAYLOAD (hd (replies k1)) @ drop (length (hd (replies k1))) (nl_receive_buf s)"])
       (simp add: sendmsg_def recvmsg_def)
  with k1 assms(9) show ?thesis unfolding carries_out_def by auto
qed

lemma nl_module_exchange:
  assumes "rhashtable ops objs" "rht_init ops = (err, t)" "0 \<le> err"
  shows "module_exchange (nl_exchange ops junk) objs"
proof
  show "carries_out (nl_exchange ops junk) objs Init 3 s (\<lambda>m'. m' = Map.empty)"
    if "\<not> hashtable_initialized (module s)" "nl_sk_send (module s)" "wq (module s) = []" "replies (module s) = []"
      "4 \<le> kavail (module s)" "length (nl_send_buf s) = MAX_PAYLOAD" for s
    using nl_exchange_starts [OF assms that] .
  show "carries_out (nl_exchange ops junk) objs r 5 s (\<lambda>m'. \<exists>a. kv_step m r a m')"
    if "represents objs (module s) m" "replies (module s) = []" "length (nl_send_buf s) = MAX_PAYLOAD" "valid_request r"
      "length (encode r) \<le> MAX_PAYLOAD" "6 \<le> kavail (module s)" for s m r
    using nl_exchange_serves [OF assms(1) that, of junk] that(3,5) by (fastforce simp: carries_out_def)
qed

interpretation list_exchange: module_exchange "nl_exchange list_table junk" set for junk
  by (rule nl_module_exchange [OF list_table.rhashtable_axioms, of 0 "[]"]) (simp_all add: list_table_def)

section \<open>Properties of the server\<close>

text \<open>
  C3. The server with its clients, the netlink buffers, the kernel module and the store file
  implements the abstract store: the requests that lie in a client's socket are received, queued
  and worked off; every client is sent the answers the store gives, in order; and afterwards the
  table and the text file both hold the final store. The requests are about plain text (no NUL,
  newline or colon in the strings) and fit the netlink buffer.
\<close>

theorem server_serves_clients:
  assumes "rhashtable ops objs" "server_ok objs s m" "sender_list s = []" "\<forall>r \<in> set rs. fits r"
    "5 * length rs < kavail (module s)" "inbuf c = concat (map encode rs) @ rest" "length stack = HEADERSIZE"
  shows "\<exists>pdus c' s1 s' as m'. receive_n stack sock (length rs) c = Some (pdus, c') \<and>
    queue_all pdus s = Inr s1 \<and> serve_queue ops junk (length rs) s1 = Some (Inr s') \<and>
    kv_run m rs as m' \<and> represents objs (module s') m' \<and> mirrors (store_file s') m' \<and>
    sent s' = sent s @ concat (map (\<lambda>a. map (\<lambda>sock. (sock, reply junk a)) (clients_sockets s)) as)"
proof -
  obtain c' where c: "receive_n stack sock (length rs) c = Some (map (pdu_of sock) (map Request rs), c')"
    using receive_requests [OF assms(4,7,6)] by blast
  let ?s1 = "s\<lparr>sender_list := map request_pdu rs\<rparr>"
  have q: "queue_all (map (pdu_of sock) (map Request rs)) s = Inr ?s1"
    using queue_all_requests [OF assms(4), of sock s] assms(3) by simp
  have "server_ok objs ?s1 m" "sender_list ?s1 = map request_pdu rs" "5 * length rs < kavail (module ?s1)"
    using assms(2,5) by (simp_all add: server_ok_def)
  from serve_queue_run [OF assms(1) this(1,2) assms(4) this(3), of junk] obtain s' as m' where
    "serve_queue ops junk (length rs) ?s1 = Some (Inr s')" "kv_run m rs as m'" "server_ok objs s' m'"
    "sent s' = sent s @ concat (map (\<lambda>a. map (\<lambda>sock. (sock, reply junk a)) (clients_sockets s)) as)" by auto
  with c q show ?thesis by (auto simp: server_ok_def)
qed

definition example_server :: "rhash_object list system" where
  "example_server = (start_state [] example_kernel)\<lparr>clients_sockets := [5, 6]\<rparr>"

lemma example_server_ok: "server_ok set example_server Map.empty"
proof -
  have "mirrors [] Map.empty" unfolding mirrors_def by (intro exI [of _ "[]"]) simp
  then show ?thesis
    by (simp add: example_server_def start_state_def server_ok_def example_kernel_represents)
qed

theorem server_serves_clients_witness:
  "\<exists>pdus c' s1 s' as m'. receive_n [0, 0, 0, 0] 5 2 \<lparr>inbuf = encode (Insert [75] [86, 0]) @ encode (Get [75]),
      segs = [], fin = Open\<rparr> = Some (pdus, c') \<and>
    queue_all pdus example_server = Inr s1 \<and> serve_queue list_table 0 2 s1 = Some (Inr s') \<and>
    kv_run Map.empty [Insert [75] [86, 0], Get [75]] as m' \<and> represents set (module s') m' \<and>
    mirrors (store_file s') m' \<and>
    sent s' = concat (map (\<lambda>a. [(5, reply 0 a), (6, reply 0 a)]) as)"
proof -
  have f: "\<forall>r \<in> set [Insert [75] [86, 0], Get [75]]. fits r"
    by (simp add: fits_def key_text_def plain_def length_wire_key length_wire_insert)
  show ?thesis
    using server_serves_clients [OF list_table.rhashtable_axioms example_server_ok _ f, where sock = 5 and rest = "[]" and
        c = "\<lparr>inbuf = encode (Insert [75] [86, 0]) @ encode (Get [75]), segs = [], fin = Open\<rparr>" and
        stack = "[0, 0, 0, 0]" and junk = 0]
    by (simp add: example_server_def start_state_def numeral_2_eq_2 del: encode.simps receive_n.simps serve_queue.simps kv_run_simps)
qed

text \<open>
  Restarting the server does not restore the table: a server that starts over a store file
  with any entries comes up without a fault, but it inserts every value with a newline at its
  end, because the token that \<open>strtok\<close> cuts out of the line still holds it.
\<close>

theorem restart_appends_newlines:
  assumes "rhashtable ops objs" "rht_init ops = (err, t)" "0 \<le> err"
    "\<forall>(k, v) \<in> set es. key_text k \<and> plain v \<and> length v + 70 \<le> MAX_PAYLOAD" "5 * length es + 4 \<le> n"
  shows "\<exists>s' as m'. init_hashtable ops junk (start_state (file_of es) (snd (init_module True True (loaded n)))) =
      Some (Inr s') \<and>
    kv_run Map.empty (map (\<lambda>(k, v). Insert k (v @ [newline, 0])) es) as m' \<and> represents objs (module s') m'"
  using module_exchange.init_hashtable_run [OF nl_module_exchange [OF assms(1-3)] assms(4,5), of junk]
  by (auto simp: init_hashtable_def reloaded_eq)

theorem restart_appends_newlines_witness:
  "\<exists>s' as m'. init_hashtable list_table 0 (start_state (file_of [([75], [86])]) (snd (init_module True True (loaded 20)))) =
      Some (Inr s') \<and>
    kv_run Map.empty (map (\<lambda>(k, v). Insert k (v @ [newline, 0])) [([75], [86])]) as m' \<and> represents set (module s') m'"
proof -
  have "rht_init list_table = (0, [])" by (simp add: list_table_def)
  from restart_appends_newlines [OF list_table.rhashtable_axioms this, of "[([75], [86])]" 20 0] show ?thesis
    by (simp add: key_text_def plain_def del: kv_run_simps)
qed

text \<open>
  C38. A client can overflow the server's netlink buffer: an INSERT whose value has more than 956
  bytes is received and queued like any other, and the copy to the 1024 bytes behind
  \<open>NLMSG_DATA\<close> writes past them.
\<close>

theorem long_insert_overflows:
  assumes "length k \<le> KEY_SIZE" "MAX_PAYLOAD < HEADERSIZE + KEY_SIZE + length v"
    "HEADERSIZE + KEY_SIZE + length v < 2 ^ 16" "length (nl_send_buf s) = MAX_PAYLOAD" "sender_list s = []"
    "inbuf c = wire_insert k v @ rest" "length stack = HEADERSIZE"
  shows "\<exists>pdu c' s1. receive_pdu stack sock c = Some (pdu, c') \<and> client_pdu pdu s = Inr s1 \<and>
    kernel_communication ops junk s1 = Some (Inl OutOfBoundsWrite)"
proof -
  let ?r = "Insert k v" and ?w = "wire_insert k v"
  have ok: "message_ok (Request ?r)" using assms(1,3) by simp
  have "buffered c (wire (Request ?r) @ []) (rest @ concat (segs c))"
    using assms(6) by (simp add: buffered_def stream_def)
  from receive_message [OF ok this assms(7)] obtain c' where
    c: "receive_pdu stack sock c = Some (pdu_of sock (Request ?r), c')" by blast
  have hd: "hd ?w = INSERT" by (simp add: wire_insert_def)
  let ?pdu = "\<lparr>OP_code = INSERT, data_bytes = of_nat (length ?w), data = ?w\<rparr>"
  have q: "client_pdu (pdu_of sock (Request ?r)) s = Inr (s\<lparr>sender_list := [?pdu]\<rparr>)"
    using assms(5) by (simp add: client_pdu_def hd)
  have l: "length ?w = HEADERSIZE + KEY_SIZE + length v" using assms(1) by (simp add: length_wire_insert)
  have u: "unat (data_bytes ?pdu) = length ?w" using assms(3) by (simp only: PDU_struct.select_convs unat_of_nat l) simp
  have "nlmsg_put (nl_send_buf s) (?w @ [0]) (length ?w) = Inl OutOfBoundsWrite"
    using assms(2,4) by (simp add: nlmsg_put_def c_write_fail l)
  then have "kernel_communication ops junk (s\<lparr>sender_list := [?pdu]\<rparr>) = Some (Inl OutOfBoundsWrite)"
    using u by (simp add: kernel_communication_def removed_PDU_def nl_exchange_def)
  with c q show ?thesis by blast
qed

theorem long_insert_overflows_witness:
  "\<exists>pdu c' s1. receive_pdu [0, 0, 0, 0] 5 \<lparr>inbuf = wire_insert [75] (replicate 1000 86) @ [], segs = [], fin = Open\<rparr> =
      Some (pdu, c') \<and> client_pdu pdu example_server = Inr s1 \<and>
    kernel_communication list_table 0 s1 = Some (Inl OutOfBoundsWrite)"
  by (rule long_insert_overflows [of "[75]" "replicate 1000 86"]) (simp_all add: example_server_def start_state_def)

text \<open>
  An INIT message from a client is served: the module answers it (\<open>Hashtable already initialized.\<close> does not
  start with \<open>Error\<close>), \<open>store_data\<close> looks for a key string behind the four bytes of the message and finds the
  one byte that \<open>llist_removefirst_PDU\<close> has added, and the file stays as it is.
\<close>

theorem client_init_served:
  assumes "rhashtable ops objs" "server_ok objs s m" "sender_list s = []" "6 \<le> kavail (module s)"
    "inbuf c = wire (Request Init) @ rest" "length stack = HEADERSIZE"
  shows "\<exists>pdu c' s1. receive_pdu stack sock c = Some (pdu, c') \<and> client_pdu pdu s = Inr s1 \<and>
    (\<exists>s'. kernel_communication ops junk s1 = Some (Inr s') \<and> store_file s' = store_file s \<and>
      sent s' = sent s @ map (\<lambda>sock. (sock, reply junk (c_str ''Hashtable already initialized.''))) (clients_sockets s))"
proof -
  have "buffered c (wire (Request Init) @ []) (rest @ concat (segs c))"
    using assms(5) by (simp add: buffered_def stream_def)
  from receive_message [OF _ this assms(6)] obtain c' where
    c: "receive_pdu stack sock c = Some (pdu_of sock (Request Init), c')" by auto
  have q: "client_pdu (pdu_of sock (Request Init)) s = Inr (s\<lparr>sender_list := [request_pdu Init]\<rparr>)"
    using assms(3) by (simp add: client_pdu_def request_pdu_def)
  let ?s = "s\<lparr>sender_list := []\<rparr>"
  have rep: "represents objs (module ?s) m" "replies (module ?s) = []" "length (nl_send_buf ?s) = MAX_PAYLOAD"
    "6 \<le> kavail (module ?s)" using assms(2,4) by (auto simp: server_ok_def)
  let ?a = "c_str ''Hashtable already initialized.''"
  have "valid_request Init" "length (encode Init) \<le> MAX_PAYLOAD" by simp_all
  from nl_exchange_serves [OF assms(1) rep(1-3) this rep(4), of junk] obtain k' where
    ex: "nl_exchange ops junk (encode Init) (length (encode Init)) ?s = Some (Inr
      (?s\<lparr>nl_send_buf := encode Init @ drop (length (encode Init)) (nl_send_buf ?s),
         nl_receive_buf := take MAX_PAYLOAD (reply junk ?a) @ drop (length (reply junk ?a)) (nl_receive_buf ?s),
         module := k'\<rparr>))" (is "_ = Some (Inr ?s1)") by (auto simp del: encode.simps)
  have al: "length ?a + HEADERSIZE \<le> MAX_PAYLOAD" by simp
  define z where "z = drop (length (reply junk ?a)) (nl_receive_buf s)"
  have rl: "nl_receive_buf ?s1 = reply junk ?a @ z" by (simp add: z_def length_reply)
  have d: "c_strncmp ?a (c_str ''Error'') 5 = Inr 3" unfolding five c_str_def by simp
  have sd: "store_data (encode Init @ [0]) (reply junk ?a) f = Inr f" for f
    unfolding store_data_def drop_reply bind_r_Inr d by (simp add: copy_key_eq upto_nul_def)
  have rem: "removed_PDU (request_pdu Init) = Inr ((request_pdu Init)\<lparr>data := encode Init @ [0]\<rparr>)"
    by (simp add: removed_PDU_def request_pdu_def)
  define sq where "sq = s\<lparr>sender_list := [request_pdu Init]\<rparr>"
  then have sq: "sender_list sq = [request_pdu Init]" "sq\<lparr>sender_list := []\<rparr> = ?s" by simp_all
  have u: "unat (of_nat (length (encode Init)) :: u16) = length (encode Init)" by simp
  have w: "unat (of_nat (length (reply junk ?a)) :: u16) = length (reply junk ?a)" by (simp add: length_reply)
  have "\<exists>s'. kernel_communication ops junk sq = Some (Inr s') \<and> store_file s' = store_file s \<and>
      sent s' = sent s @ map (\<lambda>sock. (sock, reply junk ?a)) (clients_sockets s)"
    unfolding kernel_communication_def sq(1) list.case sq(2) rem bind_b_simps
    unfolding request_pdu_def PDU_struct.simps u nl_exchange_append ex bind_b_simps
      rl read_reply [OF al] sd by (simp add: send_all_sent w)
  with c q show ?thesis by (auto simp: sq_def)
qed

theorem client_init_served_witness:
  "\<exists>pdu c' s1. receive_pdu [0, 0, 0, 0] 5 \<lparr>inbuf = wire (Request Init) @ [], segs = [], fin = Open\<rparr> = Some (pdu, c') \<and>
    client_pdu pdu example_server = Inr s1 \<and> (\<exists>s'. kernel_communication list_table 0 s1 = Some (Inr s'))"
  using client_init_served [OF list_table.rhashtable_axioms example_server_ok _ _ _ _, of
      "\<lparr>inbuf = wire (Request Init) @ [], segs = [], fin = Open\<rparr>" "[]" "[0, 0, 0, 0]" 5 0]
  by (simp add: example_server_def start_state_def) blast

section \<open>The first message of a client\<close>

lemma client_JOIN_received:
  "receive_pdu stack sock c = Some (r, c') \<Longrightarrow> r \<noteq> Null_PDU \<Longrightarrow> client_JOIN stack sock c = Some (r, c')"
  by (subst client_JOIN.simps) simp

lemma client_JOIN_stuck:
  assumes "buffered c [op, 0, 0, 0] rest" "message_ok (Request (Unknown op))" "length stack = HEADERSIZE"
  shows "client_JOIN stack sock c = None"
proof -
  let ?P = "\<lambda>stack (sock :: u32) c (y :: received \<times> sock).
    length stack = HEADERSIZE \<longrightarrow> \<not> buffered c [op, 0, 0, 0] rest"
  have "?P stack sock c y" if y: "client_JOIN stack sock c = Some y" for y
  proof (rule client_JOIN.raw_induct [where P = ?P, OF _ y], intro impI notI)
    fix f stack sock c and y :: "received \<times> sock"
    assume IH: "\<And>stack sock c y. f stack sock c = Some y \<Longrightarrow> ?P stack sock c y"
      and body: "Option.bind (receive_pdu stack sock c) (\<lambda>(pdu, s).
        if pdu = Null_PDU then f stack sock s else Some (pdu, s)) = Some y"
      and st: "length stack = HEADERSIZE" and b: "buffered c [op, 0, 0, 0] rest"
    have "buffered c (wire (Request (Unknown op)) @ []) rest" using b by simp
    from receive_message [OF assms(2) this st, of sock] obtain c' where
      c: "receive_pdu stack sock c = Some (Null_PDU, c')" "buffered c' [op, 0, 0, 0] rest"
      by (auto simp: consumed_def)
    with body have "f stack sock c' = Some y" by simp
    with IH st c(2) show False by blast
  qed
  with assms(1,3) show ?thesis by (cases "client_JOIN stack sock c") auto
qed

lemma receive_closed:
  assumes "stream c = []" "fin c = Closed"
  shows "\<exists>c'. receive_pdu stack sock c = Some (Disconnected, c')"
proof -
  obtain b ss where w: "wait_data (inbuf c) (segs c) = (b, ss)" by (cases "wait_data (inbuf c) (segs c)")
  have "b = []" using wait_data_stream [OF w] assms(1) by (simp add: stream_def)
  with w assms(2) have r: "recv HEADERSIZE True c = Some ([], 0, c\<lparr>segs := ss\<rparr>)" by (simp add: recv_def)
  have "receive_pdu stack sock c = Some (Disconnected, c\<lparr>segs := ss\<rparr>)"
    unfolding receive_pdu_def by (subst receive_loop.simps) (simp add: r [simplified])
  then show ?thesis ..
qed

fun first_outcome :: "message \<Rightarrow> byte list res option" where
  "first_outcome (MJoin name) = Some (Inr (name @ [0]))"
| "first_outcome (Request (Unknown op)) = None"
| "first_outcome msg = Some (Inl WrongCell)"

text \<open>
  What the first message of a client does to the thread that listens to it: a JOIN gives the
  client's name, any other known message is read as a \<open>JOIN_struct\<close> it is not, and after an
  unknown operation code the thread never gets further (the bytes are only looked at, again and
  again). A client that connects and closes makes the server dereference the marker \<open>-100\<close>.
\<close>

theorem first_message_decides:
  assumes "length stack = HEADERSIZE"
  shows "(message_ok msg \<longrightarrow> inbuf c = wire msg @ rest \<longrightarrow>
      map_option (client_joined \<circ> fst) (client_JOIN stack sock c) = first_outcome msg) \<and>
    (stream c = [] \<longrightarrow> fin c = Closed \<longrightarrow>
      map_option (client_joined \<circ> fst) (client_JOIN stack sock c) = Some (Inl UninitDeref))"
proof (intro conjI impI)
  assume ok: "message_ok msg" and c: "inbuf c = wire msg @ rest"
  have b: "buffered c (wire msg @ []) (rest @ concat (segs c))" using c by (simp add: buffered_def stream_def)
  show "map_option (client_joined \<circ> fst) (client_JOIN stack sock c) = first_outcome msg"
  proof (cases "\<exists>op. msg = Request (Unknown op)")
    case True
    with ok b client_JOIN_stuck [OF _ _ assms] show ?thesis by fastforce
  next
    case False
    then have "pdu_of sock msg \<noteq> Null_PDU" by (cases "(sock, msg)" rule: pdu_of.cases) auto
    moreover from receive_message [OF ok b assms] obtain c' where
      "receive_pdu stack sock c = Some (pdu_of sock msg, c')" by blast
    ultimately have "client_JOIN stack sock c = Some (pdu_of sock msg, c')" by (intro client_JOIN_received)
    with False show ?thesis
      by (cases "(sock, msg)" rule: pdu_of.cases) (auto simp: client_joined_def)
  qed
next
  assume c: "stream c = []" "fin c = Closed"
  from receive_closed [OF c] obtain c' where "receive_pdu stack sock c = Some (Disconnected, c')" ..
  then have "client_JOIN stack sock c = Some (Disconnected, c')" by (intro client_JOIN_received) simp_all
  then show "map_option (client_joined \<circ> fst) (client_JOIN stack sock c) = Some (Inl UninitDeref)"
    by (simp add: client_joined_def)
qed

theorem first_message_decides_witness:
  "map_option (client_joined \<circ> fst) (client_JOIN [0, 0, 0, 0] 5
      \<lparr>inbuf = wire (MJoin [65]) @ [], segs = [], fin = Open\<rparr>) = Some (Inr [65, 0]) \<and>
   map_option (client_joined \<circ> fst) (client_JOIN [0, 0, 0, 0] 5
      \<lparr>inbuf = wire (Request (Unknown 99)) @ [], segs = [], fin = Closed\<rparr>) = None \<and>
   map_option (client_joined \<circ> fst) (client_JOIN [0, 0, 0, 0] 5 \<lparr>inbuf = [], segs = [], fin = Closed\<rparr>) =
      Some (Inl UninitDeref)"
  using first_message_decides [of "[0, 0, 0, 0]" "MJoin [65]" "\<lparr>inbuf = wire (MJoin [65]) @ [], segs = [], fin = Open\<rparr>" "[]" 5]
    first_message_decides [of "[0, 0, 0, 0]" "Request (Unknown 99)"
      "\<lparr>inbuf = wire (Request (Unknown 99)) @ [], segs = [], fin = Closed\<rparr>" "[]" 5]
    first_message_decides [of "[0, 0, 0, 0]" MQuit "\<lparr>inbuf = [], segs = [], fin = Closed\<rparr>" "[]" 5]
  by (simp del: wire.simps add: stream_def)

section \<open>A listening thread from its JOIN to its end\<close>

fun queued :: "message \<Rightarrow> byte list PDU_struct list" where
  "queued (Request r) = [request_pdu r]"
| "queued (MKernel d) = [\<lparr>OP_code = KERNEL, data_bytes = of_nat (length d), data = d @ replicate 8 0\<rparr>]"
| "queued msg = []"

lemma client_pdu_queued:
  "\<forall>op. msg \<noteq> Request (Unknown op) \<Longrightarrow>
   client_pdu (pdu_of sock msg) s = Inr (s\<lparr>sender_list := sender_list s @ queued msg\<rparr>)"
  by (cases "(sock, msg)" rule: pdu_of.cases)
     (auto simp: client_pdu_def request_pdu_def wire_insert_def wire_key_def)

lemma listen_loop_queues:
  assumes "length stack = HEADERSIZE"
  shows "buffered c (concat (map wire msgs) @ q) rest \<Longrightarrow>
    \<forall>msg \<in> set msgs. message_ok msg \<and> (\<forall>op. msg \<noteq> Request (Unknown op)) \<Longrightarrow>
    \<exists>c'. listen_loop stack sock c s = listen_loop stack sock c' (s\<lparr>sender_list := sender_list s @ concat (map queued msgs)\<rparr>) \<and>
      buffered c' q rest \<and> fin c' = fin c"
proof (induction msgs arbitrary: c s)
  case Nil
  then show ?case by (intro exI [of _ c]) simp
next
  case (Cons msg msgs)
  have k: "\<forall>op. msg \<noteq> Request (Unknown op)" and ok: "message_ok msg" using Cons.prems(2) by simp_all
  have b: "buffered c (wire msg @ (concat (map wire msgs) @ q)) rest" using Cons.prems(1) by simp
  have n: "pdu_of sock msg \<noteq> Disconnected" by (cases "(sock, msg)" rule: pdu_of.cases) auto
  from messages.receive_one [OF _ b, of stack sock] k ok assms obtain c1 where
    c1: "receive_pdu stack sock c = Some (pdu_of sock msg, c1)" "buffered c1 (concat (map wire msgs) @ q) rest"
      "fin c1 = fin c" by blast
  let ?s = "s\<lparr>sender_list := sender_list s @ queued msg\<rparr>"
  have "listen_loop stack sock c s = listen_loop stack sock c1 ?s"
    by (subst listen_loop.simps) (simp add: c1(1) n client_pdu_queued [OF k])
  moreover from Cons.IH [OF c1(2), of ?s] Cons.prems(2) obtain c' where
    "listen_loop stack sock c1 ?s =
      listen_loop stack sock c' (?s\<lparr>sender_list := sender_list ?s @ concat (map queued msgs)\<rparr>)"
    "buffered c' q rest" "fin c' = fin c1" by auto
  ultimately show ?case using c1(3) by auto
qed

text \<open>
  C26. A listening thread queues what its client sends and nothing else: after the JOIN it appends
  the PDU of every request (and of every stray answer) to \<open>sender_list\<close>, in order, drops further
  JOIN and QUIT messages, and ends when the connection is closed. If a message with an unknown
  operation code follows instead, it dereferences the null PDU it gets for it.
\<close>

theorem listener_queues_requests:
  assumes "length stack = HEADERSIZE" "message_ok (MJoin name)" "message_ok (Request (Unknown op))"
    "\<forall>msg \<in> set msgs. message_ok msg \<and> (\<forall>op. msg \<noteq> Request (Unknown op))"
  shows "client_listener stack sock
      \<lparr>inbuf = wire (MJoin name) @ concat (map wire msgs), segs = [], fin = Closed\<rparr> s =
      Some (Inr (s\<lparr>sender_list := sender_list s @ concat (map queued msgs)\<rparr>)) \<and>
    client_listener stack sock
      \<lparr>inbuf = wire (MJoin name) @ concat (map wire msgs) @ wire (Request (Unknown op)), segs = [], fin = e\<rparr> s =
      Some (Inl NullDeref)"
proof
  let ?s = "s\<lparr>sender_list := sender_list s @ concat (map queued msgs)\<rparr>"
  have start: "\<exists>c'. client_listener stack sock \<lparr>inbuf = wire (MJoin name) @ concat (map wire msgs) @ q, segs = [], fin = e\<rparr> s =
      listen_loop stack sock c' ?s \<and> buffered c' q [] \<and> fin c' = e" for q e
  proof -
    let ?c = "\<lparr>inbuf = wire (MJoin name) @ concat (map wire msgs) @ q, segs = [], fin = e\<rparr>"
    have "buffered ?c (wire (MJoin name) @ (concat (map wire msgs) @ q)) []" by (simp add: buffered_def stream_def)
    from receive_message [OF assms(2) this assms(1), of sock] obtain c1 where
      c1: "receive_pdu stack sock ?c = Some (pdu_of sock (MJoin name), c1)"
        "buffered c1 (concat (map wire msgs) @ q) []" "fin c1 = e" by (auto simp: consumed_def)
    from c1(1) have "client_JOIN stack sock ?c = Some (pdu_of sock (MJoin name), c1)"
      by (intro client_JOIN_received) simp_all
    then have "client_listener stack sock ?c s = listen_loop stack sock c1 s"
      by (simp add: client_listener_def client_joined_def)
    with listen_loop_queues [OF assms(1) c1(2) assms(4), of sock s] c1(3) show ?thesis by auto
  qed
  show "client_listener stack sock \<lparr>inbuf = wire (MJoin name) @ concat (map wire msgs), segs = [], fin = Closed\<rparr> s =
      Some (Inr ?s)"
  proof -
    obtain c' where c': "client_listener stack sock
        \<lparr>inbuf = wire (MJoin name) @ concat (map wire msgs) @ [], segs = [], fin = Closed\<rparr> s = listen_loop stack sock c' ?s"
      "buffered c' [] []" "fin c' = Closed" using start [of "[]" Closed] by blast
    have "stream c' = []" using c'(2) by (simp add: buffered_def)
    from receive_closed [OF this c'(3), of stack sock] have "listen_loop stack sock c' ?s = Some (Inr ?s)"
      by (subst listen_loop.simps) auto
    with c'(1) show ?thesis by simp
  qed
  obtain c' where c': "client_listener stack sock
      \<lparr>inbuf = wire (MJoin name) @ concat (map wire msgs) @ wire (Request (Unknown op)), segs = [], fin = e\<rparr> s =
      listen_loop stack sock c' ?s" "buffered c' (wire (Request (Unknown op)) @ []) []" 
    using start [of "wire (Request (Unknown op))" e] by auto
  from receive_message [OF assms(3) c'(2) assms(1), of sock] obtain c2 where
    "receive_pdu stack sock c' = Some (Null_PDU, c2)" by auto
  then have "listen_loop stack sock c' ?s = Some (Inl NullDeref)"
    by (subst listen_loop.simps) (simp add: client_pdu_def)
  with c'(1) show "client_listener stack sock
      \<lparr>inbuf = wire (MJoin name) @ concat (map wire msgs) @ wire (Request (Unknown op)), segs = [], fin = e\<rparr> s =
      Some (Inl NullDeref)" by simp
qed

theorem listener_queues_requests_witness:
  "client_listener [0, 0, 0, 0] 5
      \<lparr>inbuf = wire (MJoin [65, 0]) @ concat (map wire [Request (Get [75]), MQuit]), segs = [], fin = Closed\<rparr> example_server =
      Some (Inr (example_server\<lparr>sender_list := sender_list example_server @ concat (map queued [Request (Get [75]), MQuit])\<rparr>)) \<and>
   client_listener [0, 0, 0, 0] 5
      \<lparr>inbuf = wire (MJoin [65, 0]) @ concat (map wire [Request (Get [75]), MQuit]) @ wire (Request (Unknown 99)),
        segs = [], fin = Open\<rparr> example_server = Some (Inl NullDeref)"
  by (rule listener_queues_requests) simp_all

end
