(* ===== verification/Client.thy ===== *)
theory Client
  imports Sock
begin

text \<open>
  The client of OU4/Client/client.c: the constructors of the PDUs it sends, the menu of
  \<open>client_send\<close> on the bytes of standard input, the JOIN with which it introduces itself, and what
  \<open>client_listen\<close> does with the PDUs it receives. A \<open>char *\<close> argument is the memory from it to the end
  of its object.
\<close>

section \<open>PDUs for the server\<close>

text \<open>A \<open>PDU_struct\<close> of the server's protocol around a message from \<open>PDU_to_buffer_user\<close>.\<close>

definition user_pdu :: "u16 \<Rightarrow> byte list option \<Rightarrow> byte list PDU_struct res" where
  "user_pdu n buffer =
     (case buffer of
        None \<Rightarrow> Inl NullDeref
      | Some b \<Rightarrow> Inr \<lparr>OP_code = USER, data_bytes = n, data = b\<rparr>)"

definition create_INIT_to_server :: "byte list PDU_struct res" where
  "create_INIT_to_server =
     bind_r (PDU_to_buffer_user INIT (S_INIT \<lparr>INIT_op = INIT\<rparr>)) (user_pdu (of_nat HEADERSIZE))"

definition create_INSERT_to_server :: "byte list \<Rightarrow> byte list \<Rightarrow> u16 \<Rightarrow> byte list PDU_struct res" where
  "create_INSERT_to_server key data1 n =
     bind_r (c_read key 0 KEY_SIZE) (\<lambda>key.
     bind_r (c_read data1 0 (unat n)) (\<lambda>d.
     bind_r (PDU_to_buffer_user INSERT
       (S_INSERT \<lparr>INSERT_op = INSERT, INSERT_key = key, INSERT_bytes = n, INSERT_data = d\<rparr>))
       (user_pdu (n + of_nat HEADERSIZE + of_nat KEY_SIZE))))"

definition create_GET_to_server :: "byte list \<Rightarrow> byte list PDU_struct res" where
  "create_GET_to_server key =
     bind_r (c_read key 0 KEY_SIZE) (\<lambda>key.
     bind_r (PDU_to_buffer_user GET (S_GET \<lparr>GET_op = GET, GET_key = key\<rparr>))
       (user_pdu (of_nat (HEADERSIZE + KEY_SIZE))))"

definition create_DELETE_to_server :: "byte list \<Rightarrow> byte list PDU_struct res" where
  "create_DELETE_to_server key =
     bind_r (c_read key 0 KEY_SIZE) (\<lambda>key.
     bind_r (PDU_to_buffer_user DELETE (S_DELETE \<lparr>DELETE_op = DELETE, DELETE_key = key\<rparr>))
       (user_pdu (of_nat (HEADERSIZE + KEY_SIZE))))"

definition setupJOINPDU :: "byte list \<Rightarrow> byte list PDU_struct res" where
  "setupJOINPDU clientname =
     bind_r (c_strnlen clientname MAXMESSLEN) (\<lambda>n.
     let client_len = of_nat n + 1 :: u16
     in bind_r (c_write (replicate (HEADERSIZE + n + 1) 0) 0 [JOIN]) (\<lambda>d.
        bind_r (c_write d 1 (le16 client_len)) (\<lambda>d.
        bind_r (c_read clientname 0 (unat client_len)) (\<lambda>name.
        bind_r (c_write d HEADERSIZE name) (\<lambda>d.
        Inr \<lparr>OP_code = USER, data_bytes = of_nat (HEADERSIZE + n + 1), data = d\<rparr>)))))"

section \<open>The menu\<close>

abbreviation nl :: byte where "nl \<equiv> 10"

text \<open>
  \<open>while (temp_char != '\n') { index++; temp_char = getchar(); if (temp_char != '\n') key[index] = ... }\<close>.
  At the end of the input \<open>getchar\<close> returns \<open>EOF\<close> for ever and the loop runs on through the
  array, so it always ends by leaving it.
\<close>

fun read_rest :: "byte list \<Rightarrow> nat \<Rightarrow> byte list \<Rightarrow> (byte list \<times> byte list) res" where
  "read_rest [] index key = Inl OutOfBoundsWrite"
| "read_rest (c # input) index key =
     (if c = nl then Inr (key, input)
      else bind_r (c_write key (index + 1) [c]) (\<lambda>key. read_rest input (index + 1) key))"

definition read_text :: "byte list \<Rightarrow> (byte list \<times> byte list) res" where
  "read_text input =
     (let key = replicate (MAXMESSLEN + 1) 0
      in case input of
           [] \<Rightarrow> Inl OutOfBoundsWrite
         | c # input \<Rightarrow>
             bind_r (c_write key 0 [c]) (\<lambda>key.
             if c = nl then Inr (key, input) else read_rest input 0 key))"

text \<open>\<open>fgets(message, n, stdin)\<close>: at most \<open>n - 1\<close> bytes, up to and including a newline.\<close>

fun c_fgets :: "nat \<Rightarrow> byte list \<Rightarrow> byte list \<times> byte list" where
  "c_fgets n [] = ([], [])"
| "c_fgets n (c # input) =
     (if n \<le> 1 then ([], c # input)
      else if c = nl then ([c], input)
      else let (m, r) = c_fgets (n - 1) input in (c # m, r))"

text \<open>
  \<open>fgets(message, MAXMESSLEN, stdin)\<close>, whose result is not looked at: at the end of the input the array keeps the
  string it held before, that of the pass before.
\<close>

definition get_message :: "byte list \<Rightarrow> byte list \<Rightarrow> byte list \<times> byte list" where
  "get_message message input =
     (let (line, input) = c_fgets MAXMESSLEN input in (if line = [] then message else line, input))"

datatype menu = Sends "byte list PDU_struct" | Quits "byte list PDU_struct" | Again | Test u8

text \<open>The switch of \<open>client_send\<close>; the three tests of the menu are not followed.\<close>

definition menu_pass :: "byte list \<Rightarrow> byte list \<Rightarrow> (menu \<times> byte list) res" where
  "menu_pass message input =
     (let message = message @ [0]
      in if message = [nl, 0] then Inr (Again, input)
         else if hd message = 49 then bind_r create_INIT_to_server (\<lambda>p. Inr (Sends p, input))
         else if hd message = 50 then
           bind_r (read_text input) (\<lambda>(key, input).
           bind_r (read_text input) (\<lambda>(d, input).
           bind_r (c_strlen d) (\<lambda>n.
           bind_r (create_INSERT_to_server key d (of_nat (n + 1))) (\<lambda>p. Inr (Sends p, input)))))
         else if hd message = 51 then
           bind_r (read_text input) (\<lambda>(key, input).
           bind_r (create_GET_to_server key) (\<lambda>p. Inr (Sends p, input)))
         else if hd message = 52 then
           bind_r (read_text input) (\<lambda>(key, input).
           bind_r (create_DELETE_to_server key) (\<lambda>p. Inr (Sends p, input)))
         else if hd message = 53 then bind_r create_QUIT_pdu (\<lambda>p. Inr (Quits p, input))
         else if hd message \<in> {54, 55, 56} then Inr (Test (hd message), input)
         else Inr (Again, input))"

section \<open>Listening\<close>

text \<open>
  The first byte of the block behind \<open>data\<close>, whatever type of object it is; \<open>True\<close>: the client
  stops.
\<close>

definition stops_client :: "received \<Rightarrow> bool res" where
  "stops_client r =
     (case r of
        Received pdu \<Rightarrow>
          bind_r (case data pdu of
              Buffer d \<Rightarrow> bind_r (c_read d 0 1) (\<lambda>b. Inr (hd b))
            | Quit q \<Rightarrow> Inr (QUIT_op q)
            | Join j \<Rightarrow> Inr (JOIN_op j)) (\<lambda>OP_code.
          Inr (OP_code = QUIT))
      | Null_PDU \<Rightarrow> Inl NullDeref
      | Disconnected \<Rightarrow> Inl UninitDeref)"

text \<open>
  The loop, with the counter \<open>num_receive\<close> of the answers; the socket is shut down at its end.
  \<open>close_client\<close> is set by this thread only when it stops anyway, and by \<open>client_send\<close> when the
  whole client does.
\<close>

partial_function (option) client_listen :: "byte list \<Rightarrow> u32 \<Rightarrow> u32 \<Rightarrow> sock \<Rightarrow> u32 res option" where
  "client_listen stack client_server num_receive s =
     Option.bind (receive_pdu stack client_server s) (\<lambda>(PDU_struct_recieve, s).
     case stops_client PDU_struct_recieve of
       Inl e \<Rightarrow> Some (Inl e)
     | Inr stop \<Rightarrow>
         if stop then Some (Inr num_receive)
         else client_listen stack client_server (num_receive + 1) s)"

end
