(* ===== verification/ClientProps.thy ===== *)
theory ClientProps
  imports Client SockProps
begin

text \<open>
  What the client's constructors and its menu do, and how its messages and the server's answers
  meet: requests with long enough key memory, the JOIN, and the answers that end the session.
\<close>

section \<open>Constructors\<close>

lemma key_memory:
  assumes "length s < KEY_SIZE" "KEY_SIZE \<le> length (s @ 0 # p)"
  obtains q where "c_read (s @ 0 # p) 0 KEY_SIZE = Inr (s @ 0 # q)"
proof -
  have "KEY_SIZE - length s = Suc (KEY_SIZE - 1 - length s)" using assms(1) by simp
  then have "take KEY_SIZE (s @ 0 # p) = s @ 0 # take (KEY_SIZE - 1 - length s) p"
    using assms(1) by (simp only: take_append take_Suc_Cons take_all less_imp_le)
  with assms(2) that show thesis by simp
qed

text \<open>The PDU the client puts a request in.\<close>

definition sent_pdu :: "request \<Rightarrow> byte list PDU_struct" where
  "sent_pdu r = \<lparr>OP_code = USER, data_bytes = of_nat (length (encode r)), data = encode r\<rparr>"

lemma create_GET_to_server_ok:
  assumes "nul_free s" "length s < KEY_SIZE" "KEY_SIZE \<le> length (s @ 0 # p)"
  shows "create_GET_to_server (s @ 0 # p) = Inr (sent_pdu (Get s))"
proof -
  obtain q where "c_read (s @ 0 # p) 0 KEY_SIZE = Inr (s @ 0 # q)" by (rule key_memory [OF assms(2,3)])
  with create_GET_buffer_ok [OF assms(1,2)] assms(2) show ?thesis
    by (simp add: create_GET_to_server_def PDU_to_buffer_user_def user_pdu_def sent_pdu_def length_wire_key)
qed

lemma create_DELETE_to_server_ok:
  assumes "nul_free s" "length s < KEY_SIZE" "KEY_SIZE \<le> length (s @ 0 # p)"
  shows "create_DELETE_to_server (s @ 0 # p) = Inr (sent_pdu (Delete s))"
proof -
  obtain q where "c_read (s @ 0 # p) 0 KEY_SIZE = Inr (s @ 0 # q)" by (rule key_memory [OF assms(2,3)])
  with create_DELETE_buffer_ok [OF assms(1,2)] assms(2) show ?thesis
    by (simp add: create_DELETE_to_server_def PDU_to_buffer_user_def user_pdu_def sent_pdu_def length_wire_key)
qed

lemma create_INSERT_to_server_ok:
  assumes "nul_free s" "length s < KEY_SIZE" "KEY_SIZE \<le> length (s @ 0 # p)" "unat n = length v"
  shows "create_INSERT_to_server (s @ 0 # p) (v @ x) n = Inr (sent_pdu (Insert s v))"
proof -
  obtain q where "c_read (s @ 0 # p) 0 KEY_SIZE = Inr (s @ 0 # q)" by (rule key_memory [OF assms(2,3)])
  moreover have "n = of_nat (length v)" using of_nat_eq_unat [OF assms(4)] by simp
  ultimately show ?thesis
    using create_INSERT_buffer_ok [OF assms(1,2,4), of q "[]"] assms(2,4)
    by (simp add: create_INSERT_to_server_def PDU_to_buffer_user_def user_pdu_def sent_pdu_def length_wire_insert)
qed

section \<open>Reading a line\<close>

lemma read_rest_line:
  assumes "nl \<notin> set s" "index + length s < length key"
  shows "read_rest (s @ nl # rest) index key =
    Inr (take (index + 1) key @ s @ drop (index + 1 + length s) key, rest)"
  using assms
proof (induction s arbitrary: index key)
  case (Cons c s)
  then have "c_write key (index + 1) [c] = Inr (take (index + 1) key @ [c] @ drop (index + 2) key)"
    by simp
  with Cons.prems Cons.IH [of "index + 1" "take (index + 1) key @ [c] @ drop (index + 2) key"]
  show ?case by (simp add: min_def add.commute)
qed simp

lemma read_rest_too_long:
  assumes "nl \<notin> set s" "length key \<le> index + length s" "index < length key"
  shows "read_rest (s @ input) index key = Inl OutOfBoundsWrite"
  using assms
proof (induction s arbitrary: index key)
  case (Cons c s)
  show ?case
  proof (cases "index + 2 \<le> length key")
    case True
    with Cons.prems Cons.IH [of "take (index + 1) key @ [c] @ drop (index + 2) key" "index + 1"] show ?thesis
      by (simp add: min_def)
  next
    case False
    with Cons.prems show ?thesis by (simp add: c_write_fail)
  qed
qed simp

lemma read_rest_length: "read_rest input index key = Inr (k, r) \<Longrightarrow> length k = length key"
  by (induction input index key rule: read_rest.induct)
     (auto simp: bind_r_eq_Inr c_write_Inr split: if_splits)

lemma read_text_length: "read_text input = Inr (k, r) \<Longrightarrow> length k = MAXMESSLEN + 1"
  by (auto simp: read_text_def bind_r_eq_Inr c_write_Inr dest!: read_rest_length split: list.splits if_splits)

text \<open>A typed line: up to 51 characters fit, a longer one overruns the array.\<close>

lemma read_text_line:
  assumes "nl \<notin> set s" "s \<noteq> []"
  shows "read_text (s @ nl # rest) =
    (if length s \<le> MAXMESSLEN + 1 then Inr (s @ replicate (MAXMESSLEN + 1 - length s) 0, rest)
     else Inl OutOfBoundsWrite)"
proof -
  obtain c t where s: "s = c # t" using assms(2) by (cases s) auto
  have "c_write (replicate (MAXMESSLEN + 1) 0) 0 [c] = Inr (c # replicate MAXMESSLEN 0)" by simp
  with s assms(1) read_rest_line [of t 0 "c # replicate MAXMESSLEN 0" rest]
    read_rest_too_long [of t "c # replicate MAXMESSLEN 0" 0 "nl # rest"]
  show ?thesis by (auto simp: read_text_def simp del: replicate_Suc)
qed

section \<open>Properties of the client\<close>

text \<open>
  The constructors of the client build exactly the message of the request, in a PDU with its
  length, when the key memory they are given is at least 64 bytes long; with a shorter one all
  three read past it.
\<close>

theorem client_constructors:
  assumes "nul_free s" "length s < KEY_SIZE" "unat n = length v"
  shows "create_GET_to_server (s @ 0 # p) =
      (if KEY_SIZE \<le> length (s @ 0 # p) then Inr (sent_pdu (Get s)) else Inl OutOfBoundsRead) \<and>
    create_DELETE_to_server (s @ 0 # p) =
      (if KEY_SIZE \<le> length (s @ 0 # p) then Inr (sent_pdu (Delete s)) else Inl OutOfBoundsRead) \<and>
    create_INSERT_to_server (s @ 0 # p) (v @ x) n =
      (if KEY_SIZE \<le> length (s @ 0 # p) then Inr (sent_pdu (Insert s v)) else Inl OutOfBoundsRead)"
proof (cases "KEY_SIZE \<le> length (s @ 0 # p)")
  case True
  then show ?thesis
    using create_GET_to_server_ok [OF assms(1,2)] create_DELETE_to_server_ok [OF assms(1,2)]
      create_INSERT_to_server_ok [OF assms(1,2) _ assms(3)] by simp
next
  case False
  then have "c_read (s @ 0 # p) 0 KEY_SIZE = Inl OutOfBoundsRead" by (intro c_read_fail) simp
  with False show ?thesis
    by (simp add: create_GET_to_server_def create_DELETE_to_server_def create_INSERT_to_server_def)
qed

theorem client_constructors_witness:
  "create_GET_to_server ([75] @ 0 # replicate 62 9) = Inr (sent_pdu (Get [75]))"
  using client_constructors [of "[75]" 0 "[]" "replicate 62 9" "[]"] by simp

text \<open>
  No request ever leaves the menu without a fault: whatever is typed, the choices \<open>2\<close>, \<open>3\<close>
  and \<open>4\<close> (INSERT, GET, DELETE) copy \<open>KEY_SIZE\<close> bytes from the 51 bytes of the array \<open>key\<close>, unless
  a line of more than 51 characters has overrun the array before.
\<close>

theorem menu_requests_read_past_key:
  assumes "message \<noteq> []" "hd message \<in> {50, 51, 52}"
  shows "menu_pass message rest \<in> {Inl OutOfBoundsRead, Inl OutOfBoundsWrite}"
proof -
  have short: "c_read key 0 KEY_SIZE = Inl OutOfBoundsRead" if "read_text i = Inr (key, r)" for i key r
    using read_text_length [OF that] by (intro c_read_fail) simp
  have err: "read_rest i j key = Inl e \<Longrightarrow> e = OutOfBoundsWrite" for i j key e
    by (induction i j key rule: read_rest.induct) (auto simp: bind_r_eq_Inl c_write_def split: if_splits)
  have err': "read_text i = Inl e \<Longrightarrow> e = OutOfBoundsWrite" for i e
    by (auto simp: read_text_def bind_r_eq_Inl c_write_def split: list.splits if_splits dest: err)
  have len: "c_strlen d = Inl e \<Longrightarrow> e = OutOfBoundsRead" for d e by (auto simp: c_strlen_def split: if_splits)
  have m: "message @ [0] \<noteq> [nl, 0]" "hd (message @ [0]) = hd message" "hd message \<noteq> 49" using assms by auto
  show ?thesis
  proof (cases "hd message = 50")
    case True
    with m(1,2) have "menu_pass message rest =
        bind_r (read_text rest) (\<lambda>(key, input). bind_r (read_text input) (\<lambda>(d, input).
          bind_r (c_strlen d) (\<lambda>n. bind_r (create_INSERT_to_server key d (of_nat (n + 1))) (\<lambda>p. Inr (Sends p, input)))))"
      unfolding menu_pass_def Let_def by simp
    then show ?thesis
      by (auto simp: bind_r_def create_INSERT_to_server_def short split: sum.splits dest: err' len)
  next
    case False
    then have c: "hd message = 51 \<or> hd message = 52" using assms(2) by auto
    show ?thesis
    proof (cases "read_text rest")
      case (Inl e)
      with c m err' [OF Inl] show ?thesis unfolding menu_pass_def Let_def by auto
    next
      case (Inr kr)
      with c m short show ?thesis
        unfolding menu_pass_def Let_def by (cases kr) (auto simp: create_GET_to_server_def create_DELETE_to_server_def)
    qed
  qed
qed

theorem menu_requests_read_past_key_witness:
  "menu_pass [51, 10] [75, 10] \<in> {Inl OutOfBoundsRead, Inl OutOfBoundsWrite}"
  by (rule menu_requests_read_past_key) simp_all

lemma join_received:
  assumes "length m < 2 ^ 16" "length stack = HEADERSIZE"
  shows "\<exists>s'. receive_pdu stack sock \<lparr>inbuf = wire (MJoin m) @ rest, segs = [], fin = e\<rparr> =
    Some (pdu_of sock (MJoin m), s') \<and> stream s' = rest"
proof -
  have "buffered \<lparr>inbuf = wire (MJoin m) @ rest, segs = [], fin = e\<rparr> (wire (MJoin m) @ []) rest"
    by (simp add: buffered_def stream_def)
  with receive_message [of "MJoin m", OF _ this assms(2), of sock] assms(1) show ?thesis
    by (auto simp: buffered_def consumed_def)
qed

lemma setupJOINPDU_ok:
  assumes "nul_free name"
  shows "setupJOINPDU (name @ 0 # env) = Inr \<lparr>OP_code = USER,
    data_bytes = of_nat (length (wire (MJoin (take 51 (name @ [0]))))), data = wire (MJoin (take 51 (name @ [0])))\<rparr>"
proof -
  let ?n = "min MAXMESSLEN (length name)" and ?m = "take 51 (name @ [0])"
  have l: "length ?m = ?n + 1" by simp
  have sn: "c_strnlen (name @ 0 # env) MAXMESSLEN = Inr ?n" using assms(1) by (simp add: c_strnlen_def)
  have u: "unat (of_nat ?n + 1 :: u16) = ?n + 1"
  proof -
    have "unat (of_nat (?n + 1) :: u16) = ?n + 1" by (simp only: unat_of_nat) simp
    then show ?thesis by (simp add: add.commute)
  qed
  have r: "c_read (name @ 0 # env) 0 (?n + 1) = Inr ?m"
  proof (cases "MAXMESSLEN \<le> length name")
    case True
    then have "51 - length name \<le> 1" by simp
    then have "take (51 - length name) (0 # env) = take (51 - length name) [0]"
      by (cases "51 - length name") simp_all
    with True show ?thesis by simp
  qed simp
  let ?z = "replicate (?n + 1) (0 :: byte)"
  have z: "replicate (HEADERSIZE + ?n + 1) (0 :: byte) = [0, 0, 0, 0] @ ?z" by (simp add: eval_nat_numeral)
  let ?len = "of_nat ?n + 1 :: u16"
  have "c_write ([0, 0, 0, 0] @ ?z) 0 [JOIN] = Inr ([JOIN, 0, 0, 0] @ ?z)" by simp
  moreover have "c_write ([JOIN, 0, 0, 0] @ ?z) 1 (le16 ?len) = Inr ((JOIN # le16 ?len @ [0]) @ ?z)" by simp
  moreover have "c_write ((JOIN # le16 ?len @ [0]) @ ?z) HEADERSIZE ?m = Inr ((JOIN # le16 ?len @ [0]) @ ?m)"
    using l by simp
  moreover have "?len = of_nat (length ?m)" by (simp only: l of_nat_add of_nat_1)
  ultimately show ?thesis
    using l unfolding setupJOINPDU_def sn bind_r_Inr Let_def u r z by (simp add: add.commute)
qed

text \<open>
  A client's JOIN brings its name to the server: whatever the name is, the PDU that
  \<open>setupJOINPDU\<close> builds is received as a JOIN with the first 51 bytes of the name's string,
  terminated by a NUL that the receiver adds, and the server is left at the next message.
\<close>

theorem join_reaches_server:
  assumes "nul_free name" "length stack = HEADERSIZE"
  shows "\<exists>pdu s'. setupJOINPDU (name @ 0 # env) = Inr pdu \<and> unat (data_bytes pdu) = length (data pdu) \<and>
    receive_pdu stack sock \<lparr>inbuf = data pdu @ rest, segs = [], fin = e\<rparr> =
      Some (pdu_of sock (MJoin (take 51 (name @ [0]))), s') \<and> stream s' = rest"
proof -
  let ?m = "take 51 (name @ [0])"
  have l: "length ?m \<le> 51" by simp
  note d = setupJOINPDU_ok [OF assms(1), of env]
  have "length ?m < 2 ^ 16" using l by simp
  from join_received [OF this assms(2)] obtain s' where
    "receive_pdu stack sock \<lparr>inbuf = wire (MJoin ?m) @ rest, segs = [], fin = e\<rparr> = Some (pdu_of sock (MJoin ?m), s')"
    "stream s' = rest" by blast
  moreover have "length (wire (MJoin ?m)) < 2 ^ 16" using l by simp
  then have "unat (of_nat (length (wire (MJoin ?m))) :: u16) = length (wire (MJoin ?m))"
    by (simp only: unat_of_nat) simp
  ultimately show ?thesis using d by (auto simp only: PDU_struct.select_convs intro!: exI)
qed

theorem join_reaches_server_witness:
  "\<exists>pdu s'. setupJOINPDU ([65, 66] @ 0 # []) = Inr pdu \<and> unat (data_bytes pdu) = length (data pdu) \<and>
    receive_pdu [0, 0, 0, 0] 5 \<lparr>inbuf = data pdu @ [], segs = [], fin = Open\<rparr> =
      Some (pdu_of 5 (MJoin (take 51 ([65, 66] @ [0]))), s') \<and> stream s' = []"
  by (rule join_reaches_server) simp_all

text \<open>The PDU an answer is received as.\<close>

definition answer_pdu :: "byte list \<Rightarrow> received" where
  "answer_pdu a = Received \<lparr>OP_code = KERNEL, data_bytes = of_nat (length a), data = Buffer (a @ replicate 8 0)\<rparr>"

lemma receive_reply:
  assumes "buffered c (reply junk a @ q) rest" "length a < 2 ^ 16" "length stack = HEADERSIZE"
  shows "\<exists>c'. receive_pdu stack sock c = Some (answer_pdu a, c') \<and> buffered c' q rest \<and> fin c' = fin c"
proof -
  have h: "HEADERSIZE \<le> length (inbuf c)" using assms(1) by (simp add: buffered_def reply_def)
  have hd: "hd (stream c) = KERNEL" using assms(1) by (simp add: buffered_def reply_def)
  from receive_pdu_header [OF h assms(3), of sock] obtain c1 where
    c1: "receive_pdu stack sock c = read_exactly sock KERNEL c1" "stream c1 = stream c"
      "length (inbuf c) \<le> length (inbuf c1)" "fin c1 = fin c" unfolding hd by blast
  have "buffered c1 (KERNEL # le16 (of_nat (length a)) @ [junk] @ a @ q) rest"
    using c1(2,3) assms(1) by (simp add: buffered_def reply_def)
  from read_KERNEL_buffered [OF this assms(2)] c1(1,4) show ?thesis
    by (auto simp: read_exactly_def received_def answer_pdu_def)
qed

interpretation replies: stream_codec "reply junk" answer_pdu
    "\<lambda>a. length a < 2 ^ 16 \<and> length stack = HEADERSIZE" stack sock for junk stack sock
  by unfold_locales (use receive_reply in blast)

lemma stops_client_answer: "stops_client (answer_pdu a) = Inr (a \<noteq> [] \<and> hd a = QUIT)"
  by (cases a) (simp_all add: stops_client_def answer_pdu_def)

text \<open>The answers before the first whose text starts with the byte of QUIT.\<close>

abbreviation before_quit :: "byte list list \<Rightarrow> byte list list" where
  "before_quit \<equiv> takeWhile (\<lambda>a. \<not> (a \<noteq> [] \<and> hd a = QUIT))"

lemma client_listen_answers:
  assumes "length stack = HEADERSIZE"
  shows "buffered c (concat (map (reply junk) as) @ wire MQuit) rest \<Longrightarrow> \<forall>a \<in> set as. length a < 2 ^ 16 \<Longrightarrow>
    client_listen stack sock n c = Some (Inr (n + of_nat (length (before_quit as))))"
proof (induction as arbitrary: c n)
  case Nil
  then have "buffered c (wire MQuit @ []) rest" by simp
  from receive_message [OF _ this assms, of sock] obtain c' where
    "receive_pdu stack sock c = Some (pdu_of sock MQuit, c')" by auto
  then show ?case by (subst client_listen.simps) (simp add: stops_client_def)
next
  case (Cons a as)
  have "buffered c (reply junk a @ (concat (map (reply junk) as) @ wire MQuit)) rest" using Cons.prems(1) by simp
  from receive_reply [OF this _ assms, of sock] Cons.prems(2) obtain c1 where
    c1: "receive_pdu stack sock c = Some (answer_pdu a, c1)"
      "buffered c1 (concat (map (reply junk) as) @ wire MQuit) rest" by auto
  from Cons.IH [OF c1(2), of "n + 1"] Cons.prems(2) show ?case
    by (subst client_listen.simps) (simp add: c1(1) stops_client_answer)
qed

text \<open>
  The client counts the answers and stops at the server's QUIT: over any answers that are
  followed by a QUIT, \<open>client_listen\<close> ends without a fault and has counted the answers before
  the first one whose text starts with the byte 18, all of them when there is none. An answer
  that does (a stored value can) is taken for a QUIT.
\<close>

theorem client_counts_answers:
  assumes "length stack = HEADERSIZE" "\<forall>a \<in> set as. length a < 2 ^ 16"
  shows "client_listen stack sock 0
      \<lparr>inbuf = concat (map (reply junk) as) @ wire MQuit, segs = [], fin = e\<rparr> =
    Some (Inr (of_nat (length (before_quit as))))"
proof -
  have "buffered \<lparr>inbuf = concat (map (reply junk) as) @ wire MQuit, segs = [], fin = e\<rparr>
      (concat (map (reply junk) as) @ wire MQuit) []" by (simp add: buffered_def stream_def)
  from client_listen_answers [OF assms(1) this assms(2), of sock 0] show ?thesis by simp
qed

theorem client_counts_answers_witness:
  "client_listen [0, 0, 0, 0] 5 0
      \<lparr>inbuf = concat (map (reply 7) [[86, 0], [87, 0], [18, 0], [88, 0]]) @ wire MQuit, segs = [], fin = Open\<rparr> = Some (Inr 2)"
  using client_counts_answers [of "[0, 0, 0, 0]" "[[86, 0], [87, 0], [18, 0], [88, 0]]" 5 7 Open] by simp

end
