(* ===== verification/EndToEnd.thy ===== *)
theory EndToEnd
  imports ServerProps ClientProps
begin

text \<open>
  A whole session: the client builds its requests and sends them, the server receives them,
  queues them, passes them through the kernel module, keeps the store file and sends the answers
  to every client, and the client receives them.
\<close>

section \<open>The client's side\<close>

text \<open>The constructor the menu calls for a request; \<open>p\<close> is the memory behind the key string.\<close>

fun build_request :: "byte list \<Rightarrow> request \<Rightarrow> byte list PDU_struct res" where
  "build_request p (Insert s v) = create_INSERT_to_server (s @ 0 # p) v (of_nat (length v))"
| "build_request p (Get s) = create_GET_to_server (s @ 0 # p)"
| "build_request p (Delete s) = create_DELETE_to_server (s @ 0 # p)"
| "build_request p r = create_INIT_to_server"

text \<open>What \<open>send_pdu\<close> puts on the connection for a sequence of requests.\<close>

fun client_stream :: "byte list \<Rightarrow> request list \<Rightarrow> byte list res" where
  "client_stream p [] = Inr []"
| "client_stream p (r # rs) =
     bind_r (build_request p r) (\<lambda>pdu.
     bind_r (c_read (data pdu) 0 (unat (data_bytes pdu))) (\<lambda>d.
     bind_r (client_stream p rs) (\<lambda>b. Inr (d @ b))))"

lemma build_request_fits:
  assumes "fits r" "KEY_SIZE \<le> length p"
  shows "build_request p r = Inr (sent_pdu r)"
proof (cases r)
  case (Insert s v)
  then have k: "nul_free s" "length s < KEY_SIZE" and n: "unat (of_nat (length v) :: u16) = length v"
    using assms(1) by (auto simp: fits_def key_text_def plain_def unat_of_nat)
  with Insert assms(2) create_INSERT_to_server_ok [OF k _ n, of p "[]"] show ?thesis by simp
next
  case (Get s)
  with assms create_GET_to_server_ok [of s p] show ?thesis by (auto simp: fits_def key_text_def plain_def)
next
  case (Delete s)
  with assms create_DELETE_to_server_ok [of s p] show ?thesis by (auto simp: fits_def key_text_def plain_def)
qed (use assms(1) in \<open>auto simp: fits_def\<close>)

lemma client_stream_fits:
  "\<forall>r \<in> set rs. fits r \<Longrightarrow> KEY_SIZE \<le> length p \<Longrightarrow> client_stream p rs = Inr (concat (map encode rs))"
  by (induction rs) (simp_all add: build_request_fits sent_pdu_def fits_length del: c_read_ok add: c_read_def)

section \<open>The answers\<close>

lemma kv_run_answers:
  "kv_run m rs as m' \<Longrightarrow> \<forall>r \<in> set rs. fits r \<Longrightarrow> \<forall>k v. m k = Some v \<longrightarrow> length v + HEADERSIZE \<le> MAX_PAYLOAD \<Longrightarrow>
   length as = length rs \<and> (\<forall>a \<in> set as. length a < 2 ^ 16)"
proof (induction rule: kv_run.induct)
  case (kv_cons m r a m1 rs as m')
  have "fits r" using kv_cons.prems(1) by simp
  with answer_length [OF kv_cons.hyps(1) kv_cons.prems(2)] step_keeps_short [OF kv_cons.hyps(1) _ kv_cons.prems(2)]
    kv_cons.IH kv_cons.prems(1) show ?case by auto
qed simp

text \<open>The bytes that were sent on one connection.\<close>

definition sent_on :: "u32 \<Rightarrow> (u32 \<times> byte list) list \<Rightarrow> byte list" where
  "sent_on sock out = concat (map snd (filter (\<lambda>d. fst d = sock) out))"

lemma sent_on_one: "distinct socks \<Longrightarrow> sock \<in> set socks \<Longrightarrow> sent_on sock (map (\<lambda>x. (x, d)) socks) = d"
proof (induction socks)
  case (Cons x socks)
  have "sock \<notin> set xs \<Longrightarrow> filter (\<lambda>d. fst d = sock) (map (\<lambda>x. (x, d)) xs) = []" for xs by (induction xs) auto
  with Cons show ?case by (auto simp: sent_on_def)
qed simp

lemma sent_on_all:
  assumes "distinct socks" "sock \<in> set socks"
  shows "sent_on sock (concat (map (\<lambda>a. map (\<lambda>x. (x, f a)) socks) as)) = concat (map f as)"
proof (induction as)
  case (Cons a as)
  then show ?case using sent_on_one [OF assms, of "f a"] by (simp add: sent_on_def)
qed (simp add: sent_on_def)

section \<open>The session\<close>

text \<open>
  C1. A session from the client's constructors back to the client: for any insertions, lookups and
  deletions of plain text that fit the netlink buffer, the bytes the client sends are received,
  queued and served, no step on the way faults or blocks, and every connected client receives
  exactly the answers of the abstract store, in order, while table and file hold its final state.
\<close>

theorem session_round_trip:
  assumes "rhashtable ops objs" "server_ok objs s m" "sender_list s = []" "sent s = []"
    "\<forall>r \<in> set rs. fits r" "5 * length rs < kavail (module s)" "KEY_SIZE \<le> length p"
    "distinct (clients_sockets s)" "me \<in> set (clients_sockets s)" "length stack = HEADERSIZE"
  shows "\<exists>b pdus c s1 s' as m' c'. client_stream p rs = Inr b \<and>
    receive_n stack sock (length rs) \<lparr>inbuf = b, segs = [], fin = Open\<rparr> = Some (pdus, c) \<and>
    queue_all pdus s = Inr s1 \<and> serve_queue ops junk (length rs) s1 = Some (Inr s') \<and>
    kv_run m rs as m' \<and> represents objs (module s') m' \<and> mirrors (store_file s') m' \<and>
    receive_n stack x (length rs) \<lparr>inbuf = sent_on me (sent s'), segs = [], fin = Open\<rparr> =
      Some (map answer_pdu as, c')"
proof -
  let ?c = "\<lparr>inbuf = concat (map encode rs), segs = [], fin = Open\<rparr>"
  obtain c where c: "receive_n stack sock (length rs) ?c = Some (map (pdu_of sock) (map Request rs), c)"
    using receive_requests [OF assms(5,10), of ?c "[]" sock] by auto
  let ?s1 = "s\<lparr>sender_list := map request_pdu rs\<rparr>"
  have q: "queue_all (map (pdu_of sock) (map Request rs)) s = Inr ?s1"
    using queue_all_requests [OF assms(5), of sock s] assms(3) by simp
  have "server_ok objs ?s1 m" "sender_list ?s1 = map request_pdu rs" "5 * length rs < kavail (module ?s1)"
    using assms(2,6) by (simp_all add: server_ok_def)
  from serve_queue_run [OF assms(1) this(1,2) assms(5) this(3), of junk] assms(4) obtain s' as m' where
    s': "serve_queue ops junk (length rs) ?s1 = Some (Inr s')" "kv_run m rs as m'" "server_ok objs s' m'"
    "sent s' = concat (map (\<lambda>a. map (\<lambda>sock. (sock, reply junk a)) (clients_sockets s)) as)" by auto
  have as: "length as = length rs" "\<forall>a \<in> set as. length a < 2 ^ 16"
    using kv_run_answers [OF s'(2) assms(5)] assms(2) by (auto simp: server_ok_def)
  have "sent_on me (sent s') = concat (map (reply junk) as)"
    unfolding s'(4) by (rule sent_on_all [OF assms(8,9)])
  then have "buffered \<lparr>inbuf = sent_on me (sent s'), segs = [], fin = Open\<rparr> (concat (map (reply junk) as) @ []) []"
    by (simp add: buffered_def stream_def)
  from replies.receive_all [OF _ this, of stack x] as(2) assms(10) obtain c' where
    "receive_n stack x (length rs) \<lparr>inbuf = sent_on me (sent s'), segs = [], fin = Open\<rparr> = Some (map answer_pdu as, c')"
    unfolding as(1) by blast
  then show ?thesis using client_stream_fits [OF assms(5,7)] c q s' by (auto simp: server_ok_def)
qed

theorem session_round_trip_witness:
  "\<exists>b pdus c s1 s' as m' c'. client_stream (replicate 64 7) [Insert [75] [86, 0], Get [75]] = Inr b \<and>
    receive_n [0, 0, 0, 0] 5 2 \<lparr>inbuf = b, segs = [], fin = Open\<rparr> = Some (pdus, c) \<and>
    queue_all pdus example_server = Inr s1 \<and> serve_queue list_table 0 2 s1 = Some (Inr s') \<and>
    kv_run Map.empty [Insert [75] [86, 0], Get [75]] as m' \<and> represents set (module s') m' \<and>
    mirrors (store_file s') m' \<and>
    receive_n [0, 0, 0, 0] 9 2 \<lparr>inbuf = sent_on 6 (sent s'), segs = [], fin = Open\<rparr> = Some (map answer_pdu as, c')"
proof -
  have f: "\<forall>r \<in> set [Insert [75] [86, 0], Get [75]]. fits r"
    by (simp add: fits_def key_text_def plain_def length_wire_key length_wire_insert)
  have l: "length [Insert [75] [86, 0], Get [75]] = 2" by simp
  have e: "sender_list example_server = []" "sent example_server = []"
    "5 * length [Insert [75] [86, 0], Get [75]] < kavail (module example_server)"
    "KEY_SIZE \<le> length (replicate 64 (7 :: byte))" "distinct (clients_sockets example_server)"
    "6 \<in> set (clients_sockets example_server)" "length [0, 0, 0, 0 :: byte] = HEADERSIZE"
    by (simp_all add: example_server_def start_state_def)
  show ?thesis
    using session_round_trip [OF list_table.rhashtable_axioms example_server_ok e(1,2) f e(3-7), of 5 0 9] unfolding l .
qed

end
