(* ===== verification/Interleave.thy ===== *)
theory Interleave
  imports ServerProps
begin

text \<open>
  All threads of the server that touch \<open>sender_list\<close> at once: one listening thread for each client
  (a pass of the loop of \<open>client_listener\<close>) and the thread of \<open>kernel_communication\<close> (its unlocked test for an empty
  list, its wait under an \<open>if\<close>, and the rest of the pass), in any order. Whatever the order, the clients are
  answered as by the abstract store under one sequence of requests, which keeps the order of each
  client; the one way to fault is a spurious wakeup, the one way to get stuck early is a lost one.
\<close>

section \<open>Turns\<close>

text \<open>
  The thread of \<open>kernel_communication\<close> is before its test for an empty list, between that test and
  \<open>pthread_cond_wait\<close>, in that call, or behind the \<open>if\<close>, where it takes the first PDU. \<open>exitServer\<close> stays false here: the server
  is not being closed.
\<close>

datatype sender_place = Testing | Locking | Waiting | Taking

record 'h world =
  server :: "'h system"
  conns :: "u32 \<Rightarrow> sock"
  kernel_thread :: sender_place

datatype turn = Listens u32 | Tests | Sleeps | Wakes | Serves

text \<open>
  A thread whose call blocks has no turn. The listening threads insert at the end of
  \<open>sender_list\<close>, which wakes the other thread if it waits (\<open>pthread_cond_broadcast\<close>); that one removes at
  the front. \<open>Wakes\<close>: \<open>pthread_cond_wait\<close> returns although nothing was inserted, as POSIX allows.
\<close>

inductive server_turn :: "'h rht_ops \<Rightarrow> byte \<Rightarrow> byte list \<Rightarrow> 'h world \<Rightarrow> turn \<Rightarrow> 'h world res \<Rightarrow> bool"
  for ops :: "'h rht_ops" and junk :: byte and stack :: "byte list" where
  listening: "i \<in> set (clients_sockets (server w)) \<Longrightarrow> receive_pdu stack i (conns w i) = Some (pdu, c) \<Longrightarrow>
    pdu \<noteq> Disconnected \<Longrightarrow> server_turn ops junk stack w (Listens i)
      (bind_r (client_pdu pdu (server w)) (\<lambda>s. Inr \<lparr>server = s, conns = (conns w)(i := c),
        kernel_thread = (if kernel_thread w = Waiting \<and> sender_list s \<noteq> sender_list (server w) then Taking else kernel_thread w)\<rparr>))"
| testing: "kernel_thread w = Testing \<Longrightarrow> server_turn ops junk stack w Tests
      (Inr (w\<lparr>kernel_thread := (if sender_list (server w) = [] then Locking else Taking)\<rparr>))"
| sleeping: "kernel_thread w = Locking \<Longrightarrow> server_turn ops junk stack w Sleeps (Inr (w\<lparr>kernel_thread := Waiting\<rparr>))"
| waking: "kernel_thread w = Waiting \<Longrightarrow> server_turn ops junk stack w Wakes (Inr (w\<lparr>kernel_thread := Taking\<rparr>))"
| serving: "kernel_thread w = Taking \<Longrightarrow> kernel_communication ops junk (server w) = Some r \<Longrightarrow>
    server_turn ops junk stack w Serves (bind_r r (\<lambda>s. Inr (w\<lparr>server := s, kernel_thread := Testing\<rparr>)))"

inductive_simps server_turn_simps:
  "server_turn ops junk stack w (Listens i) r" "server_turn ops junk stack w Serves r"

inductive server_run :: "'h rht_ops \<Rightarrow> byte \<Rightarrow> byte list \<Rightarrow> 'h world \<Rightarrow> turn list \<Rightarrow> 'h world \<Rightarrow> bool"
  for ops :: "'h rht_ops" and junk :: byte and stack :: "byte list" and w0 :: "'h world" where
  run_start: "server_run ops junk stack w0 [] w0"
| run_turn: "server_run ops junk stack w0 ts w \<Longrightarrow> server_turn ops junk stack w t (Inr w') \<Longrightarrow>
    server_run ops junk stack w0 (ts @ [t]) w'"

section \<open>The order of the requests\<close>

text \<open>The requests in the order in which they were received, and what each client has left.\<close>

fun arrivals :: "(u32 \<Rightarrow> request list) \<Rightarrow> turn list \<Rightarrow> (u32 \<times> request) list" where
  "arrivals reqs [] = []"
| "arrivals reqs (Listens i # ts) = (i, hd (reqs i)) # arrivals (reqs(i := tl (reqs i))) ts"
| "arrivals reqs (t # ts) = arrivals reqs ts"

definition left_over :: "(u32 \<Rightarrow> request list) \<Rightarrow> turn list \<Rightarrow> u32 \<Rightarrow> request list" where
  "left_over reqs ts i = drop (count_list ts (Listens i)) (reqs i)"

lemma left_over_Cons: "left_over (reqs(i := tl (reqs i))) ts = left_over reqs (Listens i # ts)"
  by (rule ext) (simp add: left_over_def drop_Suc)

lemma arrivals_snoc:
  "arrivals reqs (ts @ [t]) = arrivals reqs ts @
    (case t of Listens i \<Rightarrow> [(i, hd (left_over reqs ts i))] | _ \<Rightarrow> [])"
proof (induction ts arbitrary: reqs)
  case (Cons u ts)
  show ?case
  proof (cases u)
    case (Listens i)
    with Cons.IH [of "reqs(i := tl (reqs i))"] show ?thesis by (simp add: left_over_Cons del: fun_upd_apply split: turn.split)
  qed (use Cons.IH [of reqs] in \<open>simp_all add: left_over_def split: turn.splits\<close>)
qed (simp add: left_over_def split: turn.splits)

lemma arrivals_client:
  assumes "count_list ts (Listens i) \<le> length (reqs i)"
  shows "map snd (filter (\<lambda>x. fst x = i) (arrivals reqs ts)) = take (count_list ts (Listens i)) (reqs i)"
  using assms
proof (induction ts arbitrary: reqs)
  case (Cons u ts)
  show ?case
  proof (cases u)
    case (Listens j)
    with Cons.prems Cons.IH [of "reqs(j := tl (reqs j))"] show ?thesis
      by (cases "j = i"; cases "reqs i") (auto simp: fun_upd_same fun_upd_other simp del: fun_upd_apply)
  qed (use Cons in simp_all)
qed simp

lemma length_turns: "length ts = length (arrivals reqs ts) + count_list ts Serves + count_list ts Tests + count_list ts Sleeps +
    count_list ts Wakes"
proof (induction ts arbitrary: reqs)
  case (Cons u ts)
  then show ?case by (cases u) auto
qed simp

lemma length_arrivals:
  assumes "distinct cs" "\<forall>i. Listens i \<in> set ts \<longrightarrow> i \<in> set cs"
  shows "length (arrivals reqs ts) = (\<Sum>i\<leftarrow>cs. count_list ts (Listens i))"
  using assms(2)
proof (induction ts arbitrary: reqs)
  case (Cons u ts)
  show ?case
  proof (cases u)
    case (Listens i)
    have "(\<Sum>j\<leftarrow>cs. count_list (u # ts) (Listens j)) =
        (\<Sum>j\<leftarrow>cs. (if j = i then 1 else 0 :: nat) + count_list ts (Listens j))"
      unfolding Listens by (intro arg_cong [of _ _ sum_list] map_cong) auto
    also have "\<dots> = (\<Sum>j\<leftarrow>cs. (if j = i then 1 else 0 :: nat)) + (\<Sum>j\<leftarrow>cs. count_list ts (Listens j))"
      by (rule sum_list_addf)
    also have "(\<Sum>j\<leftarrow>cs. (if j = i then 1 else 0 :: nat)) = 1"
      using assms(1) Cons.prems Listens by (simp add: sum_list_distinct_conv_sum_set)
    finally show ?thesis using Cons.IH [of "reqs(i := tl (reqs i))"] Cons.prems Listens
      by (simp del: fun_upd_apply)
  qed (use Cons in simp_all)
qed simp

section \<open>The place of the kernel thread\<close>

text \<open>
  What the turns so far say about the place: each request is served after one test and at most one wait, a queue
  that holds requests while the thread waits or is about to was filled between the test and the wait, and only
  a spurious wakeup takes the thread past an empty queue. \<open>n\<close> is the length of the queue.
\<close>

definition place_ok :: "turn list \<Rightarrow> sender_place \<Rightarrow> nat \<Rightarrow> bool" where
  "place_ok ts p n \<longleftrightarrow>
     count_list ts Tests = count_list ts Serves + (if p = Testing then 0 else 1) \<and>
     count_list ts Sleeps \<le> count_list ts Serves + (if p = Waiting \<or> p = Taking then 1 else 0) \<and>
     count_list ts Wakes \<le> count_list ts Serves + (if p = Taking then 1 else 0) \<and>
     (p = Taking \<and> n = 0 \<longrightarrow> Wakes \<in> set ts) \<and>
     (p = Locking \<longrightarrow> (\<exists>ts' is. ts = ts' @ Tests # map Listens is \<and> length is = n)) \<and>
     (p = Waiting \<and> 0 < n \<longrightarrow> (\<exists>ts' is. ts = ts' @ Tests # map Listens is @ [Sleeps] \<and> length is = n))"

lemma place_ok_start: "place_ok [] Testing 0"
  by (simp add: place_ok_def)

lemma place_ok_listens:
  assumes "place_ok ts p n"
  shows "place_ok (ts @ [Listens i]) (if p = Waiting then Taking else p) (Suc n)"
proof -
  have "\<exists>ts'' is'. ts' @ Tests # map Listens is @ [Listens i] = ts'' @ Tests # map Listens is' \<and> length is' = Suc (length is)" for ts' "is"
    by (intro exI [of _ ts'] exI [of _ "is @ [i]"]) simp
  with assms show ?thesis by (cases p) (auto simp: place_ok_def)
qed

lemma place_ok_tests: "place_ok ts Testing n \<Longrightarrow> place_ok (ts @ [Tests]) (if n = 0 then Locking else Taking) n"
  by (auto simp: place_ok_def intro: exI [of _ "[]"])

lemma place_ok_sleeps: "place_ok ts Locking n \<Longrightarrow> place_ok (ts @ [Sleeps]) Waiting n"
  by (auto simp: place_ok_def)

lemma place_ok_wakes: "place_ok ts Waiting n \<Longrightarrow> place_ok (ts @ [Wakes]) Taking n"
  by (auto simp: place_ok_def)

lemma place_ok_serves: "place_ok ts Taking n \<Longrightarrow> place_ok (ts @ [Serves]) Testing n'"
  by (auto simp: place_ok_def)

section \<open>Single turns\<close>

lemma silent_client_blocks:
  assumes "stream c = []" "fin c = Open"
  shows "receive_pdu stack i c = None"
proof -
  have "wait_data [] ss = ([], [])" if "concat ss = []" for ss using that by (induction ss) auto
  with assms have "recv HEADERSIZE True c = None" by (simp add: recv_def stream_def)
  then show ?thesis unfolding receive_pdu_def by (subst receive_loop.simps) simp
qed

lemma request_received:
  assumes "fits r" "length stack = HEADERSIZE" "buffered c (encode r @ q) []"
  shows "\<exists>c'. receive_pdu stack i c = Some (pdu_of i (Request r), c') \<and> buffered c' q [] \<and> fin c' = fin c"
proof -
  have ok: "message_ok (Request r)" "\<forall>op. Request r \<noteq> Request (Unknown op)"
    using fits_message_ok [OF assms(1)] by auto
  have "wire (Request r) = encode r" by simp
  with receive_message [OF ok(1) _ assms(2), of c q "[]" i] assms(3) consumed_known [OF ok(2)]
  show ?thesis by simp
qed

section \<open>The invariant of a run\<close>

definition total_requests :: "(u32 \<Rightarrow> request list) \<Rightarrow> u32 list \<Rightarrow> nat" where
  "total_requests reqs cs = (\<Sum>i\<leftarrow>cs. length (reqs i))"

definition ready :: "('h \<Rightarrow> rhash_object set) \<Rightarrow> (u32 \<Rightarrow> request list) \<Rightarrow> 'h world \<Rightarrow> store \<Rightarrow> bool" where
  "ready objs reqs w m \<longleftrightarrow> server_ok objs (server w) m \<and> sender_list (server w) = [] \<and> sent (server w) = [] \<and>
     kernel_thread w = Testing \<and> distinct (clients_sockets (server w)) \<and>
     5 * total_requests reqs (clients_sockets (server w)) < kavail (module (server w)) \<and>
     (\<forall>i \<in> set (clients_sockets (server w)). (\<forall>r \<in> set (reqs i). fits r) \<and>
        buffered (conns w i) (concat (map encode (reqs i))) [] \<and> fin (conns w i) = Open)"

text \<open>The answers to every client.\<close>

definition broadcasts :: "byte \<Rightarrow> u32 list \<Rightarrow> byte list list \<Rightarrow> (u32 \<times> byte list) list" where
  "broadcasts junk cs as = concat (map (\<lambda>a. map (\<lambda>sock. (sock, reply junk a)) cs) as)"

definition run_ok :: "('h \<Rightarrow> rhash_object set) \<Rightarrow> byte \<Rightarrow> (u32 \<Rightarrow> request list) \<Rightarrow> 'h world \<Rightarrow> store \<Rightarrow> turn list \<Rightarrow>
    'h world \<Rightarrow> byte list list \<Rightarrow> store \<Rightarrow> bool" where
  "run_ok objs junk reqs w0 m ts w as m' \<longleftrightarrow>
     (let order = map snd (arrivals reqs ts); n = count_list ts Serves; cs = clients_sockets (server w0)
      in n \<le> length order \<and> (\<forall>r \<in> set order. fits r) \<and> kv_run m (take n order) as m' \<and>
         server_ok objs (server w) m' \<and> sender_list (server w) = map request_pdu (drop n order) \<and>
         clients_sockets (server w) = cs \<and> sent (server w) = broadcasts junk cs as \<and>
         kavail (module (server w0)) \<le> kavail (module (server w)) + 5 * n \<and>
         (\<forall>i. Listens i \<in> set ts \<longrightarrow> i \<in> set cs) \<and>
         place_ok ts (kernel_thread w) (length (sender_list (server w))) \<and>
         (\<forall>i \<in> set cs. count_list ts (Listens i) \<le> length (reqs i) \<and>
            buffered (conns w i) (concat (map encode (left_over reqs ts i))) [] \<and> fin (conns w i) = Open))"

lemma run_ok_start: "ready objs reqs w m \<Longrightarrow> run_ok objs junk reqs w m [] w [] m"
  by (simp add: run_ok_def ready_def broadcasts_def left_over_def Let_def place_ok_start)

lemma run_ok_place: "run_ok objs junk reqs w0 m ts w as m' \<Longrightarrow> place_ok ts (kernel_thread w) (length (sender_list (server w)))"
  unfolding run_ok_def Let_def by blast

lemma kv_run_snoc: "kv_run m rs as m1 \<Longrightarrow> kv_step m1 r a m2 \<Longrightarrow> kv_run m (rs @ [r]) (as @ [a]) m2"
  by (induction rule: kv_run.induct) auto

lemma served_le:
  assumes "run_ok objs junk reqs w0 m ts w as m'" "distinct (clients_sockets (server w0))"
  shows "length (arrivals reqs ts) \<le> total_requests reqs (clients_sockets (server w0))"
    and "length (arrivals reqs ts) = total_requests reqs (clients_sockets (server w0)) \<longleftrightarrow>
      (\<forall>i \<in> set (clients_sockets (server w0)). left_over reqs ts i = [])"
proof -
  let ?cs = "clients_sockets (server w0)"
  have c: "\<forall>i \<in> set ?cs. count_list ts (Listens i) \<le> length (reqs i)"
    and l: "length (arrivals reqs ts) = (\<Sum>i\<leftarrow>?cs. count_list ts (Listens i))"
    using assms by (auto simp: run_ok_def Let_def intro!: length_arrivals)
  have "(\<Sum>i\<leftarrow>cs. count_list ts (Listens i)) \<le> (\<Sum>i\<leftarrow>cs. length (reqs i)) \<and>
    ((\<Sum>i\<leftarrow>cs. count_list ts (Listens i)) = (\<Sum>i\<leftarrow>cs. length (reqs i)) \<longleftrightarrow>
      (\<forall>i \<in> set cs. count_list ts (Listens i) = length (reqs i)))"
    if "\<forall>i \<in> set cs. count_list ts (Listens i) \<le> length (reqs i)" for cs
    using that by (induction cs) auto
  from this [OF c] c show "length (arrivals reqs ts) \<le> total_requests reqs ?cs"
    "length (arrivals reqs ts) = total_requests reqs ?cs \<longleftrightarrow> (\<forall>i \<in> set ?cs. left_over reqs ts i = [])"
    unfolding l total_requests_def by (auto simp: left_over_def intro: le_antisym)
qed

lemma listening_turn:
  assumes ok: "run_ok objs junk reqs w0 m ts w as m'" and rd: "ready objs reqs w0 m" and st: "length stack = HEADERSIZE"
    and i: "i \<in> set (clients_sockets (server w0))" and l: "left_over reqs ts i = r # rs"
  shows "\<exists>c. receive_pdu stack i (conns w i) = Some (pdu_of i (Request r), c) \<and>
    client_pdu (pdu_of i (Request r)) (server w) =
      Inr ((server w)\<lparr>sender_list := sender_list (server w) @ [request_pdu r]\<rparr>) \<and>
    run_ok objs junk reqs w0 m (ts @ [Listens i])
      \<lparr>server = (server w)\<lparr>sender_list := sender_list (server w) @ [request_pdu r]\<rparr>, conns = (conns w)(i := c),
        kernel_thread = (if kernel_thread w = Waiting then Taking else kernel_thread w)\<rparr> as m'"
proof -
  have "r \<in> set (reqs i)" using l by (metis in_set_dropD left_over_def list.set_intros(1))
  then have f: "fits r" using rd i by (auto simp: ready_def)
  have b: "buffered (conns w i) (encode r @ concat (map encode rs)) []" "fin (conns w i) = Open"
    using ok i l by (auto simp: run_ok_def Let_def)
  from request_received [OF f st b(1), of i] b(2) obtain c where
    c: "receive_pdu stack i (conns w i) = Some (pdu_of i (Request r), c)" "buffered c (concat (map encode rs)) []" "fin c = Open"
    by auto
  have "count_list ts (Listens i) < length (reqs i)" using l by (auto simp: left_over_def intro: ccontr)
  moreover have "left_over reqs (ts @ [Listens i]) j = (if j = i then rs else left_over reqs ts j)" for j
    using l by (auto simp: left_over_def drop_Suc tl_drop [symmetric])
  ultimately show ?thesis
    using ok c f l i client_pdu_request [OF f, of i "server w"] place_ok_listens [of ts "kernel_thread w" _ i]
    by (auto simp: run_ok_def Let_def arrivals_snoc server_ok_def simp del: if_split)
qed

lemma serving_turn:
  assumes ht: "rhashtable ops objs" and ok: "run_ok objs junk reqs w0 m ts w as m'" and rd: "ready objs reqs w0 m"
    and ne: "sender_list (server w) \<noteq> []" and at: "kernel_thread w = Taking"
  shows "\<exists>s' a m''. kernel_communication ops junk (server w) = Some (Inr s') \<and>
    run_ok objs junk reqs w0 m (ts @ [Serves]) (w\<lparr>server := s', kernel_thread := Testing\<rparr>) (as @ [a]) m''"
proof -
  let ?order = "map snd (arrivals reqs ts)" and ?n = "count_list ts Serves"
  have q: "sender_list (server w) = map request_pdu (drop ?n ?order)" using ok by (simp add: run_ok_def Let_def)
  with ne have n: "?n < length ?order" by (auto intro: ccontr)
  let ?r = "?order ! ?n"
  have d: "drop ?n ?order = ?r # drop (Suc ?n) ?order" using n by (rule Cons_nth_drop_Suc [symmetric])
  have "\<forall>r \<in> set ?order. fits r" using ok unfolding run_ok_def Let_def by blast
  then have f: "fits ?r" using nth_mem [OF n] by blast
  have "length ?order \<le> total_requests reqs (clients_sockets (server w0))"
    using served_le(1) [OF ok] rd by (simp add: ready_def)
  then have mem: "6 \<le> kavail (module (server w))"
    using ok rd n by (simp add: run_ok_def ready_def Let_def)
  have "server_ok objs (server w) m'" "sender_list (server w) = request_pdu ?r # map request_pdu (drop (Suc ?n) ?order)"
    using ok q unfolding d by (simp_all add: run_ok_def Let_def)
  from kernel_round [OF ht this(1) f this(2) mem, of junk] obtain s' a m'' where
    s': "kernel_communication ops junk (server w) = Some (Inr s')" "kv_step m' ?r a m''" "server_ok objs s' m''"
    "sender_list s' = map request_pdu (drop (Suc ?n) ?order)" "clients_sockets s' = clients_sockets (server w)"
    "sent s' = sent (server w) @ map (\<lambda>sock. (sock, reply junk a)) (clients_sockets (server w))"
    "kavail (module (server w)) \<le> kavail (module s') + 5" by blast
  have "kv_run m (take (Suc ?n) ?order) (as @ [a]) m''"
    unfolding take_Suc_conv_app_nth [OF n] using ok s'(2) by (intro kv_run_snoc) (simp_all add: run_ok_def Let_def)
  moreover have "left_over reqs (ts @ [Serves]) = left_over reqs ts" by (rule ext) (simp add: left_over_def)
  moreover have "place_ok (ts @ [Serves]) Testing n'" for n'
  proof (rule place_ok_serves)
    show "place_ok ts Taking (length (sender_list (server w)))" using run_ok_place [OF ok] at by simp
  qed
  ultimately show ?thesis
    using ok s' n
    by (intro exI [of _ s'] exI [of _ a] exI [of _ m'']) (simp add: run_ok_def Let_def arrivals_snoc broadcasts_def)
qed

text \<open>The turns that only move the kernel thread.\<close>

lemma moving_turn:
  assumes "run_ok objs junk reqs w0 m ts w as m'" "t \<in> {Tests, Sleeps, Wakes}"
    "place_ok (ts @ [t]) p (length (sender_list (server w)))"
  shows "run_ok objs junk reqs w0 m (ts @ [t]) (w\<lparr>kernel_thread := p\<rparr>) as m'"
proof -
  have "left_over reqs (ts @ [t]) = left_over reqs ts" using assms(2) by (auto simp: left_over_def)
  with assms show ?thesis by (auto simp: run_ok_def Let_def arrivals_snoc)
qed

lemma server_run_ok:
  assumes ht: "rhashtable ops objs" and rd: "ready objs reqs w0 m" and st: "length stack = HEADERSIZE"
  shows "server_run ops junk stack w0 ts w \<Longrightarrow> \<exists>as m'. run_ok objs junk reqs w0 m ts w as m'"
proof (induction rule: server_run.induct)
  case run_start
  from run_ok_start [OF rd] show ?case by blast
next
  case (run_turn ts w t w')
  then obtain as m' where ok: "run_ok objs junk reqs w0 m ts w as m'" by blast
  have cs: "clients_sockets (server w) = clients_sockets (server w0)" using ok by (simp add: run_ok_def Let_def)
  from run_turn.hyps(2) show ?case
  proof (cases rule: server_turn.cases)
    case (listening i pdu c)
    have "left_over reqs ts i \<noteq> []"
    proof
      assume "left_over reqs ts i = []"
      then have "stream (conns w i) = []" "fin (conns w i) = Open"
        using ok listening(3) cs by (auto simp: run_ok_def Let_def buffered_def)
      from silent_client_blocks [OF this] listening(4) show False by simp
    qed
    then obtain r rs where "left_over reqs ts i = r # rs" by (cases "left_over reqs ts i") auto
    from listening_turn [OF ok rd st _ this] listening cs
    have "run_ok objs junk reqs w0 m (ts @ [t]) w' as m'" by (auto split: if_splits)
    then show ?thesis by blast
  next
    case testing
    have "place_ok ts Testing (length (sender_list (server w)))" using run_ok_place [OF ok] testing(3) by simp
    from moving_turn [OF ok _ place_ok_tests [OF this]] have "run_ok objs junk reqs w0 m (ts @ [t]) w' as m'"
      using testing by (simp split: if_splits)
    then show ?thesis by blast
  next
    case sleeping
    have "place_ok ts Locking (length (sender_list (server w)))" using run_ok_place [OF ok] sleeping(3) by simp
    from moving_turn [OF ok _ place_ok_sleeps [OF this]] have "run_ok objs junk reqs w0 m (ts @ [t]) w' as m'"
      using sleeping by (simp split: if_splits)
    then show ?thesis by blast
  next
    case waking
    have "place_ok ts Waiting (length (sender_list (server w)))" using run_ok_place [OF ok] waking(3) by simp
    from moving_turn [OF ok _ place_ok_wakes [OF this]] have "run_ok objs junk reqs w0 m (ts @ [t]) w' as m'"
      using waking by (simp split: if_splits)
    then show ?thesis by blast
  next
    case (serving r)
    have "sender_list (server w) \<noteq> []" using serving(2,4) by (auto simp: kernel_communication_def)
    from serving_turn [OF ht ok rd this serving(3)] obtain s' a m'' where
      "kernel_communication ops junk (server w) = Some (Inr s')"
      "run_ok objs junk reqs w0 m (ts @ [Serves]) (w\<lparr>server := s', kernel_thread := Testing\<rparr>) (as @ [a]) m''" by blast
    moreover from this(1) serving have "w' = w\<lparr>server := s', kernel_thread := Testing\<rparr>" by simp
    ultimately show ?thesis unfolding serving(1) by blast
  qed
qed

section \<open>Properties\<close>

text \<open>
  C2. The server is linearizable: in every interleaving of the listening threads of any number of
  clients with the kernel thread, lost and spurious wakeups included, the requests answered so far are answered to all clients exactly
  as the abstract store answers them one after the other in the order in which they were received;
  that order contains each client's requests in the order it sent them; the queue holds exactly
  the rest, and table and file are those of the store.
\<close>

theorem interleavings_linearizable:
  assumes "rhashtable ops objs" "ready objs reqs w0 m" "length stack = HEADERSIZE"
    "server_run ops junk stack w0 ts w" "i \<in> set (clients_sockets (server w0))"
  shows "map snd (filter (\<lambda>x. fst x = i) (arrivals reqs ts)) = take (count_list ts (Listens i)) (reqs i) \<and>
    (\<exists>as m'. kv_run m (take (count_list ts Serves) (map snd (arrivals reqs ts))) as m' \<and>
      sent (server w) = broadcasts junk (clients_sockets (server w0)) as \<and>
      sender_list (server w) = map request_pdu (drop (count_list ts Serves) (map snd (arrivals reqs ts))) \<and>
      represents objs (module (server w)) m' \<and> mirrors (store_file (server w)) m')"
proof -
  obtain as m' where ok: "run_ok objs junk reqs w0 m ts w as m'"
    using server_run_ok [OF assms(1-4)] by blast
  then have "count_list ts (Listens i) \<le> length (reqs i)" using assms(5) by (simp add: run_ok_def Let_def)
  from arrivals_client [of ts i reqs, OF this] ok show ?thesis
    by (auto simp: run_ok_def Let_def server_ok_def)
qed

definition example_requests_of :: "u32 \<Rightarrow> request list" where
  "example_requests_of = (\<lambda>_. [])(5 := [Insert [75] [86, 0]], 6 := [Get [75]])"

definition example_world :: "rhash_object list world" where
  "example_world = \<lparr>server = example_server,
     conns = (\<lambda>i. \<lparr>inbuf = concat (map encode (example_requests_of i)), segs = [], fin = Open\<rparr>), kernel_thread = Testing\<rparr>"

lemma example_world_ready: "ready set example_requests_of example_world Map.empty"
proof -
  have "fits (Insert [75] [86, 0])" "fits (Get [75])"
    by (simp_all add: fits_def key_text_def plain_def length_wire_key length_wire_insert)
  with example_server_ok show ?thesis
    by (simp add: ready_def example_world_def example_requests_of_def buffered_def stream_def total_requests_def
        example_server_def start_state_def)
qed

text \<open>A client that has not sent everything can be heard next.\<close>

lemma run_listens:
  assumes "server_run ops junk stack w0 ts w" "run_ok objs junk reqs w0 m ts w as m'" "ready objs reqs w0 m"
    "length stack = HEADERSIZE" "i \<in> set (clients_sockets (server w0))" "left_over reqs ts i = r # rs"
  shows "\<exists>w'. server_run ops junk stack w0 (ts @ [Listens i]) w' \<and> run_ok objs junk reqs w0 m (ts @ [Listens i]) w' as m' \<and>
    kernel_thread w' = (if kernel_thread w = Waiting then Taking else kernel_thread w)"
proof -
  obtain c where c: "receive_pdu stack i (conns w i) = Some (pdu_of i (Request r), c)"
      "client_pdu (pdu_of i (Request r)) (server w) = Inr ((server w)\<lparr>sender_list := sender_list (server w) @ [request_pdu r]\<rparr>)"
      "run_ok objs junk reqs w0 m (ts @ [Listens i])
        \<lparr>server = (server w)\<lparr>sender_list := sender_list (server w) @ [request_pdu r]\<rparr>, conns = (conns w)(i := c),
          kernel_thread = (if kernel_thread w = Waiting then Taking else kernel_thread w)\<rparr> as m'"
    using listening_turn [OF assms(2-6)] by blast
  have "i \<in> set (clients_sockets (server w))" "pdu_of i (Request r) \<noteq> Disconnected"
    using assms(2,5) by (cases r; simp add: run_ok_def Let_def)+
  from run_turn [OF assms(1) server_turn.listening [OF this(1) c(1) this(2), of ops junk, unfolded c(2), simplified]] c(3)
  show ?thesis by force
qed

text \<open>A run in which both requests are received between the test of the kernel thread and its wait.\<close>

lemma example_lost_wakeup: "\<exists>w. server_run list_table 0 [0, 0, 0, 0] example_world [Tests, Listens 5, Listens 6, Sleeps] w \<and>
  kernel_thread w = Waiting"
proof -
  let ?run = "server_run list_table 0 [0, 0, 0, 0] example_world"
  let ?ok = "\<lambda>ts w. run_ok set 0 example_requests_of example_world Map.empty ts w [] Map.empty"
  have st: "length [0, 0, 0, 0 :: byte] = HEADERSIZE" and cl: "5 \<in> set (clients_sockets (server example_world))"
    "6 \<in> set (clients_sockets (server example_world))"
    by (simp_all add: example_world_def example_server_def)
  have l: "left_over example_requests_of [Tests] 5 = [Insert [75] [86, 0]]" "left_over example_requests_of [Tests, Listens 5] 6 = [Get [75]]"
    by (simp_all add: example_requests_of_def left_over_def)
  have e: "kernel_thread example_world = Testing" "sender_list (server example_world) = []"
    by (simp_all add: example_world_def example_server_def start_state_def)
  have w1: "?run [Tests] (example_world\<lparr>kernel_thread := Locking\<rparr>)"
    using run_turn [OF run_start server_turn.testing [OF e(1)], of list_table 0 "[0, 0, 0, 0]"] e(2) by simp
  have "?ok ([] @ [Tests]) (example_world\<lparr>kernel_thread := Locking\<rparr>)"
    by (rule moving_turn [OF run_ok_start [OF example_world_ready]]) (use place_ok_tests [OF place_ok_start] e(2) in simp_all)
  then have ok1: "?ok [Tests] (example_world\<lparr>kernel_thread := Locking\<rparr>)" by simp
  from run_listens [OF w1 ok1 example_world_ready st cl(1) l(1)]
  obtain w2 where w2: "?run [Tests, Listens 5] w2" "?ok [Tests, Listens 5] w2" "kernel_thread w2 = Locking" by auto
  from run_listens [OF w2(1,2) example_world_ready st cl(2) l(2)] w2(3)
  obtain w3 where w3: "?run [Tests, Listens 5, Listens 6] w3" "kernel_thread w3 = Locking" by auto
  from run_turn [OF w3(1) server_turn.sleeping [OF w3(2)]]
  have "?run [Tests, Listens 5, Listens 6, Sleeps] (w3\<lparr>kernel_thread := Waiting\<rparr>)" by simp
  then show ?thesis by (intro exI [of _ "w3\<lparr>kernel_thread := Waiting\<rparr>"]) simp
qed

lemma example_run: "\<exists>w. server_run list_table 0 [0, 0, 0, 0] example_world [Listens 6] w"
proof -
  have "length [0, 0, 0, 0 :: byte] = HEADERSIZE" "6 \<in> set (clients_sockets (server example_world))"
    "left_over example_requests_of [] 6 = [Get [75]]"
    by (simp_all add: example_world_def example_server_def example_requests_of_def left_over_def)
  from run_listens [OF run_start run_ok_start [OF example_world_ready] example_world_ready this] show ?thesis by auto
qed

theorem interleavings_linearizable_witness:
  "\<exists>w as m'. server_run list_table 0 [0, 0, 0, 0] example_world [Listens 6] w \<and>
    kv_run Map.empty [] as m' \<and> sent (server w) = broadcasts 0 [5, 6] as \<and>
    sender_list (server w) = [request_pdu (Get [75])]"
proof -
  obtain w where w: "server_run list_table 0 [0, 0, 0, 0] example_world [Listens 6] w" using example_run by blast
  have "length [0, 0, 0, 0 :: byte] = HEADERSIZE" "6 \<in> set (clients_sockets (server example_world))"
    by (simp_all add: example_world_def example_server_def)
  from interleavings_linearizable [OF list_table.rhashtable_axioms example_world_ready this(1) w this(2)] w
  show ?thesis
    by (auto simp: example_requests_of_def example_world_def example_server_def)
qed

text \<open>
  C12. What can go wrong in such an interleaving, and nothing else can: the only fault is the null head of the empty
  queue, after a spurious wakeup (\<open>pthread_cond_wait\<close> stands under an \<open>if\<close>); and the server only gets stuck before all
  requests are answered when the last wait of the kernel thread was preceded by a lost wakeup: then all requests are received, and
  those that are left are exactly the ones received between its last test for an empty list (made without the mutex) and the
  wait that follows it. A run has at most five turns for each request and three more; and as long as a request
  is not received, or the kernel thread does not wait, some thread has a turn.
\<close>

theorem interleavings_complete:
  assumes "rhashtable ops objs" "ready objs reqs w0 m" "length stack = HEADERSIZE" "server_run ops junk stack w0 ts w"
  shows "(server_turn ops junk stack w t (Inl e) \<longrightarrow>
      t = Serves \<and> e = NullDeref \<and> sender_list (server w) = [] \<and> Wakes \<in> set ts) \<and>
    length ts \<le> 5 * total_requests reqs (clients_sockets (server w0)) + 3 \<and>
    ((\<nexists>t r. t \<noteq> Wakes \<and> server_turn ops junk stack w t r) \<longleftrightarrow>
      length (arrivals reqs ts) = total_requests reqs (clients_sockets (server w0)) \<and> kernel_thread w = Waiting) \<and>
    (kernel_thread w = Waiting \<and> sender_list (server w) \<noteq> [] \<longrightarrow>
      (\<exists>ts' is. ts = ts' @ Tests # map Listens is @ [Sleeps] \<and> length is = length (sender_list (server w))))"
proof -
  let ?cs = "clients_sockets (server w0)"
  obtain as m' where ok: "run_ok objs junk reqs w0 m ts w as m'"
    using server_run_ok [OF assms] by blast
  have cs: "clients_sockets (server w) = ?cs" and n: "count_list ts Serves \<le> length (arrivals reqs ts)"
    and pl: "place_ok ts (kernel_thread w) (length (sender_list (server w)))"
    using ok run_ok_place [OF ok] by (simp_all add: run_ok_def Let_def)
  have le: "length (arrivals reqs ts) \<le> total_requests reqs ?cs"
    and full: "length (arrivals reqs ts) = total_requests reqs ?cs \<longleftrightarrow> (\<forall>i \<in> set ?cs. left_over reqs ts i = [])"
    using served_le [OF ok] assms(2) by (auto simp: ready_def)
  have silent: "receive_pdu stack i (conns w i) = None" if "i \<in> set ?cs" "left_over reqs ts i = []" for i
    using that ok by (intro silent_client_blocks) (auto simp: run_ok_def Let_def buffered_def)
  have live: "\<exists>c s. receive_pdu stack i (conns w i) = Some (pdu_of i (Request (hd (left_over reqs ts i))), c) \<and>
      client_pdu (pdu_of i (Request (hd (left_over reqs ts i)))) (server w) = Inr s"
    if "i \<in> set ?cs" "left_over reqs ts i \<noteq> []" for i
    using listening_turn [OF ok assms(2,3) that(1), of "hd (left_over reqs ts i)" "tl (left_over reqs ts i)"] that(2) by auto
  have srv: "kernel_communication ops junk (server w) =
      Some (if sender_list (server w) = [] then Inl NullDeref else r)" if "kernel_thread w = Taking" "r = the (kernel_communication ops junk (server w))" for r
    using serving_turn [OF assms(1) ok assms(2) _ that(1)] that(2) by (auto simp: kernel_communication_def)
  have "t = Serves \<and> e = NullDeref \<and> sender_list (server w) = [] \<and> Wakes \<in> set ts" if "server_turn ops junk stack w t (Inl e)"
    using that
  proof (cases rule: server_turn.cases)
    case (listening i pdu c)
    then have "left_over reqs ts i \<noteq> []" using silent cs by auto
    with live [of i] listening cs obtain s where "client_pdu pdu (server w) = Inr s" by auto
    with listening show ?thesis by simp
  next
    case (serving r')
    have "sender_list (server w) = []"
      using serving_turn [OF assms(1) ok assms(2) _ serving(3)] serving(2,4) by fastforce
    moreover from this serving have "e = NullDeref" by (auto simp: kernel_communication_def)
    ultimately show ?thesis using serving(1,3) pl by (simp add: place_ok_def)
  qed
  moreover have "length ts \<le> 5 * total_requests reqs ?cs + 3"
    using length_turns [of ts reqs] n le pl by (auto simp: place_ok_def split: if_splits)
  moreover have "(\<nexists>t r. t \<noteq> Wakes \<and> server_turn ops junk stack w t r) \<longleftrightarrow>
      (\<forall>i \<in> set ?cs. left_over reqs ts i = []) \<and> kernel_thread w = Waiting"
  proof (intro iffI conjI ballI)
    assume none: "\<nexists>t r. t \<noteq> Wakes \<and> server_turn ops junk stack w t r"
    show "kernel_thread w = Waiting"
    proof (cases "kernel_thread w")
      case Testing
      from server_turn.testing [OF this, of ops junk stack] none show ?thesis by blast
    next
      case Locking
      from server_turn.sleeping [OF this, of ops junk stack] none show ?thesis by blast
    next
      case Taking
      from server_turn.serving [OF this srv [OF Taking refl], of stack] none show ?thesis by blast
    qed
    show "left_over reqs ts i = []" if i: "i \<in> set ?cs" for i
    proof (rule ccontr)
      assume "left_over reqs ts i \<noteq> []"
      from live [OF i this] obtain c where
        "receive_pdu stack i (conns w i) = Some (pdu_of i (Request (hd (left_over reqs ts i))), c)" by blast
      moreover have "pdu_of i (Request (hd (left_over reqs ts i))) \<noteq> Disconnected"
        by (cases "hd (left_over reqs ts i)") auto
      moreover have "i \<in> set (clients_sockets (server w))" using i cs by simp
      ultimately show False using none server_turn.listening [of i w stack _ c ops junk] by blast
    qed
  next
    assume all: "(\<forall>i \<in> set ?cs. left_over reqs ts i = []) \<and> kernel_thread w = Waiting"
    show "\<nexists>t r. t \<noteq> Wakes \<and> server_turn ops junk stack w t r"
      using all silent cs by (auto elim!: server_turn.cases)
  qed
  ultimately show ?thesis unfolding full using pl by (auto simp: place_ok_def)
qed

theorem interleavings_complete_witness:
  "\<exists>w. server_run list_table 0 [0, 0, 0, 0] example_world [Tests, Listens 5, Listens 6, Sleeps] w \<and>
    kernel_thread w = Waiting \<and> length (sender_list (server w)) = 2 \<and>
    (\<nexists>t r. t \<noteq> Wakes \<and> server_turn list_table 0 [0, 0, 0, 0] w t r)"
proof -
  obtain w where w: "server_run list_table 0 [0, 0, 0, 0] example_world [Tests, Listens 5, Listens 6, Sleeps] w"
    "kernel_thread w = Waiting" using example_lost_wakeup by blast
  have st: "length [0, 0, 0, 0 :: byte] = HEADERSIZE" by simp
  have n: "total_requests example_requests_of (clients_sockets (server example_world)) = 2"
    by (simp add: total_requests_def example_world_def example_server_def example_requests_of_def)
  from server_run_ok [OF list_table.rhashtable_axioms example_world_ready st w(1)]
  have "length (sender_list (server w)) = 2" by (auto simp: run_ok_def Let_def)
  moreover have "\<nexists>t r. t \<noteq> Wakes \<and> server_turn list_table 0 [0, 0, 0, 0] w t r"
    using interleavings_complete [OF list_table.rhashtable_axioms example_world_ready st w(1)] w(2) unfolding n by auto
  ultimately show ?thesis using w by blast
qed

end
