(* ===== verification/Drivers.thy ===== *)
theory Drivers
  imports Server Client
begin

text \<open>
  The throughput tests: \<open>test_function\<close> of OU4/User/server.c, which drives the kernel module past the
  queue, and \<open>end_2_end_test_1\<close> and \<open>end_2_end_test_2\<close> of OU4/Client/client.c. The local arrays \<open>key\<close> and
  \<open>data\<close> are the memory from them on (64 bytes each in the server, 10 in the client), what they hold
  at the start of a pass does not matter.
\<close>

section \<open>Text\<close>

text \<open>\<open>%d\<close> of a number that is not negative, and \<open>sprintf\<close> into an array.\<close>

fun decimal :: "nat \<Rightarrow> byte list" where
  "decimal n = (if n < 10 then [48 + of_nat n] else decimal (n div 10) @ [48 + of_nat (n mod 10)])"

declare decimal.simps [simp del]

definition c_sprintf :: "byte list \<Rightarrow> byte list \<Rightarrow> byte list res" where
  "c_sprintf buf s = c_write buf 0 (s @ [0])"

section \<open>The test of the server\<close>

definition test_key :: "nat \<Rightarrow> byte list" where
  "test_key i = bytes ''MMMMMMMMMMM MMMMMMMMMMMMMMMMMMMMM'' @ decimal i"

definition test_data :: "byte list" where
  "test_data = bytes ''AAAAAAAAAAAAAAAAAAAAAAAAAAAAAAAAA AAAAAAAAAAAAAAAAAAAAAAAAAAAAAA''"

text \<open>The PDU of the pass \<open>i\<close>.\<close>

definition test_pdu :: "byte list \<Rightarrow> byte list \<Rightarrow> nat \<Rightarrow> byte list PDU_struct res" where
  "test_pdu key_array data_array i =
     bind_r (c_sprintf key_array (test_key i)) (\<lambda>key.
     bind_r (c_sprintf data_array test_data) (\<lambda>d.
     bind_r (c_strlen key) (\<lambda>key_len.
     bind_r (c_read key 0 key_len) (\<lambda>k.
     bind_r (c_write (replicate KEY_SIZE 0) 0 k) (\<lambda>k.
     bind_r (c_strlen d) (\<lambda>len.
     let n = of_nat (len + 1) :: u16
     in bind_r (c_read d 0 (unat n)) (\<lambda>v.
        bind_r (c_write (replicate (len + 1) 0) 0 v) (\<lambda>v.
        bind_r (PDU_to_buffer_user INSERT
          (S_INSERT \<lparr>INSERT_op = INSERT, INSERT_key = k, INSERT_bytes = n, INSERT_data = v\<rparr>))
          (user_pdu (n + of_nat HEADERSIZE + of_nat KEY_SIZE))))))))))"

definition test_pass :: "'h rht_ops \<Rightarrow> byte \<Rightarrow> byte list \<Rightarrow> byte list \<Rightarrow> nat \<Rightarrow> 'h system \<Rightarrow> 'h system res option" where
  "test_pass ops junk key_array data_array i s =
     bind_b (Some (test_pdu key_array data_array i)) (\<lambda>pdu_send.
     bind_b (nl_exchange ops junk (data pdu_send) (unat (data_bytes pdu_send)) s) (\<lambda>s.
     bind_b (Some (read_exactly_from_kernel (nl_receive_buf s))) (\<lambda>pdu_recieve.
     bind_b (Some (store_data (data pdu_send) (data pdu_recieve) (store_file s))) (\<lambda>f.
     Some (Inr (s\<lparr>store_file := f\<rparr>))))))"

fun test_passes :: "'h rht_ops \<Rightarrow> byte \<Rightarrow> byte list \<Rightarrow> byte list \<Rightarrow> nat \<Rightarrow> nat \<Rightarrow> 'h system \<Rightarrow> 'h system res option" where
  "test_passes ops junk key_array data_array i 0 s = Some (Inr s)"
| "test_passes ops junk key_array data_array i (Suc n) s =
     bind_b (test_pass ops junk key_array data_array i s)
       (test_passes ops junk key_array data_array (i + 1) n)"

definition test_function :: "'h rht_ops \<Rightarrow> byte \<Rightarrow> byte list \<Rightarrow> byte list \<Rightarrow> 'h system \<Rightarrow> 'h system res option" where
  "test_function ops junk key_array data_array s = test_passes ops junk key_array data_array 0 500000 s"

section \<open>The tests of the client\<close>

text \<open>What was written to the socket, and the counters that \<open>client_listen\<close> compares.\<close>

record test_run =
  written :: "byte list"
  num_send :: int
  num_receive :: int

definition end_2_end_pass :: "byte list \<Rightarrow> byte list \<Rightarrow> nat \<Rightarrow> test_run \<Rightarrow> test_run res" where
  "end_2_end_pass key_array data_array i t =
     bind_r (c_sprintf key_array (decimal i)) (\<lambda>key.
     bind_r (c_sprintf data_array (decimal i)) (\<lambda>d.
     bind_r (c_strlen d) (\<lambda>len.
     bind_r (create_INSERT_to_server key d (of_nat (len + 1))) (\<lambda>PDU_struct_send.
     bind_r (c_read (data PDU_struct_send) 0 (unat (data_bytes PDU_struct_send))) (\<lambda>b.
     Inr (t\<lparr>written := written t @ b, num_send := num_send t + 1\<rparr>))))))"

fun end_2_end_passes :: "byte list \<Rightarrow> byte list \<Rightarrow> nat \<Rightarrow> nat \<Rightarrow> test_run \<Rightarrow> test_run res" where
  "end_2_end_passes key_array data_array i 0 t = Inr t"
| "end_2_end_passes key_array data_array i (Suc n) t =
     bind_r (end_2_end_pass key_array data_array i t) (end_2_end_passes key_array data_array (i + 1) n)"

definition end_2_end_test_1 :: "byte list \<Rightarrow> byte list \<Rightarrow> test_run \<Rightarrow> test_run res" where
  "end_2_end_test_1 key_array data_array t =
     end_2_end_passes key_array data_array 0 1000000 (t\<lparr>num_send := 0, num_receive := 0\<rparr>)"

definition end_2_end_test_2 :: "byte list \<Rightarrow> byte list \<Rightarrow> test_run \<Rightarrow> test_run res" where
  "end_2_end_test_2 key_array data_array t = end_2_end_passes key_array data_array 10000 10000 t"

section \<open>The test with integers\<close>

text \<open>The bytes \<open>data\<close> of a received PDU points to, as \<open>printf\<close> and \<open>memcpy\<close> take them.\<close>

definition received_data :: "received \<Rightarrow> byte list res" where
  "received_data r =
     (case r of
        Null_PDU \<Rightarrow> Inl NullDeref
      | Disconnected \<Rightarrow> Inl UninitDeref
      | Received pdu \<Rightarrow> (case data pdu of Buffer d \<Rightarrow> Inr d | _ \<Rightarrow> Inl WrongCell))"

definition ask :: "byte list \<Rightarrow> u32 \<Rightarrow> byte list PDU_struct \<Rightarrow> sock \<times> byte list \<Rightarrow> ((received \<times> sock \<times> byte list) res) option" where
  "ask stack sock pdu s =
     bind_b (Some (c_read (data pdu) 0 (unat (data_bytes pdu)))) (\<lambda>d.
     map_option (\<lambda>(r, c). Inr (r, c, snd s @ d)) (receive_pdu stack sock (fst s)))"

text \<open>One pass of \<open>TEST_INT_INSERT\<close>; \<open>lit\<close> is the memory of the string literal \<open>test_key\<close> points to.\<close>

definition test_int_pass :: "byte list \<Rightarrow> u32 \<Rightarrow> byte list \<Rightarrow> sock \<times> byte list \<Rightarrow> (sock \<times> byte list) res option" where
  "test_int_pass stack sock lit s =
     bind_b (Some (create_INSERT_to_server lit (le32 1024) 4)) (\<lambda>PDU_struct_send.
     bind_b (ask stack sock PDU_struct_send s) (\<lambda>(PDU_struct_recieve, s).
     bind_b (Some (received_data PDU_struct_recieve)) (\<lambda>d.
     bind_b (Some (c_strlen d)) (\<lambda>_.
     bind_b (Some (create_GET_to_server lit)) (\<lambda>PDU_struct_send2.
     bind_b (ask stack sock PDU_struct_send2 s) (\<lambda>(PDU_struct_recieve2, s).
     bind_b (Some (received_data PDU_struct_recieve2)) (\<lambda>d.
     bind_b (Some (c_read d 0 4)) (\<lambda>v.
     bind_b (Some (c_write (le16 0) 0 v)) (\<lambda>res_data. Some (Inr s))))))))))"

definition TEST_INT_INSERT :: "byte list \<Rightarrow> u32 \<Rightarrow> byte list \<Rightarrow> byte list \<Rightarrow> sock \<times> byte list \<Rightarrow> (sock \<times> byte list) res option" where
  "TEST_INT_INSERT stack sock key1 key2 s =
     bind_b (test_int_pass stack sock key1 s) (test_int_pass stack sock key2)"

end
