(* ===== verification/Terminal.thy ===== *)
theory Terminal
  imports Drivers
begin

text \<open>
  The loops at the terminals: \<open>server_writer\<close> of OU4/User/server.c and the loop of \<open>client_send\<close> of
  OU4/Client/client.c, on the bytes of standard input.
\<close>

text \<open>A loop may go on behind a call that may not return.\<close>

lemma bind_b_Option: "bind_b m f = Option.bind m (\<lambda>r. case r of Inl e \<Rightarrow> Some (Inl e) | Inr x \<Rightarrow> f x)"
  by (cases m) (auto simp: bind_b_def split: sum.splits)

lemma bind_b_mono [partial_function_mono]:
  assumes "mono_option m" "\<And>y. mono_option (\<lambda>f. g y f)"
  shows "mono_option (\<lambda>f. bind_b (m f) (\<lambda>y. g y f))"
proof -
  have "mono_option (\<lambda>f. case r of Inl e \<Rightarrow> Some (Inl e) | Inr x \<Rightarrow> g x f)" for r
    using assms(2) by (cases r) (auto intro: option.const_mono)
  then show ?thesis unfolding bind_b_Option by (intro Partial_Function.bind_mono assms(1))
qed

section \<open>The terminal of the server\<close>

text \<open>
  The array \<open>message\<close> is not cleared between the passes, and at the end of the input \<open>fgets\<close> leaves it as it is, so the
  argument \<open>message\<close> is the string it holds: before the first pass anything. The result is the system when
  \<open>close_server\<close> is called. The other threads have their turns between two calls (see \<open>Interleave\<close>), what they
  change is not seen here.
\<close>

partial_function (option) server_writer :: "'h rht_ops \<Rightarrow> byte \<Rightarrow> byte list \<Rightarrow> byte list \<Rightarrow> byte list \<Rightarrow> byte list \<Rightarrow> 'h system \<Rightarrow> 'h system res option" where
  "server_writer ops junk key_array data_array message input s =
     (case get_message message input of (message, rest) \<Rightarrow>
        bind_b (Some (c_strncmp (message @ [0]) (c_str [CHR 0x0A]) MAXMESSLEN)) (\<lambda>d.
        if d = 0 then server_writer ops junk key_array data_array message rest s
        else bind_b (Some (c_strncmp (message @ [0]) (c_str ''exit'') 4)) (\<lambda>d.
          if d = 0 then Some (Inr s)
          else bind_b (Some (c_strncmp (message @ [0]) (c_str ''test'') 4)) (\<lambda>d.
            if d = 0 then bind_b (test_function ops junk key_array data_array s)
              (\<lambda>s. server_writer ops junk key_array data_array message rest s)
            else server_writer ops junk key_array data_array message rest s))))"

section \<open>The terminal of the client\<close>

text \<open>
  The arrays of the tests have ten bytes. The state is the connection and what was written to it. \<open>left i\<close>: the
  loop is left before the pass \<open>i\<close>, because the listening thread has set \<open>close_client\<close>, or because
  \<open>choice\<close>, which is tested after every pass and never assigned, happens to hold 5. \<open>message\<close> is the string that
  the array of that name holds; at the end of the input each pass acts on the last one again.
\<close>

datatype session_end = Has_quit | Left_loop

partial_function (option) client_session ::
  "byte list \<Rightarrow> u32 \<Rightarrow> (nat \<Rightarrow> bool) \<Rightarrow> nat \<Rightarrow> byte list \<Rightarrow> byte list \<Rightarrow> sock \<times> byte list \<Rightarrow> (session_end \<times> sock \<times> byte list) res option" where
  "client_session stack sock left i message input s =
     (if left i then Some (Inr (Left_loop, s))
      else case get_message message input of (message, input) \<Rightarrow>
        bind_b (Some (menu_pass message input)) (\<lambda>(m, rest).
          case m of
            Again \<Rightarrow> client_session stack sock left (i + 1) message rest s
          | Sends p \<Rightarrow> bind_b (Some (c_read (data p) 0 (unat (data_bytes p)))) (\<lambda>d.
              client_session stack sock left (i + 1) message rest (fst s, snd s @ d))
          | Quits p \<Rightarrow> bind_b (Some (c_read (data p) 0 (unat (data_bytes p)))) (\<lambda>d. Some (Inr (Has_quit, fst s, snd s @ d)))
          | Test b \<Rightarrow>
              if b = 54 then bind_b (TEST_INT_INSERT stack sock (c_str ''key1'') (c_str ''key2'') s)
                (\<lambda>s. client_session stack sock left (i + 1) message rest s)
              else
                bind_b (Some (if b = 55 then end_2_end_test_1 (replicate 10 0) (replicate 10 0) \<lparr>written = snd s, num_send = 0, num_receive = 0\<rparr>
                              else end_2_end_test_2 (replicate 10 0) (replicate 10 0) \<lparr>written = snd s, num_send = 0, num_receive = 0\<rparr>)) (\<lambda>t.
                client_session stack sock left (i + 1) message rest (fst s, written t))))"

end
