(* ===== verification/DriversProps.thy ===== *)
theory DriversProps
  imports Drivers EndToEnd
begin

text \<open>
  The throughput tests on arrays of any size: what they do when the arrays are large enough, and
  that the ones in the code are not.
\<close>

section \<open>Numbers as text\<close>

lemma decimal_chars: "set (decimal n) \<subseteq> of_nat ` {48..57}"
proof (induction n rule: decimal.induct)
  case (1 n)
  have "48 + of_nat d \<in> (of_nat :: nat \<Rightarrow> byte) ` {48..57}" if "d < 10" for d
    using that by (intro image_eqI [of _ _ "48 + d"]) simp_all
  with 1 show ?case by (subst decimal.simps) auto
qed

lemma plain_decimal: "plain (decimal n)"
proof -
  have "b \<notin> set (decimal n)" if "b \<in> {0, colon, newline}" for b
  proof
    assume "b \<in> set (decimal n)"
    then obtain d where d: "d \<in> {48..57}" "b = of_nat d" using decimal_chars by blast
    then have "unat b = d" by (simp add: unat_of_nat)
    with d(1) that show False by auto
  qed
  then show ?thesis by (simp add: plain_def nul_free_def)
qed

lemma decimal_not_empty: "decimal n \<noteq> []"
  by (subst decimal.simps) simp

lemma length_decimal: "n < 10 ^ Suc k \<Longrightarrow> length (decimal n) \<le> Suc k"
proof (induction k arbitrary: n)
  case (Suc k)
  then have "n div 10 < 10 ^ Suc k" by simp
  with Suc.IH show ?case by (subst decimal.simps) auto
qed (simp add: decimal.simps)

lemma length_decimal_6: "n < 1000000 \<Longrightarrow> length (decimal n) \<le> 6"
  using length_decimal [of n 5] by simp

lemma sprintf_fits: "length s < length buf \<Longrightarrow> c_sprintf buf s = Inr (s @ 0 # drop (Suc (length s)) buf)"
  by (simp add: c_sprintf_def)

lemma sprintf_overflow: "length buf \<le> length s \<Longrightarrow> c_sprintf buf s = Inl OutOfBoundsWrite"
  by (simp add: c_sprintf_def c_write_fail)

section \<open>The test of the server\<close>

definition test_request :: "nat \<Rightarrow> request" where
  "test_request i = Insert (test_key i) (test_data @ [0])"

lemma test_request_fits:
  assumes "i < 1000000"
  shows "fits (test_request i)"
proof -
  have "plain (test_key i)" using plain_decimal [of i] by (simp add: test_key_def plain_def nul_free_def)
  moreover have "plain test_data" by (simp add: test_data_def plain_def nul_free_def)
  moreover have "length (test_key i) \<le> 39" "length test_data = 64"
    using length_decimal_6 [OF assms] by (simp_all add: test_key_def test_data_def)
  moreover have "test_key i \<noteq> []" by (simp add: test_key_def)
  ultimately show ?thesis
    by (simp add: test_request_def fits_def key_text_def length_wire_insert)
qed

lemma key_copied:
  assumes "length s < KEY_SIZE"
  shows "c_write (replicate KEY_SIZE 0) 0 s = Inr (s @ 0 # replicate (KEY_SIZE - 1 - length s) 0)"
proof -
  have "KEY_SIZE - length s = Suc (KEY_SIZE - 1 - length s)" using assms by simp
  then have "drop (length s) (replicate KEY_SIZE 0) = (0 :: byte) # replicate (KEY_SIZE - 1 - length s) 0"
    by (simp only: drop_replicate replicate_Suc)
  with assms show ?thesis by (simp del: drop_replicate)
qed

lemma test_pdu_ok:
  assumes "KEY_SIZE \<le> length key_array" "64 < length data_array" "i < 1000000"
  shows "test_pdu key_array data_array i = Inr (sent_pdu (test_request i))"
proof -
  let ?n = "of_nat 65 :: u16"
  have d: "nul_free test_data" "length test_data = 64" by (simp_all add: test_data_def nul_free_def)
  have k: "nul_free (test_key i)" "length (test_key i) < KEY_SIZE"
    using test_request_fits [OF assms(3)] by (simp_all add: test_request_def fits_def key_text_def plain_def)
  have s: "c_sprintf key_array (test_key i) = Inr (test_key i @ 0 # drop (Suc (length (test_key i))) key_array)"
    "c_sprintf data_array test_data = Inr (test_data @ 0 # drop (Suc 64) data_array)"
    using k(2) d(2) assms(1,2) by (simp_all add: sprintf_fits)
  have b: "create_INSERT_buffer \<lparr>INSERT_op = INSERT, INSERT_key = test_key i @ 0 # replicate (KEY_SIZE - 1 - length (test_key i)) 0,
      INSERT_bytes = ?n, INSERT_data = test_data @ [0]\<rparr> = Inr (wire_insert (test_key i) (test_data @ [0]))"
    using create_INSERT_buffer_ok [OF k, of ?n "test_data @ [0]" _ "[]"] d(2) by simp
  show ?thesis
    unfolding test_pdu_def s bind_r_Inr c_strlen_append [OF k(1)] c_strlen_append [OF d(1)]
    using key_copied [OF k(2)] k(2) d(2) b
    by (simp add: PDU_to_buffer_user_def user_pdu_def sent_pdu_def test_request_def length_wire_insert)
qed

lemma test_pass_ok:
  assumes ht: "rhashtable ops objs" and ok: "server_ok objs s m" and mem: "6 \<le> kavail (module s)"
    and arrays: "KEY_SIZE \<le> length key_array" "64 < length data_array" and i: "i < 1000000"
  shows "\<exists>s' a m'. test_pass ops junk key_array data_array i s = Some (Inr s') \<and>
    kv_step m (test_request i) a m' \<and> server_ok objs s' m' \<and> sender_list s' = sender_list s \<and>
    clients_sockets s' = clients_sockets s \<and> sent s' = sent s \<and> kavail (module s) \<le> kavail (module s') + 5"
proof -
  note f = test_request_fits [OF i]
  from exchange_round [OF ht ok f mem, of junk "[]"] obtain s1 a m' f' where
    x: "nl_exchange ops junk (encode (test_request i)) (length (encode (test_request i))) s = Some (Inr s1)"
      "read_exactly_from_kernel (nl_receive_buf s1) = Inr (answer_message junk a)"
      "store_data (encode (test_request i)) (reply junk a) (store_file s1) = Inr f'" and
    st: "kv_step m (test_request i) a m'" "server_ok objs (s1\<lparr>store_file := f'\<rparr>) m'"
      "sender_list s1 = sender_list s" "clients_sockets s1 = clients_sockets s" "sent s1 = sent s"
      "kavail (module s) \<le> kavail (module s1) + 5" by auto
  have "test_pass ops junk key_array data_array i s = Some (Inr (s1\<lparr>store_file := f'\<rparr>))"
    unfolding test_pass_def test_pdu_ok [OF arrays i] sent_pdu_def PDU_struct.select_convs fits_length [OF f] x(1,2) bind_b_simps
      answer_message_def x(3) ..
  with st show ?thesis by auto
qed

lemma test_passes_run:
  assumes ht: "rhashtable ops objs" and arrays: "KEY_SIZE \<le> length key_array" "64 < length data_array"
  shows "server_ok objs s m \<Longrightarrow> 5 * n < kavail (module s) \<Longrightarrow> i + n \<le> 1000000 \<Longrightarrow>
    \<exists>s' as m'. test_passes ops junk key_array data_array i n s = Some (Inr s') \<and>
      kv_run m (map test_request [i..<i + n]) as m' \<and> server_ok objs s' m' \<and>
      sender_list s' = sender_list s \<and> clients_sockets s' = clients_sockets s \<and> sent s' = sent s"
proof (induction n arbitrary: i s m)
  case (Suc n)
  have "6 \<le> kavail (module s)" "i < 1000000" using Suc.prems by simp_all
  from test_pass_ok [OF ht Suc.prems(1) this(1) arrays this(2), of junk] obtain s1 a m1 where
    s1: "test_pass ops junk key_array data_array i s = Some (Inr s1)" "kv_step m (test_request i) a m1" "server_ok objs s1 m1"
      "sender_list s1 = sender_list s" "clients_sockets s1 = clients_sockets s" "sent s1 = sent s"
      "kavail (module s) \<le> kavail (module s1) + 5" by blast
  have "5 * n < kavail (module s1)" "i + 1 + n \<le> 1000000" using Suc.prems s1(7) by simp_all
  from Suc.IH [OF s1(3) this] obtain s' as m' where
    s': "test_passes ops junk key_array data_array (i + 1) n s1 = Some (Inr s')"
      "kv_run m1 (map test_request [i + 1..<i + 1 + n]) as m'" "server_ok objs s' m'"
      "sender_list s' = sender_list s1" "clients_sockets s' = clients_sockets s1" "sent s' = sent s1" by blast
  have "[i..<i + Suc n] = i # [i + 1..<i + 1 + n]" by (simp add: upt_conv_Cons)
  then have "kv_run m (map test_request [i..<i + Suc n]) (a # as) m'"
    using s1(2) s'(2) by auto
  with s1 s' show ?case by (intro exI [of _ s'] exI [of _ "a # as"] exI [of _ m']) simp
qed simp

text \<open>
  C33. The test of the server writes past its array in the first pass: the text it prints into
  \<open>data\<close> has 64 characters, as many as the array has bytes, so the NUL lands behind it. With one
  byte more all 500000 requests are served as the abstract store serves them, the store file
  follows, and no client and no queued PDU is touched.
\<close>

theorem server_test_overflows:
  assumes "rhashtable ops objs" "server_ok objs s m" "5 * 500000 < kavail (module s)" "length key_array = KEY_SIZE"
  shows "if length data_array \<le> 64
    then test_function ops junk key_array data_array s = Some (Inl OutOfBoundsWrite)
    else \<exists>s' as m'. test_function ops junk key_array data_array s = Some (Inr s') \<and>
      kv_run m (map test_request [0..<500000]) as m' \<and> represents objs (module s') m' \<and> mirrors (store_file s') m' \<and>
      sender_list s' = sender_list s \<and> sent s' = sent s"
proof (cases "length data_array \<le> 64")
  case True
  have "fits (test_request 0)" by (rule test_request_fits) simp
  then have "length (test_key 0) < length key_array" "length test_data = 64"
    using assms(4) by (simp_all add: test_request_def fits_def key_text_def test_data_def)
  with True have "test_pdu key_array data_array 0 = Inl OutOfBoundsWrite"
    by (simp add: test_pdu_def sprintf_fits sprintf_overflow)
  moreover have n: "(500000 :: nat) = Suc 499999" by simp
  ultimately have "test_function ops junk key_array data_array s = Some (Inl OutOfBoundsWrite)"
    unfolding test_function_def n test_passes.simps test_pass_def by simp
  with True show ?thesis by simp
next
  case False
  then have "64 < length data_array" "KEY_SIZE \<le> length key_array" "0 + 500000 \<le> (1000000 :: nat)" using assms(4) by simp_all
  from test_passes_run [OF assms(1) this(2,1) assms(2,3) this(3), of junk] obtain s' as m' where
    "test_passes ops junk key_array data_array 0 500000 s = Some (Inr s')"
    "kv_run m (map test_request [0..<0 + 500000]) as m'" "server_ok objs s' m'"
    "sender_list s' = sender_list s" "sent s' = sent s" by blast
  then have "test_function ops junk key_array data_array s = Some (Inr s')"
    "kv_run m (map test_request [0..<500000]) as m'" "represents objs (module s') m'" "mirrors (store_file s') m'"
    "sender_list s' = sender_list s" "sent s' = sent s"
    by (simp_all only: test_function_def add_0 server_ok_def)
  with False show ?thesis by (simp only: if_False) blast
qed

definition large_server :: "rhash_object list system" where
  "large_server = start_state [] (example_kernel\<lparr>kavail := 3000000\<rparr>)"

lemma large_server_ok: "server_ok set large_server Map.empty" "5 * 500000 < kavail (module large_server)"
proof -
  have "mirrors [] Map.empty" unfolding mirrors_def by (intro exI [of _ "[]"]) simp
  then show "server_ok set large_server Map.empty"
    using example_kernel_represents by (simp add: large_server_def start_state_def server_ok_def represents_def)
qed (simp add: large_server_def start_state_def)

theorem server_test_overflows_witness:
  "test_function list_table 0 (replicate 64 7) (replicate 64 7) large_server = Some (Inl OutOfBoundsWrite)"
proof -
  have "length (replicate 64 (7 :: byte)) = KEY_SIZE" "length (replicate 64 (7 :: byte)) \<le> 64" by simp_all
  with server_test_overflows [OF list_table.rhashtable_axioms large_server_ok this(1), of "replicate 64 7" 0]
  show ?thesis by (simp only: if_True)
qed

section \<open>The tests of the client\<close>

definition numbered :: "nat \<Rightarrow> request" where
  "numbered i = Insert (decimal i) (decimal i @ [0])"

lemma numbered_fits:
  assumes "i < 1000000"
  shows "fits (numbered i)"
  using length_decimal_6 [OF assms] plain_decimal [of i] decimal_not_empty [of i]
  by (simp add: numbered_def fits_def key_text_def length_wire_insert)

lemma end_2_end_pass_ok:
  assumes "KEY_SIZE \<le> length key_array" "6 < length data_array" "i < 1000000"
  shows "end_2_end_pass key_array data_array i t =
    Inr (t\<lparr>written := written t @ encode (numbered i), num_send := num_send t + 1\<rparr>)"
proof -
  let ?d = "decimal i"
  have l: "length ?d \<le> 6" "nul_free ?d" "length ?d < KEY_SIZE"
    using length_decimal_6 [OF assms(3)] plain_decimal [of i] by (simp_all add: plain_def)
  have s: "c_sprintf key_array ?d = Inr (?d @ 0 # drop (Suc (length ?d)) key_array)"
    "c_sprintf data_array ?d = Inr (?d @ 0 # drop (Suc (length ?d)) data_array)"
    using l(1) assms(1,2) by (simp_all add: sprintf_fits)
  have "KEY_SIZE \<le> length (?d @ 0 # drop (Suc (length ?d)) key_array)" using assms(1) by simp
  moreover have "unat (of_nat (length ?d + 1) :: u16) = length (?d @ [0])"
    using l(1) by (simp only: unat_of_nat) simp
  ultimately have c: "create_INSERT_to_server (?d @ 0 # drop (Suc (length ?d)) key_array)
      (?d @ 0 # drop (Suc (length ?d)) data_array) (of_nat (length ?d + 1)) = Inr (sent_pdu (numbered i))"
    using create_INSERT_to_server_ok [OF l(2,3), of _ _ "?d @ [0]"] by (simp add: numbered_def)
  have "c_read (encode (numbered i)) 0 (unat (of_nat (length (encode (numbered i))) :: u16)) = Inr (encode (numbered i))"
    unfolding fits_length [OF numbered_fits [OF assms(3)]] by simp
  then show ?thesis
    unfolding end_2_end_pass_def s bind_r_Inr c_strlen_append [OF l(2)] c sent_pdu_def PDU_struct.select_convs by simp
qed

lemma end_2_end_passes_run:
  assumes "KEY_SIZE \<le> length key_array" "6 < length data_array"
  shows "i + n \<le> 1000000 \<Longrightarrow> end_2_end_passes key_array data_array i n t =
    Inr (t\<lparr>written := written t @ concat (map encode (map numbered [i..<i + n])), num_send := num_send t + int n\<rparr>)"
proof (induction n arbitrary: i t)
  case (Suc n)
  have "[i..<i + Suc n] = i # [i + 1..<i + 1 + n]" by (simp add: upt_conv_Cons)
  with Suc.IH [of "i + 1"] Suc.prems end_2_end_pass_ok [OF assms, of i t] show ?case by simp
qed simp

lemma end_2_end_pass_short_key:
  assumes "length (decimal i) < length key_array" "length key_array < KEY_SIZE" "length (decimal i) < length data_array"
  shows "end_2_end_pass key_array data_array i t = Inl OutOfBoundsRead"
  using assms plain_decimal [of i]
  by (simp add: end_2_end_pass_def sprintf_fits plain_def create_INSERT_to_server_def c_read_fail)

text \<open>
  C34. Both throughput tests of the client read past their key array of ten bytes in the first
  pass, since the constructor copies 64. With 64 bytes they write the messages of the
  insertions of \<open>i\<close> under \<open>i\<close>, in order, and count them; all of these fit the server.
\<close>

theorem client_tests_read_past_key:
  assumes "6 < length key_array" "6 < length data_array"
  shows "end_2_end_test_1 key_array data_array t =
      (if length key_array < KEY_SIZE then Inl OutOfBoundsRead
       else Inr \<lparr>written = written t @ concat (map encode (map numbered [0..<1000000])),
                num_send = 1000000, num_receive = 0\<rparr>) \<and>
    end_2_end_test_2 key_array data_array t =
      (if length key_array < KEY_SIZE then Inl OutOfBoundsRead
       else Inr (t\<lparr>written := written t @ concat (map encode (map numbered [10000..<20000])),
                  num_send := num_send t + 10000\<rparr>)) \<and>
    list_all fits (map numbered [0..<1000000])"
proof -
  have f: "list_all fits (map numbered [0..<1000000])"
    by (simp only: list_all_iff set_map set_upt) (use numbered_fits in auto)
  have n: "(1000000 :: nat) = Suc 999999" "(10000 :: nat) = Suc 9999" by simp_all
  show ?thesis
  proof (cases "length key_array < KEY_SIZE")
    case True
    have "length (decimal 0) \<le> 6" "length (decimal 10000) \<le> 6" by (simp_all add: length_decimal_6)
    then have p: "end_2_end_pass key_array data_array 0 u = Inl OutOfBoundsRead"
      "end_2_end_pass key_array data_array 10000 u = Inl OutOfBoundsRead" for u
      using True assms by (auto intro!: end_2_end_pass_short_key)
    then have "end_2_end_test_1 key_array data_array t = Inl OutOfBoundsRead"
      unfolding end_2_end_test_1_def n(1) end_2_end_passes.simps by simp
    moreover have "end_2_end_passes key_array data_array 10000 (Suc 9999) t = Inl OutOfBoundsRead"
      unfolding end_2_end_passes.simps p(2) by simp
    then have "end_2_end_test_2 key_array data_array t = Inl OutOfBoundsRead"
      unfolding end_2_end_test_2_def by simp
    ultimately show ?thesis using True f by (simp only: if_True)
  next
    case False
    then have k: "KEY_SIZE \<le> length key_array" by simp
    note r = end_2_end_passes_run [OF k assms(2)]
    have "end_2_end_test_1 key_array data_array t =
      Inr \<lparr>written = written t @ concat (map encode (map numbered [0..<1000000])), num_send = 1000000, num_receive = 0\<rparr>"
      unfolding end_2_end_test_1_def using r [of 0 1000000 "t\<lparr>num_send := 0, num_receive := 0\<rparr>"]
      by (simp del: upt_rec_numeral)
    moreover have "end_2_end_test_2 key_array data_array t =
      Inr (t\<lparr>written := written t @ concat (map encode (map numbered [10000..<20000])), num_send := num_send t + 10000\<rparr>)"
      unfolding end_2_end_test_2_def using r [of 10000 10000 t] by (simp del: upt_rec_numeral)
    ultimately show ?thesis using False f by (simp only: if_False)
  qed
qed

theorem client_tests_read_past_key_witness:
  "end_2_end_test_1 (replicate 10 7) (replicate 10 7) \<lparr>written = [], num_send = 3, num_receive = 3\<rparr> = Inl OutOfBoundsRead"
proof -
  have "6 < length (replicate 10 (7 :: byte))" "length (replicate 10 (7 :: byte)) < KEY_SIZE" by simp_all
  from client_tests_read_past_key [OF this(1,1)] this(2) show ?thesis by (simp only: if_True)
qed

end
