(* ===== verification/TerminalProps.thy ===== *)
theory TerminalProps
  imports Terminal DriversProps
begin

text \<open>What can be done at the terminals of server and client.\<close>

section \<open>Lines\<close>

lemma c_fgets_line:
  "nl \<notin> set l \<Longrightarrow> length l + 1 < n \<Longrightarrow> c_fgets n (l @ nl # rest) = (l @ [nl], rest)"
proof (induction l arbitrary: n)
  case (Cons c l)
  from Cons.prems Cons.IH [of "n - 1"] show ?case by simp
qed simp

lemma starts_with:
  "nul_free p \<Longrightarrow> \<exists>d. c_strncmp (m @ [0]) (p @ q) (length p) = Inr d \<and> (d = 0 \<longleftrightarrow> take (length p) m = p)"
proof (induction p arbitrary: m)
  case (Cons a p)
  show ?case
  proof (cases m)
    case Nil
    with Cons.prems show ?thesis by (simp add: uint_0_iff)
  next
    case (Cons b m')
    with Cons.prems Cons.IH [of m'] show ?thesis by auto
  qed
qed simp

lemma starts_with_word:
  assumes "nul_free (bytes w)"
  shows "\<exists>d. c_strncmp (m @ [0]) (c_str w) (length w) = Inr d \<and> (d = 0 \<longleftrightarrow> take (length w) m = bytes w)"
  using starts_with [OF assms, of m "[0]"] by (simp add: c_str_def)

lemma c_strncmp_Cons:
  "0 < n \<Longrightarrow> c_strncmp (a # s) (b # t) n =
     (if a \<noteq> b then Inr (uint a - uint b) else if a = 0 then Inr 0 else c_strncmp s t (n - 1))"
  by (cases n) auto

lemma uint_newline [simp]: "uint (a :: byte) = 10 \<longleftrightarrow> a = nl"
  using uint_eq_byte [of a nl] by simp

lemma newline_test:
  "\<exists>d. c_strncmp (m @ [0]) (c_str [CHR 0x0A]) MAXMESSLEN = Inr d \<and> (d = 0 \<longrightarrow> take 1 m = [nl])"
  by (cases m; cases "tl m") (auto simp: c_str_def c_strncmp_Cons)

lemma short_line:
  "nl \<notin> set l \<Longrightarrow> length l + 1 < MAXMESSLEN \<Longrightarrow> c_fgets MAXMESSLEN (l @ nl # rest) = (l @ [nl], rest)"
  by (rule c_fgets_line)

section \<open>The server\<close>

definition starts :: "string \<Rightarrow> byte list \<Rightarrow> bool" where
  "starts w l \<longleftrightarrow> take (length w) l = bytes w"

lemma starts_newline: "nl \<notin> set (bytes w) \<Longrightarrow> starts w (l @ [nl]) \<longleftrightarrow> starts w l"
proof -
  assume w: "nl \<notin> set (bytes w)"
  show ?thesis
  proof (cases "length w \<le> length l")
    case False
    then have "nl \<in> set (take (length w) (l @ [nl]))" by simp
    then have "take (length w) (l @ [nl]) \<noteq> bytes w" using w by metis
    moreover have "\<not> starts w l"
    proof
      assume "starts w l"
      then have "length (take (length w) l) = length w" by (simp add: starts_def)
      with False show False by simp
    qed
    ultimately show ?thesis by (simp add: starts_def)
  qed (simp add: starts_def)
qed

lemma starts_line: "starts ''exit'' (l @ [nl]) \<longleftrightarrow> starts ''exit'' l" "starts ''test'' (l @ [nl]) \<longleftrightarrow> starts ''test'' l"
  by (rule starts_newline, simp)+

definition typed_line :: "byte list \<Rightarrow> bool" where
  "typed_line l \<longleftrightarrow> nl \<notin> set l \<and> length l + 1 < MAXMESSLEN"

lemma server_writer_pass:
  assumes "get_message message input = (m, rest)"
  shows "server_writer ops junk key_array data_array message input s =
    (if starts ''exit'' m then Some (Inr s)
     else if starts ''test'' m then bind_b (test_function ops junk key_array data_array s)
       (\<lambda>s. server_writer ops junk key_array data_array m rest s)
     else server_writer ops junk key_array data_array m rest s)"
proof -
  have w: "nul_free (bytes ''exit'')" "nul_free (bytes ''test'')" by simp_all
  obtain d1 where d1: "c_strncmp (m @ [0]) (c_str [CHR 0x0A]) MAXMESSLEN = Inr d1" "d1 = 0 \<longrightarrow> take 1 m = [nl]"
    using newline_test by blast
  obtain d2 where d2: "c_strncmp (m @ [0]) (c_str ''exit'') (length ''exit'') = Inr d2" "d2 = 0 \<longleftrightarrow> starts ''exit'' m"
    using starts_with_word [OF w(1), of m] by (auto simp: starts_def)
  obtain d3 where d3: "c_strncmp (m @ [0]) (c_str ''test'') (length ''test'') = Inr d3" "d3 = 0 \<longleftrightarrow> starts ''test'' m"
    using starts_with_word [OF w(2), of m] by (auto simp: starts_def)
  have n: "length ''exit'' = 4" "length ''test'' = 4" by simp_all
  have "\<not> starts ''exit'' m \<and> \<not> starts ''test'' m" if "take 1 m = [nl]"
    using that by (cases m) (auto simp: starts_def)
  with d1 d2 [unfolded n] d3 [unfolded n] show ?thesis
    by (subst server_writer.simps) (auto simp: assms)
qed

text \<open>At the end of the input the loop goes on with the same message for ever.\<close>

lemma server_writer_runs_on:
  assumes "\<not> starts ''exit'' m" "\<not> starts ''test'' m"
  shows "server_writer ops junk key_array data_array m [] s = None"
proof -
  have "m = m \<longrightarrow> [] \<noteq> ([] :: byte list)"
    if "server_writer ops junk key_array data_array m [] s = Some y" for y
    using that
  proof (rule server_writer.raw_induct [where P = "\<lambda>_ _ _ _ message input _ _. message = m \<longrightarrow> input \<noteq> []", rotated])
    fix f ops junk key_array data_array message input s y
    let ?body = "case get_message message input of (message, rest) \<Rightarrow>
        bind_b (Some (c_strncmp (message @ [0]) (c_str [CHR 0x0A]) MAXMESSLEN)) (\<lambda>d.
        if d = 0 then f ops junk key_array data_array message rest s
        else bind_b (Some (c_strncmp (message @ [0]) (c_str ''exit'') 4)) (\<lambda>d.
          if d = 0 then Some (Inr s)
          else bind_b (Some (c_strncmp (message @ [0]) (c_str ''test'') 4)) (\<lambda>d.
            if d = 0 then bind_b (test_function ops junk key_array data_array s)
              (\<lambda>s. f ops junk key_array data_array message rest s)
            else f ops junk key_array data_array message rest s)))"
    assume IH: "\<And>ops junk key_array data_array message input s y. f ops junk key_array data_array message input s = Some y \<Longrightarrow>
        message = m \<longrightarrow> input \<noteq> []"
      and run: "?body = Some y"
    show "message = m \<longrightarrow> input \<noteq> []"
    proof (intro impI notI)
      assume m: "message = m" "input = []"
      obtain d1 d2 d3 where d: "c_strncmp (m @ [0]) (c_str [CHR 0x0A]) MAXMESSLEN = Inr d1"
        "c_strncmp (m @ [0]) (c_str ''exit'') (length ''exit'') = Inr d2" "d2 = 0 \<longleftrightarrow> starts ''exit'' m"
        "c_strncmp (m @ [0]) (c_str ''test'') (length ''test'') = Inr d3" "d3 = 0 \<longleftrightarrow> starts ''test'' m"
        using newline_test [of m] starts_with_word [of "''exit''" m] starts_with_word [of "''test''" m] by (auto simp: starts_def)
      have n: "length ''exit'' = 4" "length ''test'' = 4" by simp_all
      have g: "get_message m [] = (m, [])" by (simp add: get_message_def)
      have "f ops junk key_array data_array m [] s = Some y"
        using run assms d unfolding m n by (auto simp: g split: if_splits)
      from IH [OF this] show False by simp
    qed
  qed
  then show ?thesis by (cases "server_writer ops junk key_array data_array m [] s") auto
qed

lemma test_function_overflow:
  assumes "length key_array = KEY_SIZE" "length data_array \<le> 64"
  shows "test_function ops junk key_array data_array s = Some (Inl OutOfBoundsWrite)"
proof -
  have "fits (test_request 0)" by (rule test_request_fits) simp
  then have "length (test_key 0) < length key_array" "length test_data = 64"
    using assms(1) by (simp_all add: test_request_def fits_def key_text_def test_data_def)
  with assms(2) have "test_pdu key_array data_array 0 = Inl OutOfBoundsWrite"
    by (simp add: test_pdu_def sprintf_fits sprintf_overflow)
  moreover have n: "(500000 :: nat) = Suc 499999" by simp
  ultimately show ?thesis unfolding test_function_def n test_passes.simps test_pass_def by simp
qed

definition lines_text :: "byte list list \<Rightarrow> byte list" where
  "lines_text ls = concat (map (\<lambda>l. l @ [nl]) ls)"

lemma lines_text_simps [simp]: "lines_text [] = []" "lines_text (l # ls) = l @ nl # lines_text ls"
  by (simp_all add: lines_text_def)

text \<open>
  C30. The server is closed exactly by a line that starts with \<open>exit\<close>; blank and other lines do
  nothing, a line that starts with \<open>test\<close> before it brings the server down, since its test
  writes past its array; without either line \<open>server_writer\<close> never returns. When nothing at all is typed, the
  loop acts on what the uninitialised array happens to hold.
\<close>

theorem server_terminal:
  assumes "list_all typed_line ls" "length key_array = KEY_SIZE" "length data_array = 64"
  shows "server_writer ops junk key_array data_array message (lines_text ls) s =
    (case find (\<lambda>l. starts ''exit'' l \<or> starts ''test'' l) (if ls = [] then [message] else ls) of
       None \<Rightarrow> None
     | Some l \<Rightarrow> Some (if starts ''exit'' l then Inr s else Inl OutOfBoundsWrite))"
  using assms(1)
proof (induction ls arbitrary: message)
  case Nil
  have "get_message message [] = (message, [])" by (simp add: get_message_def)
  note pass = server_writer_pass [OF this, of ops junk key_array data_array s]
  show ?case
    using pass server_writer_runs_on [of message ops junk key_array data_array s]
    by (cases "starts ''exit'' message"; cases "starts ''test'' message") (auto simp: test_function_overflow assms(2,3))
next
  case (Cons l ls)
  then have "get_message message (lines_text (l # ls)) = (l @ [nl], lines_text ls)"
    by (simp add: get_message_def short_line typed_line_def)
  from server_writer_pass [OF this, of ops junk key_array data_array s] Cons show ?case
    by (auto simp: starts_line test_function_overflow assms(2,3))
qed

theorem server_terminal_witness:
  "server_writer list_table 0 (replicate 64 7) (replicate 64 7) [200, 3] (bytes ''hi'' @ nl # bytes ''exit'' @ nl # []) large_server =
    Some (Inr large_server)"
  using server_terminal [of "[bytes ''hi'', bytes ''exit'']" "replicate 64 7" "replicate 64 7" list_table 0 "[200, 3]" large_server]
  by (simp add: typed_line_def starts_def)

section \<open>The client\<close>

lemma short_key:
  assumes "length key < KEY_SIZE"
  shows "create_INSERT_to_server key d n = Inl OutOfBoundsRead" "create_GET_to_server key = Inl OutOfBoundsRead"
    "create_DELETE_to_server key = Inl OutOfBoundsRead"
  using assms by (simp_all add: create_INSERT_to_server_def create_GET_to_server_def create_DELETE_to_server_def c_read_fail)

lemma create_INIT_ok: "create_INIT_to_server = Inr \<lparr>OP_code = USER, data_bytes = 4, data = [INIT, 0, 0, 0]\<rparr>"
  by (simp add: create_INIT_to_server_def PDU_to_buffer_user_def create_INIT_buffer_def user_pdu_def eval_nat_numeral)

lemma create_QUIT_ok: "create_QUIT_pdu = Inr \<lparr>OP_code = USER, data_bytes = 4, data = [QUIT, 0, 0, 0]\<rparr>"
  by (simp add: create_QUIT_pdu_def eval_nat_numeral)

lemma test_int_short_key:
  "length lit < KEY_SIZE \<Longrightarrow> test_int_pass stack sock lit s = Some (Inl OutOfBoundsRead)"
  by (simp add: test_int_pass_def short_key)

lemma client_test_faults:
  "end_2_end_test_1 (replicate 10 0) (replicate 10 0) t = Inl OutOfBoundsRead"
  "end_2_end_test_2 (replicate 10 0) (replicate 10 0) t = Inl OutOfBoundsRead"
proof -
  have n: "(1000000 :: nat) = Suc 999999" "(10000 :: nat) = Suc 9999" by simp_all
  have d: "length (decimal 0) < 10" "length (decimal 10000) < 10"
    using length_decimal_6 [of 0] length_decimal_6 [of 10000] by simp_all
  show "end_2_end_test_1 (replicate 10 0) (replicate 10 0) t = Inl OutOfBoundsRead"
    unfolding end_2_end_test_1_def n(1) end_2_end_passes.simps using d(1) by (simp add: end_2_end_pass_short_key)
  have "end_2_end_passes (replicate 10 0) (replicate 10 0) 10000 (Suc 9999) t = Inl OutOfBoundsRead"
    unfolding end_2_end_passes.simps using d(2) by (simp add: end_2_end_pass_short_key)
  then show "end_2_end_test_2 (replicate 10 0) (replicate 10 0) t = Inl OutOfBoundsRead"
    unfolding end_2_end_test_2_def by simp
qed

text \<open>
  The message on which pass \<open>k\<close> acts, its choice, and what has been sent before: INIT for each choice \<open>1\<close>. Every
  other choice from \<open>2\<close> to \<open>8\<close> ends the loop in one way or another.
\<close>

fun typed_at :: "byte list \<Rightarrow> byte list \<Rightarrow> nat \<Rightarrow> byte list" where
  "typed_at message input 0 = fst (get_message message input)"
| "typed_at message input (Suc k) = (case get_message message input of (message, rest) \<Rightarrow> typed_at message rest k)"

definition choice_at :: "byte list \<Rightarrow> byte list \<Rightarrow> nat \<Rightarrow> u8" where
  "choice_at message input k = hd (typed_at message input k @ [0])"

definition inits_before :: "byte list \<Rightarrow> byte list \<Rightarrow> nat \<Rightarrow> byte list" where
  "inits_before message input k = concat (map (\<lambda>j. if choice_at message input j = 49 then [INIT, 0, 0, 0] else []) [0..<k])"

abbreviation ending_choices :: "u8 set" where
  "ending_choices \<equiv> {50, 51, 52, 53, 54, 55, 56}"

definition ends_at :: "(nat \<Rightarrow> bool) \<Rightarrow> byte list \<Rightarrow> byte list \<Rightarrow> nat \<Rightarrow> bool" where
  "ends_at left message input k \<longleftrightarrow> (\<forall>j < k. \<not> left j \<and> choice_at message input j \<notin> ending_choices) \<and>
     (left k \<or> choice_at message input k \<in> ending_choices)"

lemma choice_at_Suc:
  "get_message message input = (m, rest) \<Longrightarrow> choice_at message input (Suc k) = choice_at m rest k"
  by (simp add: choice_at_def)

lemma inits_before_Suc:
  assumes "get_message message input = (m, rest)"
  shows "inits_before message input (Suc k) =
    (if choice_at message input 0 = 49 then [INIT, 0, 0, 0] else []) @ inits_before m rest k"
  by (simp add: inits_before_def upt_conv_Cons choice_at_Suc [OF assms] del: upt_Suc)
     (simp only: map_Suc_upt [symmetric] map_map comp_def choice_at_Suc [OF assms])

lemma ends_at_Suc:
  assumes "get_message message input = (m, rest)" "ends_at left message input (Suc k)"
  shows "\<not> left 0" "choice_at message input 0 \<notin> ending_choices" "ends_at (\<lambda>j. left (Suc j)) m rest k"
  using assms(2) unfolding ends_at_def by (auto simp: choice_at_Suc [OF assms(1)] simp flip: All_less_Suc2)

text \<open>One pass.\<close>

lemma menu_pass_choice:
  "hd (m @ [0]) = 49 \<Longrightarrow> menu_pass m rest = Inr (Sends \<lparr>OP_code = USER, data_bytes = 4, data = [INIT, 0, 0, 0]\<rparr>, rest)"
  "hd (m @ [0]) = 53 \<Longrightarrow> menu_pass m rest = Inr (Quits \<lparr>OP_code = USER, data_bytes = 4, data = [QUIT, 0, 0, 0]\<rparr>, rest)"
  "hd (m @ [0]) \<in> {54, 55, 56} \<Longrightarrow> menu_pass m rest = Inr (Test (hd (m @ [0])), rest)"
  "hd (m @ [0]) \<notin> insert 49 ending_choices \<Longrightarrow> menu_pass m rest = Inr (Again, rest)"
  by (auto simp: menu_pass_def Let_def create_INIT_ok create_QUIT_ok)

lemma menu_pass_request:
  assumes "hd (m @ [0]) \<in> {50, 51, 52}"
  shows "menu_pass m rest \<in> {Inl OutOfBoundsRead, Inl OutOfBoundsWrite}"
proof (rule menu_requests_read_past_key)
  show "m \<noteq> []" using assms by auto
  then show "hd m \<in> {50, 51, 52}" using assms by simp
qed

lemma session_pass:
  assumes "get_message message input = (m, rest)"
  shows "\<exists>e \<in> {OutOfBoundsRead, OutOfBoundsWrite}. client_session stack sock left i message input (c, out) =
    (if left i then Some (Inr (Left_loop, c, out))
     else if hd (m @ [0]) = 53 then Some (Inr (Has_quit, c, out @ [QUIT, 0, 0, 0]))
     else if hd (m @ [0]) \<in> {54, 55, 56} then Some (Inl OutOfBoundsRead)
     else if hd (m @ [0]) \<in> {50, 51, 52} then Some (Inl e)
     else client_session stack sock left (i + 1) m rest (c, out @ (if hd (m @ [0]) = 49 then [INIT, 0, 0, 0] else [])))"
proof -
  consider "left i" | "\<not> left i" "hd (m @ [0]) = 53" | "\<not> left i" "hd (m @ [0]) \<in> {54, 55, 56}" | "\<not> left i" "hd (m @ [0]) \<in> {50, 51, 52}"
    | "\<not> left i" "hd (m @ [0]) = 49" | "\<not> left i" "hd (m @ [0]) \<notin> insert 49 ending_choices" by blast
  then show ?thesis
  proof cases
    case 1
    then show ?thesis by (intro bexI [of _ OutOfBoundsRead], subst client_session.simps, simp, simp)
  next
    case 2
    then show ?thesis by (intro bexI [of _ OutOfBoundsRead], subst client_session.simps, simp add: assms menu_pass_choice(2), simp)
  next
    case 3
    then show ?thesis by (intro bexI [of _ OutOfBoundsRead], subst client_session.simps, 
        (auto simp: assms menu_pass_choice(3) TEST_INT_INSERT_def test_int_short_key client_test_faults)[1], simp)
  next
    case 4
    from menu_pass_request [OF 4(2), of rest] obtain e where
      "e \<in> {OutOfBoundsRead, OutOfBoundsWrite}" "menu_pass m rest = Inl e" by blast
    with 4 show ?thesis by (intro bexI [of _ e], subst client_session.simps) (auto simp: assms)
  next
    case 5
    then show ?thesis by (intro bexI [of _ OutOfBoundsRead], subst client_session.simps, simp add: assms menu_pass_choice(1), simp)
  next
    case 6
    then show ?thesis by (intro bexI [of _ OutOfBoundsRead], subst client_session.simps, simp add: assms menu_pass_choice(4), simp)
  qed
qed

section \<open>Whole sessions\<close>

lemma session_ends:
  assumes "ends_at (\<lambda>j. left (i + j)) message input k"
  shows "\<exists>e \<in> {OutOfBoundsRead, OutOfBoundsWrite}. client_session stack sock left i message input (c, out) = Some
    (if left (i + k) then Inr (Left_loop, c, out @ inits_before message input k)
     else if choice_at message input k = 53 then Inr (Has_quit, c, out @ inits_before message input k @ [QUIT, 0, 0, 0])
     else if choice_at message input k \<in> {54, 55, 56} then Inl OutOfBoundsRead
     else Inl e)"
  using assms
proof (induction k arbitrary: i message input out)
  case 0
  obtain m rest where g: "get_message message input = (m, rest)" by (cases "get_message message input")
  have c: "hd (m @ [0]) = choice_at message input 0" by (simp add: choice_at_def g)
  from session_pass [OF g, of stack sock left i c out] 0 show ?case
    unfolding c by (auto simp: ends_at_def inits_before_def)
next
  case (Suc k)
  obtain m rest where g: "get_message message input = (m, rest)" by (cases "get_message message input")
  have c: "hd (m @ [0]) = choice_at message input 0" by (simp add: choice_at_def g)
  from ends_at_Suc [OF g Suc.prems] have s: "\<not> left i" "choice_at message input 0 \<notin> ending_choices"
    "ends_at (\<lambda>j. left (Suc i + j)) m rest k" by simp_all
  have "client_session stack sock left i message input (c, out) =
      client_session stack sock left (Suc i) m rest (c, out @ (if choice_at message input 0 = 49 then [INIT, 0, 0, 0] else []))"
    using session_pass [OF g, of stack sock left i c out] s(1,2) unfolding c by auto
  with Suc.IH [OF s(3), of "out @ (if choice_at message input 0 = 49 then [INIT, 0, 0, 0] else [])"] show ?case
    by (simp only: inits_before_Suc [OF g] choice_at_Suc [OF g] append.assoc add_Suc add_Suc_right)
qed

text \<open>A session that returns has a last pass.\<close>

lemma session_has_end:
  assumes "client_session stack sock left i message input s = Some y"
  shows "\<exists>k. left (i + k) \<or> choice_at message input k \<in> ending_choices"
  using assms
proof (rule client_session.raw_induct [where P = "\<lambda>_ _ left i message input _ _. \<exists>k. left (i + k) \<or> choice_at message input k \<in> ending_choices",
    rotated])
  fix f stack sock left i message input s y
  assume IH: "\<And>stack sock left i message input s y. f stack sock left i message input s = Some y \<Longrightarrow>
      \<exists>k. left (i + k) \<or> choice_at message input k \<in> ending_choices"
    and run: "(if left i then Some (Inr (Left_loop, s))
      else case get_message message input of (message, input) \<Rightarrow>
        bind_b (Some (menu_pass message input)) (\<lambda>(m, rest).
          case m of
            Sends p \<Rightarrow> bind_b (Some (c_read (data p) 0 (unat (data_bytes p)))) (\<lambda>d.
              f stack sock left (i + 1) message rest (fst s, snd s @ d))
          | Quits p \<Rightarrow> bind_b (Some (c_read (data p) 0 (unat (data_bytes p)))) (\<lambda>d. Some (Inr (Has_quit, fst s, snd s @ d)))
          | Again \<Rightarrow> f stack sock left (i + 1) message rest s
          | Test b \<Rightarrow>
              if b = 54 then bind_b (TEST_INT_INSERT stack sock (c_str ''key1'') (c_str ''key2'') s)
                (\<lambda>s. f stack sock left (i + 1) message rest s)
              else
                bind_b (Some (if b = 55 then end_2_end_test_1 (replicate 10 0) (replicate 10 0) \<lparr>written = snd s, num_send = 0, num_receive = 0\<rparr>
                              else end_2_end_test_2 (replicate 10 0) (replicate 10 0) \<lparr>written = snd s, num_send = 0, num_receive = 0\<rparr>)) (\<lambda>t.
                f stack sock left (i + 1) message rest (fst s, written t)))) = Some y"
  obtain m rest where g: "get_message message input = (m, rest)" by (cases "get_message message input")
  have c: "hd (m @ [0]) = choice_at message input 0" by (simp add: choice_at_def g)
  show "\<exists>k. left (i + k) \<or> choice_at message input k \<in> ending_choices"
  proof (cases "left i \<or> choice_at message input 0 \<in> ending_choices")
    case True
    then show ?thesis by (intro exI [of _ 0]) simp
  next
    case False
    have "\<exists>s'. f stack sock left (i + 1) m rest s' = Some y"
    proof (cases "choice_at message input 0 = 49")
      case True
      with run False show ?thesis by (auto simp: g menu_pass_choice(1) c simp del: split_paired_Ex)
    next
      case other: False
      with False have "hd (m @ [0]) \<notin> insert 49 ending_choices" unfolding c by blast
      with run False show ?thesis by (auto simp: g menu_pass_choice(4) simp del: split_paired_Ex)
    qed
    then obtain k where "left (i + 1 + k) \<or> choice_at m rest k \<in> ending_choices" using IH by blast
    then show ?thesis by (intro exI [of _ "Suc k"]) (simp add: choice_at_Suc [OF g])
  qed
qed

lemma session_runs_on: "\<nexists>k. ends_at (\<lambda>j. left (i + j)) message input k \<Longrightarrow> client_session stack sock left i message input s = None"
proof (rule ccontr)
  assume none: "\<nexists>k. ends_at (\<lambda>j. left (i + j)) message input k" and "client_session stack sock left i message input s \<noteq> None"
  then have "\<exists>k. left (i + k) \<or> choice_at message input k \<in> ending_choices" using session_has_end by blast
  then obtain k where "left (i + k) \<or> choice_at message input k \<in> ending_choices"
    "\<forall>j < k. \<not> (left (i + j) \<or> choice_at message input j \<in> ending_choices)"
    using exists_least_iff [of "\<lambda>k. left (i + k) \<or> choice_at message input k \<in> ending_choices"] by blast
  then have "ends_at (\<lambda>j. left (i + j)) message input k" unfolding ends_at_def by blast
  with none show False by blast
qed

text \<open>
  The test with integers cannot succeed: its keys are literals of five bytes, and even with keys of
  64 bytes and both answers received it copies four bytes into the two of \<open>res_data\<close>.
\<close>

theorem integer_test_never_succeeds:
  "TEST_INT_INSERT stack sock key1 key2 s \<noteq> Some (Inr s') \<and>
   (length key1 < KEY_SIZE \<longrightarrow> TEST_INT_INSERT stack sock key1 key2 s = Some (Inl OutOfBoundsRead))"
proof -
  have w: "bind_b (Some (c_read d 0 4)) (\<lambda>v. bind_b (Some (c_write (le16 0) 0 v)) (\<lambda>x. Some (Inr y))) \<noteq> Some (Inr z)" for d :: "byte list" and y z :: "sock \<times> byte list"
    by (auto simp: c_read_def c_write_def)
  have "test_int_pass stack sock lit t \<noteq> Some (Inr t')" for lit t t'
    unfolding test_int_pass_def using w by (auto simp: bind_b_def split: option.splits sum.splits)
  then have "TEST_INT_INSERT stack sock key1 key2 s \<noteq> Some (Inr s')"
    by (auto simp: TEST_INT_INSERT_def bind_b_def split: option.splits sum.splits)
  then show ?thesis by (simp add: TEST_INT_INSERT_def test_int_short_key)
qed

end
