(* ===== verification/Connect.thy ===== *)
theory Connect
  imports Client
begin

text \<open>
  Setting up connections: \<open>createsocket_server\<close> and \<open>createsocket_client\<close> of Resources/socket.c,
  \<open>connectCS\<close> and \<open>setupConnection\<close> of Client/client.c, \<open>setup_listening_socket\<close> of User/server.c. What
  the operating system answers to the calls, one after the other, is the function \<open>os\<close>; the state is
  the descriptors that are open, the blocks that are allocated and what was sent.
\<close>

section \<open>System calls\<close>

record net =
  calls :: nat
  opened :: "int list"
  blocks :: int
  sent_bytes :: "(int \<times> byte list) list"

definition call :: "(nat \<Rightarrow> int) \<Rightarrow> net \<Rightarrow> int \<times> net" where
  "call os s = (os (calls s), s\<lparr>calls := calls s + 1\<rparr>)"

definition c_alloc :: "int \<Rightarrow> net \<Rightarrow> net" where
  "c_alloc n s = s\<lparr>blocks := blocks s + n\<rparr>"

definition c_socket :: "(nat \<Rightarrow> int) \<Rightarrow> net \<Rightarrow> int \<times> net" where
  "c_socket os s =
     (let (r, s) = call os s in (r, if r = -1 then s else s\<lparr>opened := r # opened s\<rparr>))"

definition c_close :: "int \<Rightarrow> net \<Rightarrow> net" where
  "c_close fd s = s\<lparr>opened := remove1 fd (opened s)\<rparr>"

text \<open>A list of addresses is a block until \<open>freeaddrinfo\<close>.\<close>

definition getaddrinfo :: "(nat \<Rightarrow> int) \<Rightarrow> net \<Rightarrow> int \<times> net" where
  "getaddrinfo os s = (let (r, s) = call os s in (r, if r = 0 then c_alloc 1 s else s))"

section \<open>The client's socket\<close>

text \<open>\<open>connect\<close>, again after each failure but the fourth; \<open>False\<close>: given up.\<close>

function connect_loop :: "(nat \<Rightarrow> int) \<Rightarrow> nat \<Rightarrow> net \<Rightarrow> bool \<times> net" where
  "connect_loop os i s =
     (let (r, s) = call os s
      in if r < 0 then (if i + 1 > 3 then (False, s) else connect_loop os (i + 1) s) else (True, s))"
  by auto
termination by (relation "measure (\<lambda>(os, i, s). 4 - i)") auto

declare connect_loop.simps [simp del]

definition createsocket_client :: "(nat \<Rightarrow> int) \<Rightarrow> net \<Rightarrow> int \<times> net" where
  "createsocket_client os s =
     (let (mysocket, s) = c_socket os s
      in if mysocket = -1 then (-1, s)
         else let (r, s) = call os s
         in if r \<noteq> 0 then (-1, s)
         else let (status, s) = getaddrinfo os s
         in if status \<noteq> 0 then (-1, c_close mysocket s)
         else let (connected, s) = connect_loop os 0 s
         in if connected then (mysocket, c_alloc (-1) s) else (-1, c_alloc (-1) s))"

text \<open>\<open>send\<close> may take only the first bytes; the caller looks for an error only.\<close>

definition send_pdu_client :: "(nat \<Rightarrow> int) \<Rightarrow> int \<Rightarrow> byte list PDU_struct \<Rightarrow> net \<Rightarrow> (int \<times> net) res" where
  "send_pdu_client os sock pdu s =
     bind_r (c_read (data pdu) 0 (unat (data_bytes pdu))) (\<lambda>d.
     let (r, s) = call os s
     in Inr (if r = -1 then (-1, s) else (0, s\<lparr>sent_bytes := sent_bytes s @ [(sock, take (nat r) d)]\<rparr>)))"

text \<open>The PDU is two blocks, freed on every way out.\<close>

definition connectCS :: "(nat \<Rightarrow> int) \<Rightarrow> byte list \<Rightarrow> net \<Rightarrow> (int \<times> net) res" where
  "connectCS os clientname s =
     bind_r (setupJOINPDU clientname) (\<lambda>pdu.
     let (server_client, s) = createsocket_client os (c_alloc 2 s)
     in if server_client = -1 then Inr (-1, c_alloc (-2) s)
        else bind_r (send_pdu_client os server_client pdu s) (\<lambda>(r, s).
          Inr (if r = -1 then -1 else server_client, c_alloc (-2) s)))"

definition setupConnection :: "(nat \<Rightarrow> int) \<Rightarrow> byte list list \<Rightarrow> net \<Rightarrow> (int \<times> net) res" where
  "setupConnection os argv s =
     (let s = c_alloc 1 s
      in bind_r (c_strncmp (c_str ''cs'') (argv ! 2) 2) (\<lambda>d.
         if d = 0 then bind_r (connectCS os (argv ! 1) s) (\<lambda>(client_server, s). Inr (client_server, c_alloc (-1) s))
         else Inr (-1, c_alloc (-1) s)))"

section \<open>The server's socket\<close>

datatype bound = Bound int | Option_failed | No_address

text \<open>The loop over the \<open>n\<close> addresses that \<open>getaddrinfo\<close> has found.\<close>

fun bind_loop :: "(nat \<Rightarrow> int) \<Rightarrow> nat \<Rightarrow> net \<Rightarrow> bound \<times> net" where
  "bind_loop os 0 s = (No_address, s)"
| "bind_loop os (Suc n) s =
     (let (mysocket, s) = c_socket os s
      in if mysocket = -1 then bind_loop os n s
         else let (r, s) = call os s
         in if r = -1 then (Option_failed, s)
         else let (r, s) = call os s
         in if r = 0 then (Bound mysocket, s)
         else bind_loop os n (c_close mysocket s))"

text \<open>\<open>None\<close>: the process exits. The string of the port has its first byte printed into 16 bytes.\<close>

definition createsocket_server :: "(nat \<Rightarrow> int) \<Rightarrow> nat \<Rightarrow> byte list \<Rightarrow> net \<Rightarrow> (int option \<times> net) res" where
  "createsocket_server os n nextportString s =
     bind_r (c_read nextportString 0 1) (\<lambda>port.
     let (status, s) = getaddrinfo os (c_alloc 1 s)
     in Inr (if status \<noteq> 0 then (Some (-1), s)
        else case bind_loop os n s of
          (No_address, s) \<Rightarrow> (None, s)
        | (Option_failed, s) \<Rightarrow> (Some (-1), s)
        | (Bound mysocket, s) \<Rightarrow> (Some mysocket, c_alloc (-2) s)))"

definition setup_listening_socket :: "(nat \<Rightarrow> int) \<Rightarrow> nat \<Rightarrow> byte list list \<Rightarrow> net \<Rightarrow> (int option \<times> net) res" where
  "setup_listening_socket os n argv s =
     bind_r (createsocket_server os n (argv ! 1) (c_alloc 1 s)) (\<lambda>(sock, s).
     Inr (sock, if sock = None then s else c_alloc (-1) s))"

end
