(* ===== verification/ConnectProps.thy ===== *)
theory ConnectProps
  imports Connect ClientProps
begin

text \<open>
  What setting up a connection does for any answers of the operating system: which socket is
  returned, what stays open, and how often the client tries to connect.
\<close>

lemma c_alloc_simps [simp]:
  "calls (c_alloc n s) = calls s" "opened (c_alloc n s) = opened s" "blocks (c_alloc n s) = blocks s + n"
  "sent_bytes (c_alloc n s) = sent_bytes s"
  by (simp_all add: c_alloc_def)

section \<open>The client\<close>

text \<open>How many of the four answers from the call \<open>c\<close> on are failures before the first success.\<close>

definition failures :: "(nat \<Rightarrow> int) \<Rightarrow> nat \<Rightarrow> nat" where
  "failures os c = length (takeWhile (\<lambda>i. os (c + i) < 0) [0..<4])"

lemma connect_loop_tries:
  "i \<le> 3 \<Longrightarrow> connect_loop os i s =
    (let k = length (takeWhile (\<lambda>j. os (calls s + j) < 0) [0..<4 - i])
     in (k < 4 - i, s\<lparr>calls := calls s + min (k + 1) (4 - i)\<rparr>))"
proof (induction "3 - i" arbitrary: i s)
  case 0
  then have "i = 3" by simp
  then show ?case by (subst connect_loop.simps) (simp add: call_def Let_def)
next
  case (Suc n)
  then have i: "n = 3 - (i + 1)" "i + 1 \<le> 3" "4 - i = Suc (4 - (i + 1))" by simp_all
  let ?s = "s\<lparr>calls := calls s + 1\<rparr>"
  have "[0..<4 - i] = 0 # map Suc [0..<4 - (i + 1)]"
    unfolding i(3) by (simp only: map_Suc_upt upt_conv_Cons)
  moreover have "takeWhile (\<lambda>j. os (calls s + j) < 0) (map Suc [0..<4 - (i + 1)]) =
      map Suc (takeWhile (\<lambda>j. os (calls ?s + j) < 0) [0..<4 - (i + 1)])"
    by (simp add: takeWhile_map comp_def)
  ultimately have k: "length (takeWhile (\<lambda>j. os (calls s + j) < 0) [0..<4 - i]) =
    (if os (calls s) < 0 then Suc (length (takeWhile (\<lambda>j. os (calls ?s + j) < 0) [0..<4 - (i + 1)])) else 0)"
    by simp
  show ?case
    unfolding k connect_loop.simps [of os i s] using Suc.hyps(1) [OF i(1,2), of ?s] i(2,3)
    by (simp add: call_def Let_def)
qed

lemma connect_loop_failures:
  "connect_loop os 0 s =
    (failures os (calls s) < 4, s\<lparr>calls := calls s + min (failures os (calls s) + 1) 4\<rparr>)"
  by (subst connect_loop_tries) (simp_all add: failures_def Let_def)

lemma createsocket_client_result:
  "createsocket_client os s =
    (let c = calls s; fd = os c; k = failures os (c + 3)
     in if fd = -1 then (-1, s\<lparr>calls := c + 1\<rparr>)
        else if os (c + 1) \<noteq> 0 then (-1, s\<lparr>calls := c + 2, opened := fd # opened s\<rparr>)
        else if os (c + 2) \<noteq> 0 then (-1, s\<lparr>calls := c + 3\<rparr>)
        else (if k < 4 then fd else -1, s\<lparr>calls := c + 3 + min (k + 1) 4, opened := fd # opened s\<rparr>))"
  by (simp add: createsocket_client_def c_socket_def call_def getaddrinfo_def c_close_def c_alloc_def Let_def
      connect_loop_failures eval_nat_numeral)

lemma strncmp_literal:
  "nul_free p \<Longrightarrow> nul_free t \<Longrightarrow>
   \<exists>d. c_strncmp (p @ q) (t @ 0 # e) (length p) = Inr d \<and> (d = 0 \<longleftrightarrow> take (length p) t = p)"
proof (induction p arbitrary: t)
  case (Cons a p)
  show ?case
  proof (cases t)
    case Nil
    with Cons.prems(1) show ?thesis by (simp add: nul_free_def uint_0_iff)
  next
    case (Cons b t')
    with Cons.prems Cons.IH [of t'] show ?thesis by auto
  qed
qed simp

lemma mode_prefix:
  assumes "nul_free m"
  shows "\<exists>d. c_strncmp (c_str ''cs'') (m @ 0 # e) 2 = Inr d \<and> (d = 0 \<longleftrightarrow> take 2 m = bytes ''cs'')"
proof -
  have "nul_free (bytes ''cs'')" by (simp add: nul_free_def)
  from strncmp_literal [OF this assms, of "[0]" e] show ?thesis
    unfolding c_str_def length_bytes by (simp add: eval_nat_numeral)
qed

text \<open>The JOIN that is sent; the whole of it when the system takes all of its bytes.\<close>

definition join_bytes :: "byte list \<Rightarrow> byte list" where
  "join_bytes name = wire (MJoin (take 51 (name @ [0])))"

lemma failures_le: "failures os c \<le> 4"
  using length_takeWhile_le [of "\<lambda>i. os (c + i) < 0" "[0..<4]"] by (simp add: failures_def)

lemma setupJOINPDU_join:
  assumes "nul_free name"
  obtains pdu where "setupJOINPDU (name @ 0 # e) = Inr pdu"
    "c_read (data pdu) 0 (unat (data_bytes pdu)) = Inr (join_bytes name)"
proof -
  let ?n = "length (join_bytes name)"
  have "?n < 2 ^ 16" by (simp add: join_bytes_def)
  then have "unat (of_nat ?n :: u16) = ?n" by (simp only: unat_of_nat) simp
  then show thesis using setupJOINPDU_ok [OF assms, of e] that unfolding join_bytes_def [symmetric] by simp
qed

lemma setupConnection_result:
  assumes "nul_free name" "nul_free mode"
  shows "setupConnection os [prog, name @ 0 # e1, mode @ 0 # e2, host, port] s = Inr
    (let c = calls s; fd = os c; k = failures os (c + 3); r = os (c + 4 + k)
     in if take 2 mode \<noteq> bytes ''cs'' then (-1, s)
        else if fd = -1 then (-1, s\<lparr>calls := c + 1\<rparr>)
        else if os (c + 1) \<noteq> 0 then (-1, s\<lparr>calls := c + 2, opened := fd # opened s\<rparr>)
        else if os (c + 2) \<noteq> 0 then (-1, s\<lparr>calls := c + 3\<rparr>)
        else if k = 4 then (-1, s\<lparr>calls := c + 7, opened := fd # opened s\<rparr>)
        else if r = -1 then (-1, s\<lparr>calls := c + 5 + k, opened := fd # opened s\<rparr>)
        else (fd, s\<lparr>calls := c + 5 + k, opened := fd # opened s,
                    sent_bytes := sent_bytes s @ [(fd, take (nat r) (join_bytes name))]\<rparr>))"
proof -
  obtain d where d: "c_strncmp (c_str ''cs'') (mode @ 0 # e2) 2 = Inr d" "d = 0 \<longleftrightarrow> take 2 mode = bytes ''cs''"
    using mode_prefix [OF assms(2)] by blast
  obtain pdu where pdu: "setupJOINPDU (name @ 0 # e1) = Inr pdu"
    "c_read (data pdu) 0 (unat (data_bytes pdu)) = Inr (join_bytes name)" by (rule setupJOINPDU_join [OF assms(1)])
  let ?k = "failures os (calls s + 3)"
  have k: "?k < 4 \<or> ?k = 4" using failures_le [of os "calls s + 3"] by linarith
  show ?thesis
    unfolding setupConnection_def nth_Cons_numeral
    using d pdu k
    by (auto simp: connectCS_def createsocket_client_result send_pdu_client_def call_def Let_def c_alloc_def
        numeral_2_eq_2 [symmetric] ac_simps)
qed

lemma connected_result:
  assumes "nul_free name" "nul_free mode"
  shows "\<exists>fd s'. setupConnection os [prog, name @ 0 # e1, mode @ 0 # e2, host, port] s = Inr (fd, s') \<and>
    (fd \<noteq> -1 \<longrightarrow> (\<exists>k. sent_bytes s' = sent_bytes s @ [(fd, take k (join_bytes name))]) \<and> take 2 mode = bytes ''cs'')"
  unfolding setupConnection_result [OF assms] by (auto simp: Let_def)

text \<open>
  C28. What \<open>setupConnection\<close> does for any answers of the system: a mode that does not start with
  \<open>cs\<close> is refused; it tries to connect at most four times; it returns a socket exactly when all
  calls succeed, with the JOIN sent, of which the system may have taken only a part. All memory
  is freed, but a failing \<open>bind\<close>, four failing \<open>connect\<close> or a failing \<open>send\<close> leave the socket
  open for good.
\<close>

theorem connection_set_up:
  assumes "nul_free name" "nul_free mode"
  shows "setupConnection os [prog, name @ 0 # e1, mode @ 0 # e2, host, port] s = Inr
    (let c = calls s; fd = os c; k = failures os (c + 3); r = os (c + 4 + k)
     in if take 2 mode \<noteq> bytes ''cs'' then (-1, s)
        else if fd = -1 then (-1, s\<lparr>calls := c + 1\<rparr>)
        else if os (c + 1) \<noteq> 0 then (-1, s\<lparr>calls := c + 2, opened := fd # opened s\<rparr>)
        else if os (c + 2) \<noteq> 0 then (-1, s\<lparr>calls := c + 3\<rparr>)
        else if k = 4 then (-1, s\<lparr>calls := c + 7, opened := fd # opened s\<rparr>)
        else if r = -1 then (-1, s\<lparr>calls := c + 5 + k, opened := fd # opened s\<rparr>)
        else (fd, s\<lparr>calls := c + 5 + k, opened := fd # opened s,
                    sent_bytes := sent_bytes s @ [(fd, take (nat r) (join_bytes name))]\<rparr>))"
  by (rule setupConnection_result [OF assms])

theorem connection_set_up_witness:
  "setupConnection (\<lambda>i. [3, 0, 0, -1, -1, 0, 7] ! i) [c_str ''client'', bytes ''me'' @ 0 # [], bytes ''cs'' @ 0 # [], [0], [0]]
      \<lparr>calls = 0, opened = [], blocks = 0, sent_bytes = []\<rparr> =
    Inr (3, \<lparr>calls = 7, opened = [3], blocks = 0, sent_bytes = [(3, [JOIN, 3, 0, 0, 109, 101, 0])]\<rparr>)"
proof -
  let ?os = "\<lambda>i. [3, 0, 0, -1, -1, 0, 7 :: int] ! i"
  have f: "failures ?os (0 + 3) = 2" by (simp add: failures_def upt_rec)
  have j: "join_bytes (bytes ''me'') = [JOIN, 3, 0, 0, 109, 101, 0]" by (simp add: join_bytes_def le16_def)
  have "nul_free (bytes ''me'')" "nul_free (bytes ''cs'')" by (simp_all add: nul_free_def)
  from connection_set_up [OF this, of ?os "c_str ''client''" "[]" "[]" "[0]" "[0]"
      "\<lparr>calls = 0, opened = [], blocks = 0, sent_bytes = []\<rparr>"]
  show ?thesis unfolding net.select_convs f Let_def j by simp
qed

section \<open>The server\<close>

lemma bind_loop_result:
  "bind_loop os n s = (r, s') \<Longrightarrow> blocks s' = blocks s \<and> calls s' \<le> calls s + 3 * n \<and>
    (case r of Bound fd \<Rightarrow> fd \<noteq> -1 \<and> opened s' = fd # opened s
     | Option_failed \<Rightarrow> \<exists>fd. fd \<noteq> -1 \<and> opened s' = fd # opened s
     | No_address \<Rightarrow> opened s' = opened s)"
proof (induction n arbitrary: s)
  case (Suc n)
  let ?fd = "os (calls s)"
  let ?s = "\<lambda>k. s\<lparr>calls := calls s + k, opened := ?fd # opened s\<rparr>"
  have step: "bind_loop os (Suc n) s =
    (if ?fd = -1 then bind_loop os n (s\<lparr>calls := calls s + 1\<rparr>)
     else if os (calls s + 1) = -1 then (Option_failed, ?s 2)
     else if os (calls s + 2) = 0 then (Bound ?fd, ?s 3)
     else bind_loop os n (s\<lparr>calls := calls s + 3\<rparr>))"
    by (simp add: c_socket_def call_def c_close_def Let_def numeral_2_eq_2 numeral_3_eq_3)
  show ?case
    using Suc.prems Suc.IH [of "s\<lparr>calls := calls s + 1\<rparr>"] Suc.IH [of "s\<lparr>calls := calls s + 3\<rparr>"]
    unfolding step by (auto split: if_splits bound.splits)
qed simp

text \<open>
  C29. The listening socket of the server, for any number of addresses and any answers of the
  system: \<open>setup_listening_socket\<close> ends after at most three calls for each address. When it
  returns a socket, that is the only one left open and all memory is freed; when no address can
  be bound the process exits; when it returns -1 the server goes on to listen on that, and has
  lost the string of the port and, after a failing \<open>setsockopt\<close>, a socket and the list of addresses.
\<close>

theorem listening_socket:
  assumes "argv ! 1 \<noteq> []"
  shows "\<exists>r s'. setup_listening_socket os n argv s = Inr (r, s') \<and> calls s' \<le> calls s + 1 + 3 * n \<and>
    (case r of
       None \<Rightarrow> opened s' = opened s
     | Some fd \<Rightarrow>
         if fd \<noteq> -1 then opened s' = fd # opened s \<and> blocks s' = blocks s
         else opened s' = opened s \<and> blocks s' = blocks s + 1 \<or>
              (\<exists>lost. opened s' = lost # opened s \<and> blocks s' = blocks s + 2))"
proof -
  let ?s = "s\<lparr>calls := calls s + 1, blocks := blocks s + 2\<rparr>" and ?t = "s\<lparr>calls := calls s + 1, blocks := blocks s + 3\<rparr>"
  obtain r s' where b: "bind_loop os n ?t = (r, s')" by (cases "bind_loop os n ?t")
  have p: "c_read (argv ! 1) 0 1 = Inr [hd (argv ! 1)]" using assms by (cases "argv ! 1") simp_all
  have x: "setup_listening_socket os n argv s = Inr
    (if os (calls s) \<noteq> 0 then (Some (-1), c_alloc (-1) ?s)
     else case r of No_address \<Rightarrow> (None, s') | Option_failed \<Rightarrow> (Some (-1), c_alloc (-1) s')
       | Bound fd \<Rightarrow> (Some fd, c_alloc (-1) (c_alloc (-2) s')))"
    unfolding setup_listening_socket_def createsocket_server_def p
    using b by (simp add: getaddrinfo_def call_def c_alloc_def Let_def add.assoc split: bound.splits)
  show ?thesis
    unfolding x using bind_loop_result [OF b] by (cases r) auto
qed

theorem listening_socket_witness:
  "\<exists>r s'. setup_listening_socket (\<lambda>i. [0, 5, 0, -1, 6, 0, 0] ! i) 2 [[0], [56, 0]]
      \<lparr>calls = 0, opened = [], blocks = 0, sent_bytes = []\<rparr> = Inr (r, s') \<and> calls s' \<le> 0 + 1 + 3 * 2 \<and>
    (case r of
       None \<Rightarrow> opened s' = []
     | Some fd \<Rightarrow>
         if fd \<noteq> -1 then opened s' = fd # [] \<and> blocks s' = 0
         else opened s' = [] \<and> blocks s' = 0 + 1 \<or> (\<exists>lost. opened s' = lost # [] \<and> blocks s' = 0 + 2))"
proof -
  have "[[0], [56, 0 :: byte]] ! 1 \<noteq> []" by simp
  from listening_socket [OF this, of "\<lambda>i. [0, 5, 0, -1, 6, 0, 0] ! i" 2
      "\<lparr>calls = 0, opened = [], blocks = 0, sent_bytes = []\<rparr>"] show ?thesis unfolding net.select_convs .
qed

end
