(* ===== verification/ClientMain.thy ===== *)
theory ClientMain
  imports TerminalProps ConnectProps
begin

text \<open>
  \<open>main\<close> of OU4/Client/client.c: it connects, starts the thread of \<open>client_listen\<close>, and runs the loop of
  \<open>client_send\<close>. The answers of the system are the function \<open>os\<close> of Connect; \<open>c\<close> is what arrives at the
  socket, \<open>stack\<close> the memory of the receiver, \<open>message\<close> what the array for the first line happens to hold.
\<close>

text \<open>The exit status, the state of the system calls, and what the loop has sent.\<close>

definition client_main :: "(nat \<Rightarrow> int) \<Rightarrow> nat \<Rightarrow> byte list list \<Rightarrow> byte list \<Rightarrow> (nat \<Rightarrow> bool) \<Rightarrow> sock \<Rightarrow> byte list \<Rightarrow> byte list \<Rightarrow> net \<Rightarrow>
    (int \<times> net \<times> byte list) res option" where
  "client_main os argc argv stack left c message input s =
     (if argc \<noteq> 5 then Some (Inr (1, s, []))
      else bind_b (Some (setupConnection os argv s)) (\<lambda>(client_server, s).
        if client_server = -1 then Some (Inr (1, s, []))
        else
          let (r, s) = call os s
          in if r \<noteq> 0 then Some (Inr (1, s, []))
             else bind_b (client_session stack (of_int client_server) left 0 message input (c, [])) (\<lambda>(e, c, out).
               let (r, s) = call os s
               in if r < 0 then Some (Inr (1, s, out))
                  else
                    let (r, s) = call os s
                    in Some (Inr (if r \<noteq> 0 then 1 else 0, s, out)))))"

text \<open>
  C25. A whole run of the client, over every answer of the system and everything that is typed. Without a connection
  or a second thread it exits with 1 and its loop sends nothing. Otherwise the JOIN with its name is on the connection (of which \<open>send\<close>
  may have taken only a part), and the first pass \<open>k\<close> of the loop whose choice is one of \<open>2\<close> to \<open>8\<close>, or before which the loop is left,
  decides: it sends one INIT for each choice \<open>1\<close> among the passes before it, and a QUIT if its own choice is \<open>5\<close>; with an insertion,
  lookup or deletion (\<open>2\<close>, \<open>3\<close>, \<open>4\<close>) it reads past its key, unless a text that was typed for it has
  overrun an array before, and with a test (\<open>6\<close>, \<open>7\<close>, \<open>8\<close>) it reads past the key of the test. Without such a pass the client
  never returns. After the end of the input every pass repeats the last choice.
\<close>

theorem client_run:
  assumes "nul_free name" "nul_free mode" "setupConnection os [prog, name @ 0 # e1, mode @ 0 # e2, host, port] s = Inr (fd, s1)"
    "run = client_main os 5 [prog, name @ 0 # e1, mode @ 0 # e2, host, port] stack left c message input s"
  shows "(fd = -1 \<or> os (calls s1) \<noteq> 0 \<longrightarrow> (\<exists>s'. run = Some (Inr (1, s', [])) \<and> sent_bytes s' = sent_bytes s1)) \<and>
    (fd \<noteq> -1 \<and> os (calls s1) = 0 \<longrightarrow>
      (\<exists>n. sent_bytes s1 = sent_bytes s @ [(fd, take n (join_bytes name))]) \<and> take 2 mode = bytes ''cs'' \<and>
      (\<forall>k. ends_at left message input k \<longrightarrow>
        (if left k \<or> choice_at message input k = 53
         then \<exists>r s'. run = Some (Inr (r, s', inits_before message input k @ (if left k then [] else [QUIT, 0, 0, 0]))) \<and>
           sent_bytes s' = sent_bytes s1
         else \<exists>e \<in> {OutOfBoundsRead, OutOfBoundsWrite}. run = Some (Inl e) \<and>
           (choice_at message input k \<in> {54, 55, 56} \<longrightarrow> e = OutOfBoundsRead))) \<and>
      ((\<nexists>k. ends_at left message input k) \<longrightarrow> run = None))"
proof (intro conjI impI allI)
  assume "fd = -1 \<or> os (calls s1) \<noteq> 0"
  then show "\<exists>s'. run = Some (Inr (1, s', [])) \<and> sent_bytes s' = sent_bytes s1"
    unfolding assms(4) by (auto simp: client_main_def assms(3) call_def Let_def)
next
  assume ok: "fd \<noteq> -1 \<and> os (calls s1) = 0"
  let ?session = "client_session stack (of_int fd) left 0 message input (c, [])"
  show "\<exists>n. sent_bytes s1 = sent_bytes s @ [(fd, take n (join_bytes name))]" "take 2 mode = bytes ''cs''"
    using connected_result [OF assms(1,2), of os prog e1 e2 host port s] assms(3) ok by auto
  have none: "run = None" if "?session = None"
    using ok that unfolding assms(4) by (simp add: client_main_def assms(3) call_def Let_def)
  have err: "run = Some (Inl e)" if "?session = Some (Inl e)" for e
    using ok that unfolding assms(4) by (simp add: client_main_def assms(3) call_def Let_def)
  have ret: "\<exists>r s'. run = Some (Inr (r, s', out)) \<and> sent_bytes s' = sent_bytes s1" if "?session = Some (Inr (e, c', out))" for e c' out
    using ok that unfolding assms(4) by (simp add: client_main_def assms(3) call_def Let_def)
  show "run = None" if "\<nexists>k. ends_at left message input k"
    using none session_runs_on [of left 0 message input stack "of_int fd" "(c, [])"] that by simp
  show "if left k \<or> choice_at message input k = 53
      then \<exists>r s'. run = Some (Inr (r, s', inits_before message input k @ (if left k then [] else [QUIT, 0, 0, 0]))) \<and> sent_bytes s' = sent_bytes s1
      else \<exists>e \<in> {OutOfBoundsRead, OutOfBoundsWrite}. run = Some (Inl e) \<and>
        (choice_at message input k \<in> {54, 55, 56} \<longrightarrow> e = OutOfBoundsRead)" if k: "ends_at left message input k" for k
  proof -
    have "ends_at (\<lambda>j. left (0 + j)) message input k" using k by simp
    from session_ends [OF this, of stack "of_int fd" c "[]"] obtain e where e: "e \<in> {OutOfBoundsRead, OutOfBoundsWrite}" "?session = Some
        (if left k then Inr (Left_loop, c, inits_before message input k)
         else if choice_at message input k = 53 then Inr (Has_quit, c, inits_before message input k @ [QUIT, 0, 0, 0])
         else if choice_at message input k \<in> {54, 55, 56} then Inl OutOfBoundsRead else Inl e)"
      unfolding add_0 append_Nil by blast
    consider "left k" | "\<not> left k" "choice_at message input k = 53" | "\<not> left k" "choice_at message input k \<noteq> 53" by blast
    then show ?thesis
    proof cases
      case 1
      with e(2) ret show ?thesis by simp
    next
      case 2
      with e(2) ret show ?thesis by simp
    next
      case 3
      then have "?session = Some (Inl (if choice_at message input k \<in> {54, 55, 56} then OutOfBoundsRead else e))" using e(2) by simp
      from err [OF this] e(1) 3 show ?thesis by (simp split: if_splits)
    qed
  qed
qed

text \<open>The choices \<open>1\<close> and \<open>5\<close> of a user whose connection is made at once.\<close>

theorem client_run_witness:
  "\<exists>r s'. client_main (\<lambda>i. if i = 0 then 3 else if i = 4 then 7 else 0) 5
      [c_str ''client'', bytes ''me'' @ 0 # [], bytes ''cs'' @ 0 # [], [0], [0]] [] (\<lambda>_. False)
      \<lparr>inbuf = [], segs = [], fin = Open\<rparr> [] [49, 10, 53, 10] \<lparr>calls = 0, opened = [], blocks = 0, sent_bytes = []\<rparr> =
      Some (Inr (r, s', [INIT, 0, 0, 0, QUIT, 0, 0, 0]))"
proof -
  have n: "nul_free (bytes ''me'')" "nul_free (bytes ''cs'')" by (simp_all add: nul_free_def)
  let ?os = "\<lambda>i :: nat. if i = 0 then 3 else if i = 4 then 7 else 0 :: int"
  let ?s = "\<lparr>calls = 0, opened = [], blocks = 0, sent_bytes = []\<rparr>"
  have f: "failures ?os 3 = 0" by (simp add: failures_def upt_rec)
  obtain s1 where s1: "setupConnection ?os [c_str ''client'', bytes ''me'' @ 0 # [], bytes ''cs'' @ 0 # [], [0], [0]] ?s = Inr (3, s1)"
    "calls s1 = 5"
    unfolding setupConnection_result [OF n] using f by (simp add: Let_def)
  have at: "choice_at [] [49, 10, 53, 10] 0 = 49" "choice_at [] [49, 10, 53, 10] (Suc 0) = 53"
    by (simp_all add: choice_at_def get_message_def)
  have k: "ends_at (\<lambda>_. False) [] [49, 10, 53, 10] (Suc 0)" unfolding ends_at_def by (simp add: at)
  have i: "inits_before [] [49, 10, 53, 10] (Suc 0) = [INIT, 0, 0, 0]" by (simp add: inits_before_def at)
  have ok: "(3 :: int) \<noteq> -1 \<and> ?os (calls s1) = 0" using s1(2) by simp
  note run = client_run [OF n s1(1) refl, where stack = "[]" and left = "\<lambda>_. False" and c = "\<lparr>inbuf = [], segs = [], fin = Open\<rparr>"
      and message = "[]" and input = "[49, 10, 53, 10]", THEN conjunct2, rule_format, OF ok, THEN conjunct2, THEN conjunct2, THEN conjunct1,
      rule_format, OF k, unfolded at i]
  from run show ?thesis by simp blast
qed

end
