(* ===== verification/ServerMain.thy ===== *)
theory ServerMain
  imports Server Connect
begin

text \<open>
  The start of the server, OU4/User/server.c: the two netlink sockets and \<open>main\<close> up to the point where the
  four threads run, for any answers of the system calls (the function \<open>os\<close> of Connect); \<open>pid\<close> is the
  number of the process.
\<close>

section \<open>Netlink sockets\<close>

record sockaddr_nl =
  nl_pid :: u32
  nl_groups :: u32

text \<open>A message buffer: the process number in its header, and the bytes behind the header.\<close>

record nlmsghdr =
  nlmsg_pid :: u32
  payload :: "byte list"

datatype address = Src_addr | Dest_addr

text \<open>The global variables of one socket; \<open>bound_to\<close> is the address that was given to \<open>bind\<close>.\<close>

record netlink =
  sock_fd :: int
  src_addr :: sockaddr_nl
  dest_addr :: sockaddr_nl
  nlh_user :: "nlmsghdr option"
  msg_name :: "address option"
  bound_to :: "sockaddr_nl option"

definition zero_addr :: sockaddr_nl where
  "zero_addr = \<lparr>nl_pid = 0, nl_groups = 0\<rparr>"

definition no_netlink :: netlink where
  "no_netlink = \<lparr>sock_fd = 0, src_addr = zero_addr, dest_addr = zero_addr, nlh_user = None, msg_name = None, bound_to = None\<rparr>"

definition fresh_nlh :: "u32 \<Rightarrow> nlmsghdr" where
  "fresh_nlh pid = \<lparr>nlmsg_pid = pid, payload = replicate MAX_PAYLOAD 0\<rparr>"

definition target :: "netlink \<Rightarrow> sockaddr_nl option" where
  "target g = map_option (case_address (src_addr g) (dest_addr g)) (msg_name g)"

text \<open>
  The second \<open>memset\<close> of the sending side clears the address it has just filled in, and \<open>bind\<close> gets
  the address that the messages are sent to.
\<close>

definition setup_netlink_send :: "u32 \<Rightarrow> (nat \<Rightarrow> int) \<Rightarrow> netlink \<Rightarrow> net \<Rightarrow> int \<times> netlink \<times> net" where
  "setup_netlink_send pid os g s =
     (let (fd, s) = c_socket os s; g = g\<lparr>sock_fd := fd\<rparr>
      in if fd < 0 then (-1, g, s)
         else
           let g = g\<lparr>src_addr := zero_addr\<lparr>nl_pid := pid\<rparr>\<rparr>;
               g = g\<lparr>dest_addr := zero_addr, src_addr := zero_addr\<rparr>;
               g = g\<lparr>nlh_user := Some (fresh_nlh pid), msg_name := Some Src_addr\<rparr>;
               (r, s) = call os (c_alloc 1 s)
           in if r < 0 then (-2, g, s) else (fd, g\<lparr>bound_to := Some (src_addr g)\<rparr>, s))"

text \<open>This one ends without a result when it succeeds (\<open>None\<close>).\<close>

definition setup_netlink_receive :: "u32 \<Rightarrow> (nat \<Rightarrow> int) \<Rightarrow> netlink \<Rightarrow> net \<Rightarrow> int option \<times> netlink \<times> net" where
  "setup_netlink_receive pid os g s =
     (let (fd, s) = c_socket os s; g = g\<lparr>sock_fd := fd\<rparr>
      in if fd < 0 then (Some (-1), g, s)
         else
           let g = g\<lparr>src_addr := zero_addr\<lparr>nl_pid := pid\<rparr>, dest_addr := zero_addr\<rparr>;
               g = g\<lparr>nlh_user := Some (fresh_nlh pid), msg_name := Some Dest_addr\<rparr>;
               (r, s) = call os (c_alloc 1 s)
           in if r < 0 then (Some (-2), g, s) else (None, g\<lparr>bound_to := Some (src_addr g)\<rparr>, s))"

section \<open>Exchanges\<close>

text \<open>
  The module sends its answer to the process number it has read in the header of the request. A
  receiver whose socket could not be made gets an error at once, one that could not be bound never
  gets an answer.
\<close>

definition recvmsg_from :: "netlink \<Rightarrow> u32 \<Rightarrow> 'h system \<Rightarrow> 'h system option" where
  "recvmsg_from from_module pid s =
     (if sock_fd from_module < 0 then Some (s\<lparr>module := (module s)\<lparr>replies := []\<rparr>\<rparr>)
      else if map_option nl_pid (bound_to from_module) = Some pid then recvmsg s
      else None)"

text \<open>A message reaches the kernel when it is sent to process 0; \<open>sendmsg\<close> fails otherwise, which nobody looks at.\<close>

definition sendmsg_to :: "'h rht_ops \<Rightarrow> byte \<Rightarrow> netlink \<Rightarrow> 'h system \<Rightarrow> 'h system res" where
  "sendmsg_to ops junk to_module s =
     (if map_option nl_pid (target to_module) = Some 0 then sendmsg ops junk s else Inr s)"

definition nl_exchange_over :: "'h rht_ops \<Rightarrow> byte \<Rightarrow> netlink \<Rightarrow> netlink \<Rightarrow> byte list \<Rightarrow> nat \<Rightarrow> 'h system \<Rightarrow> 'h system res option" where
  "nl_exchange_over ops junk to_module from_module d n s =
     (case nlh_user to_module of
        None \<Rightarrow> Some (Inl NullDeref)
      | Some nlh \<Rightarrow>
          bind_b (Some (nlmsg_put (nl_send_buf s) d n)) (\<lambda>b.
          bind_b (Some (sendmsg_to ops junk to_module (s\<lparr>nl_send_buf := b\<rparr>))) (\<lambda>s.
          map_option Inr (recvmsg_from from_module (nlmsg_pid nlh) s))))"

section \<open>The start\<close>

fun create_threads :: "(nat \<Rightarrow> int) \<Rightarrow> nat \<Rightarrow> net \<Rightarrow> bool \<times> net" where
  "create_threads os 0 net = (True, net)"
| "create_threads os (Suc n) net =
     (let (r, net) = call os net in if r \<noteq> 0 then (False, net) else create_threads os n net)"

datatype 'h started = Exited int | Running "'h system" netlink netlink

text \<open>
  \<open>main\<close> with the file \<open>f\<close> and the module \<open>k\<close>, up to the creation of the threads for \<open>join_threads\<close>,
  \<open>server_writer\<close>, \<open>kernel_communication\<close> and \<open>accept_connections\<close>.
\<close>

definition server_main :: "'h rht_ops \<Rightarrow> byte \<Rightarrow> u32 \<Rightarrow> (nat \<Rightarrow> int) \<Rightarrow> nat \<Rightarrow> byte list \<Rightarrow> 'h kernel \<Rightarrow> net \<Rightarrow>
    ('h started \<times> net) res option" where
  "server_main ops junk pid os argc f k net =
     (if argc \<noteq> 3 then Some (Inr (Exited 1, net))
      else
        let (_, to_module, net) = setup_netlink_send pid os no_netlink net;
            (_, from_module, net) = setup_netlink_receive pid os no_netlink net
        in bind_b (init_hashtable_over (nl_exchange_over ops junk to_module from_module) (start_state f k)) (\<lambda>s.
           let (r, net) = call os net
           in if r \<noteq> 0 then Some (Inr (Exited 1, net))
              else let (created, net) = create_threads os 4 net
                   in Some (Inr (if created then Running s to_module from_module else Exited 1, net))))"

end
