(* ===== verification/ServerEnd.thy ===== *)
theory ServerEnd
  imports ListProps
begin

text \<open>
  The end of \<open>main\<close> of OU4/User/server.c: the four threads are joined and cancelled, then the four lists of the
  server and the two netlink buffers are freed.
\<close>

fun free_lists :: "ptr list \<Rightarrow> heap \<Rightarrow> heap res option" where
  "free_lists [] h = Some (Inr h)"
| "free_lists (l # ls) h =
     (case llist_free l h of
        None \<Rightarrow> None
      | Some (Inl e) \<Rightarrow> Some (Inl e)
      | Some (Inr h) \<Rightarrow> free_lists ls h)"

text \<open>
  \<open>os\<close> has the results of the calls: two joins, two cancellations, two joins, the end of the mutex. The value
  is that of the process.
\<close>

definition server_main_end :: "(nat \<Rightarrow> int) \<Rightarrow> ptr \<Rightarrow> ptr \<Rightarrow> ptr \<Rightarrow> ptr \<Rightarrow> ptr \<Rightarrow> ptr \<Rightarrow> heap \<Rightarrow> (int \<times> heap) res option" where
  "server_main_end os clients_sockets availableThreads terminatedThreads sender_list nlh_user_receive nlh_user_send h =
     (if os 0 \<noteq> 0 \<or> os 1 \<noteq> 0 then Some (Inr (1, h))
      else if os 2 < 0 then Some (Inr (1, h))
      else if os 3 < 0 then Some (Inr (1, h))
      else if os 4 \<noteq> 0 then Some (Inr (1, h))
      else if os 5 \<noteq> 0 then Some (Inr (1, h))
      else if os 6 \<noteq> 0 then Some (Inr (1, h))
      else
        map_option (\<lambda>r. bind_r r (\<lambda>h. bind_r (c_free nlh_user_receive h) (\<lambda>h.
            bind_r (c_free nlh_user_send h) (\<lambda>h. Inr (0, h)))))
          (free_lists [clients_sockets, availableThreads, terminatedThreads, sender_list] h))"

text \<open>A list with the blocks of its items, and all blocks of it.\<close>

type_synonym owned_list = "handle \<times> (nat \<times> ptr) list \<times> nat list"

definition good_list :: "heap \<Rightarrow> owned_list \<Rightarrow> bool" where
  "good_list h = (\<lambda>(H, xs, das). dl False h H xs \<and> owns h H xs das)"

definition all_blocks :: "owned_list \<Rightarrow> nat set" where
  "all_blocks = (\<lambda>(H, xs, das). blocks H xs \<union> set das)"

lemma good_list_frame:
  assumes "good_list h l" "\<And>a. a \<in> all_blocks l \<Longrightarrow> cells h' a = cells h a"
  shows "good_list h' l"
proof -
  obtain H xs das where l: "l = (H, xs, das)" by (cases l)
  have "dl False h' H xs" by (rule dl_frame [of False h]) (use assms l in \<open>auto simp: good_list_def all_blocks_def\<close>)
  with assms show ?thesis unfolding l good_list_def all_blocks_def by auto
qed

lemma free_lists_complete:
  assumes "heap_ok h" "\<forall>l \<in> set ls. good_list h l" "pairwise (\<lambda>l l'. all_blocks l \<inter> all_blocks l' = {}) (set ls)" "distinct ls"
  shows "\<exists>h'. free_lists (map (\<lambda>l. list_ptr (fst l)) ls) h = Some (Inr h') \<and> heap_ok h' \<and>
    (\<forall>a \<in> \<Union> (all_blocks ` set ls). cells h' a = None) \<and> same_outside (\<Union> (all_blocks ` set ls)) h h'"
  using assms
proof (induction ls arbitrary: h)
  case Nil
  then show ?case by (simp add: same_outside_def)
next
  case (Cons l ls)
  obtain H xs das where l: "l = (H, xs, das)" by (cases l)
  have "dl False h H xs" "owns h H xs das" using Cons.prems(2) l by (simp_all add: good_list_def)
  from llist_free_dl [OF this(1) Cons.prems(1) this(2)] obtain h1 where
    h1: "llist_free (list_ptr H) h = Some (Inr h1)" "heap_ok h1" "\<forall>a \<in> all_blocks l. cells h1 a = None" "same_outside (all_blocks l) h h1"
    unfolding l all_blocks_def by auto
  have disj: "all_blocks l \<inter> all_blocks l' = {}" if "l' \<in> set ls" for l'
    using that Cons.prems(3,4) by (auto simp: pairwise_def)
  have "\<forall>l' \<in> set ls. good_list h1 l'"
  proof
    fix l' assume l': "l' \<in> set ls"
    with disj have "a \<notin> all_blocks l" if "a \<in> all_blocks l'" for a using that by blast
    then have "cells h1 a = cells h a" if "a \<in> all_blocks l'" for a using same_outsideD [OF h1(4)] that by blast
    moreover have "good_list h l'" using Cons.prems(2) l' by simp
    ultimately show "good_list h1 l'" by (rule good_list_frame [rotated])
  qed
  moreover have "pairwise (\<lambda>l l'. all_blocks l \<inter> all_blocks l' = {}) (set ls)" "distinct ls"
    using Cons.prems(3,4) by (auto simp: pairwise_def)
  ultimately obtain h' where h': "free_lists (map (\<lambda>l. list_ptr (fst l)) ls) h1 = Some (Inr h')" "heap_ok h'"
    "\<forall>a \<in> \<Union> (all_blocks ` set ls). cells h' a = None" "same_outside (\<Union> (all_blocks ` set ls)) h1 h'"
    using Cons.IH [OF h1(2)] by blast
  have "cells h' a = None" if "a \<in> all_blocks l" for a
  proof -
    have "a \<notin> \<Union> (all_blocks ` set ls)" using that disj by blast
    from same_outsideD [OF h'(4) this] h1(3) that show ?thesis by simp
  qed
  with h' h1 l show ?case by (auto simp: same_outside_def)
qed

text \<open>
  When its calls succeed, the end of \<open>main\<close> frees the four lists with their items and the two netlink
  buffers, each block once, and nothing else, and returns 0; when one fails, it returns 1 and frees nothing.
\<close>

theorem server_main_end_complete:
  assumes "heap_ok h" "ls = [c, a, t, s]" "distinct ls" "\<forall>l \<in> set ls. good_list h l"
    "pairwise (\<lambda>l l'. all_blocks l \<inter> all_blocks l' = {}) (set ls)"
    "n \<noteq> m" "cells h n \<noteq> None" "cells h m \<noteq> None" "{n, m} \<inter> \<Union> (all_blocks ` set ls) = {}"
  shows "if (\<exists>i \<in> {0, 1, 4, 5, 6}. os i \<noteq> 0) \<or> os 2 < 0 \<or> os 3 < 0
    then server_main_end os (list_ptr (fst c)) (list_ptr (fst a)) (list_ptr (fst t)) (list_ptr (fst s)) (Ptr n 0) (Ptr m 0) h =
      Some (Inr (1, h))
    else \<exists>h'. server_main_end os (list_ptr (fst c)) (list_ptr (fst a)) (list_ptr (fst t)) (list_ptr (fst s)) (Ptr n 0) (Ptr m 0) h =
      Some (Inr (0, h')) \<and>
    (\<forall>b \<in> \<Union> (all_blocks ` set ls) \<union> {n, m}. cells h' b = None) \<and> same_outside (\<Union> (all_blocks ` set ls) \<union> {n, m}) h h'"
proof (cases "(\<exists>i \<in> {0, 1, 4, 5, 6}. os i \<noteq> 0) \<or> os 2 < 0 \<or> os 3 < 0")
  case True
  then show ?thesis by (auto simp: server_main_end_def)
next
  case False
  from free_lists_complete [OF assms(1,4,5,3)] obtain h1 where
    h1: "free_lists (map (\<lambda>l. list_ptr (fst l)) ls) h = Some (Inr h1)"
    "\<forall>a \<in> \<Union> (all_blocks ` set ls). cells h1 a = None" "same_outside (\<Union> (all_blocks ` set ls)) h h1" by blast
  have keep: "cells h1 n \<noteq> None" "cells h1 m \<noteq> None" using h1(3) assms(7-9) by (auto simp: same_outside_def)
  let ?h = "h1\<lparr>cells := (cells h1)(n := None, m := None)\<rparr>"
  have "server_main_end os (list_ptr (fst c)) (list_ptr (fst a)) (list_ptr (fst t)) (list_ptr (fst s)) (Ptr n 0) (Ptr m 0) h =
      Some (Inr (0, ?h))"
    unfolding server_main_end_def using False h1(1) keep assms(2,6) by auto
  moreover have "\<forall>b \<in> \<Union> (all_blocks ` set ls) \<union> {n, m}. cells ?h b = None" using h1(2) by auto
  moreover have "same_outside (\<Union> (all_blocks ` set ls) \<union> {n, m}) h ?h" using h1(3) by (auto simp: same_outside_def)
  ultimately show ?thesis unfolding if_not_P [OF False] by blast
qed

end
