(* ===== verification/NetlinkUser.thy ===== *)
theory NetlinkUser
  imports ServerMain
begin

text \<open>
  The test driver of the module, OU4/User/netlinkUser.c, with one netlink socket (protocol 31) for both
  directions. What comes back on that socket for a message is the parameter \<open>peer\<close>; the module of this
  repository has no input there and sends nothing back.
\<close>

record driver =
  nl_user :: netlink
  inbox :: "byte list list"     \<comment> \<open>what waits at the socket\<close>
  outbox :: "byte list list"    \<comment> \<open>the payloads that were sent\<close>

definition setup_netlink :: "u32 \<Rightarrow> (nat \<Rightarrow> int) \<Rightarrow> netlink \<Rightarrow> net \<Rightarrow> int option \<times> netlink \<times> net" where
  "setup_netlink pid os g s =
     (let (fd, s) = c_socket os s; g = g\<lparr>sock_fd := fd\<rparr>
      in if fd < 0 then (Some (-1), g, s)
         else
           let g = g\<lparr>src_addr := zero_addr\<lparr>nl_pid := pid\<rparr>, dest_addr := zero_addr\<rparr>;
               g = g\<lparr>nlh_user := Some (fresh_nlh pid), msg_name := Some Dest_addr\<rparr>;
               (r, s) = call os (c_alloc 1 s)
           in if r < 0 then (Some (-2), g, s) else (None, g\<lparr>bound_to := Some (src_addr g)\<rparr>, s))"

definition reset_netlink :: "u32 \<Rightarrow> driver \<Rightarrow> driver res" where
  "reset_netlink pid s =
     (case nlh_user (nl_user s) of
        None \<Rightarrow> Inl NullDeref
      | Some nlh \<Rightarrow> Inr (s\<lparr>nl_user := (nl_user s)\<lparr>nlh_user := Some (fresh_nlh pid)\<rparr>\<rparr>))"

text \<open>
  The end of all four operations: \<open>memcpy\<close> into the message, \<open>sendmsg\<close>, \<open>recvmsg\<close> into the same buffer,
  \<open>read_exactly_from_kernel\<close>. An answer arrives only at a socket that is bound to the process.
\<close>

definition user_exchange :: "(byte list \<Rightarrow> byte list list) \<Rightarrow> byte list \<Rightarrow> nat \<Rightarrow> driver \<Rightarrow> driver res option" where
  "user_exchange peer action n s =
     (case nlh_user (nl_user s) of
        None \<Rightarrow> Some (Inl NullDeref)
      | Some nlh \<Rightarrow>
          bind_b (Some (nlmsg_put (payload nlh) action n)) (\<lambda>b.
          let arrived = (if map_option nl_pid (bound_to (nl_user s)) = Some (nlmsg_pid nlh) then peer b else [])
          in case inbox s @ arrived of
               [] \<Rightarrow> None
             | r # rs \<Rightarrow>
                 let b' = take MAX_PAYLOAD r @ drop (length r) b
                 in bind_b (Some (read_exactly_from_kernel b')) (\<lambda>pdu.
                    Some (Inr (s\<lparr>nl_user := (nl_user s)\<lparr>nlh_user := Some (nlh\<lparr>payload := b'\<rparr>)\<rparr>,
                                 inbox := rs, outbox := outbox s @ [b]\<rparr>)))))"

text \<open>The result of \<open>PDU_to_buffer_user\<close>, copied without a look at it.\<close>

definition send_action :: "(byte list \<Rightarrow> byte list list) \<Rightarrow> byte list option \<Rightarrow> nat \<Rightarrow> driver \<Rightarrow> driver res option" where
  "send_action peer action n s =
     (case action of None \<Rightarrow> Some (Inl NullDeref) | Some a \<Rightarrow> user_exchange peer a n s)"

definition TEST_DATA :: "byte list" where "TEST_DATA = c_str ''Jag heter HASSE!!!''"

definition insert_rhashtable :: "(byte list \<Rightarrow> byte list list) \<Rightarrow> byte list \<Rightarrow> driver \<Rightarrow> driver res option" where
  "insert_rhashtable peer key s =
     bind_b (Some (c_read key 0 KEY_SIZE)) (\<lambda>k.
     bind_b (Some (c_strnlen TEST_DATA MAX_PAYLOAD)) (\<lambda>len.
     let n = of_nat (len + 1) :: u16
     in bind_b (Some (c_read TEST_DATA 0 (unat n))) (\<lambda>d.
        bind_b (Some (c_write (replicate (unat n) 0) 0 d)) (\<lambda>d.
        bind_b (Some (PDU_to_buffer_user INSERT
          (S_INSERT \<lparr>INSERT_op = INSERT, INSERT_key = k, INSERT_bytes = n, INSERT_data = d\<rparr>))) (\<lambda>action.
        send_action peer action (unat n + HEADERSIZE + KEY_SIZE) s)))))"

definition get_rhashtable :: "(byte list \<Rightarrow> byte list list) \<Rightarrow> byte list \<Rightarrow> driver \<Rightarrow> driver res option" where
  "get_rhashtable peer key s =
     bind_b (Some (c_read key 0 KEY_SIZE)) (\<lambda>k.
     bind_b (Some (PDU_to_buffer_user GET (S_GET \<lparr>GET_op = GET, GET_key = k\<rparr>))) (\<lambda>action.
     send_action peer action 68 s))"

definition delete_rhashtable :: "(byte list \<Rightarrow> byte list list) \<Rightarrow> byte list \<Rightarrow> driver \<Rightarrow> driver res option" where
  "delete_rhashtable peer key s =
     bind_b (Some (c_read key 0 KEY_SIZE)) (\<lambda>k.
     bind_b (Some (PDU_to_buffer_user DELETE (S_DELETE \<lparr>DELETE_op = DELETE, DELETE_key = k\<rparr>))) (\<lambda>action.
     send_action peer action 68 s))"

text \<open>It is never called.\<close>

definition init_rhashtable :: "(byte list \<Rightarrow> byte list list) \<Rightarrow> driver \<Rightarrow> driver res option" where
  "init_rhashtable peer s =
     bind_b (Some (PDU_to_buffer_user INIT (S_INIT \<lparr>INIT_op = INIT\<rparr>))) (\<lambda>action.
     send_action peer action HEADERSIZE s)"

text \<open>\<open>n\<close> passes of one of the loops; \<open>lit\<close> is the memory of the literal that is copied into the key.\<close>

fun key_passes :: "(byte list \<Rightarrow> driver \<Rightarrow> driver res option) \<Rightarrow> u32 \<Rightarrow> byte list \<Rightarrow> nat \<Rightarrow> driver \<Rightarrow> driver res option" where
  "key_passes op pid lit 0 s = Some (Inr s)"
| "key_passes op pid lit (Suc n) s =
     bind_b (Some (c_read lit 0 KEY_SIZE)) (\<lambda>k.
     bind_b (Some (c_write (replicate KEY_SIZE 0) 0 k)) (\<lambda>key.
     bind_b (Some (reset_netlink pid s)) (\<lambda>s.
     bind_b (op key s) (key_passes op pid lit n))))"

definition test_rhashtable :: "(byte list \<Rightarrow> byte list list) \<Rightarrow> u32 \<Rightarrow> (nat \<Rightarrow> int) \<Rightarrow> byte list \<Rightarrow> net \<Rightarrow> driver res option" where
  "test_rhashtable peer pid os lit net =
     (let (_, g, net) = setup_netlink pid os no_netlink net; s = \<lparr>nl_user = g, inbox = [], outbox = []\<rparr>
      in bind_b (key_passes (insert_rhashtable peer) pid lit 5 s) (\<lambda>s.
         bind_b (key_passes (get_rhashtable peer) pid lit 5 s) (\<lambda>s.
         key_passes (delete_rhashtable peer) pid lit 5 s)))"

end
