(* ===== verification/NetlinkUserProps.thy ===== *)
theory NetlinkUserProps
  imports NetlinkUser ServerProps
begin

text \<open>What becomes of the test driver of the module.\<close>

section \<open>Messages\<close>

definition on_wire :: "request \<Rightarrow> byte list" where
  "on_wire r = encode r @ replicate (MAX_PAYLOAD - length (encode r)) 0"

abbreviation ten :: "byte list" where "ten \<equiv> bytes ''10''"

lemma key_copy:
  assumes "KEY_SIZE \<le> length (ten @ 0 # e)"
  obtains q where "c_read (ten @ 0 # e) 0 KEY_SIZE = Inr (ten @ 0 # q)" "length (ten @ 0 # q) = KEY_SIZE"
proof -
  have "take KEY_SIZE (ten @ 0 # e) = ten @ 0 # take 61 e" by simp
  moreover have "length (ten @ 0 # take 61 e) = KEY_SIZE" using assms by simp
  ultimately show thesis using assms by (intro that [of "take 61 e"]) auto
qed

lemma test_data: "c_strnlen TEST_DATA MAX_PAYLOAD = Inr 18" "length TEST_DATA = 19"
proof -
  have n: "nul_free (bytes ''Jag heter HASSE!!!'')" by (simp add: nul_free_def)
  have l: "length (bytes ''Jag heter HASSE!!!'') = 18" by simp
  show "length TEST_DATA = 19" by (simp add: TEST_DATA_def)
  show "c_strnlen TEST_DATA MAX_PAYLOAD = Inr 18"
    unfolding TEST_DATA_def c_str_def c_strnlen_def using upto_nul_append [OF n, of "[]"] l by simp
qed

lemma user_operations:
  assumes "length (ten @ 0 # q) = KEY_SIZE"
  shows "insert_rhashtable peer (ten @ 0 # q) = user_exchange peer (encode (Insert ten TEST_DATA)) (length (encode (Insert ten TEST_DATA)))"
    "get_rhashtable peer (ten @ 0 # q) = user_exchange peer (encode (Get ten)) (length (encode (Get ten)))"
    "delete_rhashtable peer (ten @ 0 # q) = user_exchange peer (encode (Delete ten)) (length (encode (Delete ten)))"
proof -
  have k: "nul_free ten" "length ten < KEY_SIZE" by (simp_all add: nul_free_def)
  have r: "c_read (ten @ 0 # q) 0 KEY_SIZE = Inr (ten @ 0 # q)" using assms by simp
  have n: "unat (of_nat (18 + 1) :: u16) = 19" by simp
  have "unat (19 :: u16) = length TEST_DATA" using test_data by simp
  from create_INSERT_buffer_ok [OF k this, of q "[]"] have
    i: "create_INSERT_buffer \<lparr>INSERT_op = INSERT, INSERT_key = ten @ 0 # q, INSERT_bytes = of_nat (18 + 1), INSERT_data = TEST_DATA\<rparr> =
      Inr (encode (Insert ten TEST_DATA))" by simp
  have l: "length (encode (Insert ten TEST_DATA)) = 19 + HEADERSIZE + KEY_SIZE" "length (encode (Get ten)) = 68"
    "length (encode (Delete ten)) = 68"
    using test_data by (simp_all add: length_wire_insert length_wire_key)
  show "insert_rhashtable peer (ten @ 0 # q) = user_exchange peer (encode (Insert ten TEST_DATA)) (length (encode (Insert ten TEST_DATA)))"
    unfolding insert_rhashtable_def l(1) r test_data(1) bind_b_simps Let_def n
    using i test_data(2) by (intro ext) (simp add: PDU_to_buffer_user_def send_action_def)
  show "get_rhashtable peer (ten @ 0 # q) = user_exchange peer (encode (Get ten)) (length (encode (Get ten)))"
    unfolding get_rhashtable_def l(2) r bind_b_simps
    using create_GET_buffer_ok [OF k] by (intro ext) (simp add: PDU_to_buffer_user_def send_action_def)
  show "delete_rhashtable peer (ten @ 0 # q) = user_exchange peer (encode (Delete ten)) (length (encode (Delete ten)))"
    unfolding delete_rhashtable_def l(3) r bind_b_simps
    using create_DELETE_buffer_ok [OF k] by (intro ext) (simp add: PDU_to_buffer_user_def send_action_def)
qed

section \<open>Passes\<close>

definition sends :: "(byte list \<Rightarrow> driver \<Rightarrow> driver res option) \<Rightarrow> (byte list \<Rightarrow> byte list list) \<Rightarrow> request \<Rightarrow> bool" where
  "sends op peer r \<longleftrightarrow> (\<forall>q. length (ten @ 0 # q) = KEY_SIZE \<longrightarrow> op (ten @ 0 # q) = user_exchange peer (encode r) (length (encode r))) \<and>
     length (encode r) \<le> MAX_PAYLOAD"

lemma operations_send:
  "sends (insert_rhashtable peer) peer (Insert ten TEST_DATA)" "sends (get_rhashtable peer) peer (Get ten)"
  "sends (delete_rhashtable peer) peer (Delete ten)"
  using user_operations test_data unfolding sends_def by (auto simp: length_wire_insert length_wire_key)

definition waiting :: "u32 \<Rightarrow> driver \<Rightarrow> bool" where
  "waiting pid s \<longleftrightarrow> nlh_user (nl_user s) \<noteq> None \<and> inbox s = []"

lemma one_pass:
  assumes "KEY_SIZE \<le> length (ten @ 0 # e)" "sends op peer r" "nlh_user (nl_user s) \<noteq> None"
  shows "key_passes op pid (ten @ 0 # e) (Suc n) s =
    bind_b (user_exchange peer (encode r) (length (encode r)) (s\<lparr>nl_user := (nl_user s)\<lparr>nlh_user := Some (fresh_nlh pid)\<rparr>\<rparr>))
      (key_passes op pid (ten @ 0 # e) n)"
proof -
  obtain q where q: "c_read (ten @ 0 # e) 0 KEY_SIZE = Inr (ten @ 0 # q)" "length (ten @ 0 # q) = KEY_SIZE"
    by (rule key_copy [OF assms(1)])
  then have w: "c_write (replicate KEY_SIZE 0) 0 (ten @ 0 # q) = Inr (ten @ 0 # q)" by simp
  have "op (ten @ 0 # q) = user_exchange peer (encode r) (length (encode r))" using assms(2) q(2) by (simp only: sends_def)
  with assms(3) show ?thesis
    unfolding key_passes.simps q(1) w bind_b_simps by (auto simp: reset_netlink_def simp del: encode.simps)
qed

lemma exchange_put:
  "length (encode r) \<le> MAX_PAYLOAD \<Longrightarrow> nlmsg_put (payload (fresh_nlh pid)) (encode r) (length (encode r)) = Inr (on_wire r)"
  using nlmsg_put_message [of "encode r" "replicate MAX_PAYLOAD 0"] by (simp add: fresh_nlh_def on_wire_def)

lemma silent_pass:
  assumes "KEY_SIZE \<le> length (ten @ 0 # e)" "sends op peer r" "nlh_user (nl_user s) \<noteq> None" "inbox s = []"
    "bound_to (nl_user s) = None \<or> peer (on_wire r) = []"
  shows "key_passes op pid (ten @ 0 # e) (Suc n) s = None"
proof -
  have "length (encode r) \<le> MAX_PAYLOAD" using assms(2) by (simp add: sends_def)
  from exchange_put [OF this, of pid] assms(4,5) show ?thesis
    unfolding one_pass [OF assms(1-3)] by (auto simp: user_exchange_def simp del: encode.simps)
qed

lemma answered_passes:
  assumes "KEY_SIZE \<le> length (ten @ 0 # e)" "sends op peer r" "peer (on_wire r) = [reply junk a]" "length a + HEADERSIZE \<le> MAX_PAYLOAD"
  shows "nlh_user (nl_user s) \<noteq> None \<Longrightarrow> map_option nl_pid (bound_to (nl_user s)) = Some pid \<Longrightarrow> inbox s = [] \<Longrightarrow>
    \<exists>s'. key_passes op pid (ten @ 0 # e) n s = Some (Inr s') \<and> nlh_user (nl_user s') \<noteq> None \<and>
      map_option nl_pid (bound_to (nl_user s')) = Some pid \<and> inbox s' = [] \<and> outbox s' = outbox s @ replicate n (on_wire r)"
proof (induction n arbitrary: s)
  case (Suc n)
  have l: "length (encode r) \<le> MAX_PAYLOAD" using assms(2) by (simp add: sends_def)
  have t: "take MAX_PAYLOAD (reply junk a) = reply junk a" using assms(4) by (simp add: length_reply)
  obtain s1 where s1: "user_exchange peer (encode r) (length (encode r)) (s\<lparr>nl_user := (nl_user s)\<lparr>nlh_user := Some (fresh_nlh pid)\<rparr>\<rparr>) =
      Some (Inr s1)" "nlh_user (nl_user s1) \<noteq> None" "bound_to (nl_user s1) = bound_to (nl_user s)" "inbox s1 = []"
      "outbox s1 = outbox s @ [on_wire r]"
    using exchange_put [OF l, of pid] Suc.prems assms(3) read_reply [OF assms(4)]
    by (auto simp: user_exchange_def t fresh_nlh_def Let_def simp del: encode.simps)
  from Suc.IH [OF s1(2) _ s1(4)] s1(3) Suc.prems(2) obtain s' where
    "key_passes op pid (ten @ 0 # e) n s1 = Some (Inr s')" "nlh_user (nl_user s') \<noteq> None"
    "map_option nl_pid (bound_to (nl_user s')) = Some pid" "inbox s' = []" "outbox s' = outbox s1 @ replicate n (on_wire r)" by auto
  with s1(1,5) show ?case unfolding one_pass [OF assms(1,2) Suc.prems(1)] by simp
qed simp

section \<open>The driver\<close>

text \<open>
  C32. The driver never gets through. It copies 64 bytes from the literal of three, in the
  first pass. With a longer one it dereferences null when there is no socket, and it waits for ever
  in the first insertion when the socket is not bound or nothing answers, as the module of this
  repository does on this protocol. With a peer that answers every message it would send five
  insertions, five lookups and five deletions of the key \<open>10\<close> and return.
\<close>

theorem driver_outcomes:
  assumes "lit = ten @ 0 # e" "\<And>m. peer m = [] \<or> (\<exists>a. peer m = [reply junk a] \<and> length a + HEADERSIZE \<le> MAX_PAYLOAD)"
  shows "let r = test_rhashtable peer pid os lit net; c = calls net
    in (length lit < KEY_SIZE \<longrightarrow> r = Some (Inl OutOfBoundsRead)) \<and>
      (KEY_SIZE \<le> length lit \<and> os c < 0 \<longrightarrow> r = Some (Inl NullDeref)) \<and>
      (KEY_SIZE \<le> length lit \<and> 0 \<le> os c \<and> (os (c + 1) < 0 \<or> (\<forall>m. peer m = [])) \<longrightarrow> r = None) \<and>
      (KEY_SIZE \<le> length lit \<and> 0 \<le> os c \<and> 0 \<le> os (c + 1) \<and> (\<forall>m. peer m \<noteq> []) \<longrightarrow>
        (\<exists>s. r = Some (Inr s) \<and> inbox s = [] \<and>
          outbox s = map on_wire (replicate 5 (Insert ten TEST_DATA) @ replicate 5 (Get ten) @ replicate 5 (Delete ten))))"
proof -
  have five: "(5 :: nat) = Suc 4" by simp
  obtain rc g net' where set: "setup_netlink pid os no_netlink net = (rc, g, net')"
    by (cases "setup_netlink pid os no_netlink net")
  let ?s = "\<lparr>nl_user = g, inbox = [], outbox = []\<rparr>"
  have run: "test_rhashtable peer pid os lit net =
      bind_b (key_passes (insert_rhashtable peer) pid lit 5 ?s) (\<lambda>s.
      bind_b (key_passes (get_rhashtable peer) pid lit 5 s) (key_passes (delete_rhashtable peer) pid lit 5))"
    by (simp add: test_rhashtable_def set)
  note g = set [symmetric, unfolded setup_netlink_def c_socket_def call_def c_alloc_def no_netlink_def Let_def]
  have short: "test_rhashtable peer pid os lit net = Some (Inl OutOfBoundsRead)" if "length lit < KEY_SIZE"
    unfolding run unfolding five key_passes.simps using that by (simp add: c_read_fail)
  have none: "test_rhashtable peer pid os lit net = Some (Inl NullDeref)" if "KEY_SIZE \<le> length lit" "os (calls net) < 0"
    unfolding run unfolding five key_passes.simps using that g
    by (auto simp: reset_netlink_def c_write_fail split: if_splits)
  have live: "nlh_user g \<noteq> None" if "0 \<le> os (calls net)" using that g by (auto split: if_splits)
  have bound: "if os (calls net + 1) < 0 then bound_to g = None else map_option nl_pid (bound_to g) = Some pid"
    if "0 \<le> os (calls net)" using that g by (auto split: if_splits)
  have wait: "test_rhashtable peer pid os lit net = None"
    if "KEY_SIZE \<le> length lit" "0 \<le> os (calls net)" "os (calls net + 1) < 0 \<or> (\<forall>m. peer m = [])"
  proof -
    have "key_passes (insert_rhashtable peer) pid lit (Suc 4) ?s = None"
      unfolding assms(1) by (rule silent_pass [OF _ operations_send(1)]) (use that live bound assms(1) in \<open>auto split: if_splits\<close>)
    then show ?thesis unfolding run unfolding five by simp
  qed
  have through: "\<exists>s. test_rhashtable peer pid os lit net = Some (Inr s) \<and> inbox s = [] \<and>
      outbox s = map on_wire (replicate 5 (Insert ten TEST_DATA) @ replicate 5 (Get ten) @ replicate 5 (Delete ten))"
    if "KEY_SIZE \<le> length lit" "0 \<le> os (calls net)" "0 \<le> os (calls net + 1)" "\<forall>m. peer m \<noteq> []"
  proof -
    have k: "KEY_SIZE \<le> length (ten @ 0 # e)" using that(1) assms(1) by simp
    have ans: "\<exists>a. peer m = [reply junk a] \<and> length a + HEADERSIZE \<le> MAX_PAYLOAD" for m using assms(2) that(4) by blast
    obtain a1 a2 a3 where a: "peer (on_wire (Insert ten TEST_DATA)) = [reply junk a1]" "length a1 + HEADERSIZE \<le> MAX_PAYLOAD"
      "peer (on_wire (Get ten)) = [reply junk a2]" "length a2 + HEADERSIZE \<le> MAX_PAYLOAD"
      "peer (on_wire (Delete ten)) = [reply junk a3]" "length a3 + HEADERSIZE \<le> MAX_PAYLOAD" using ans by blast
    have s: "nlh_user (nl_user ?s) \<noteq> None" "map_option nl_pid (bound_to (nl_user ?s)) = Some pid" "inbox ?s = []"
      using live bound that(2,3) by auto
    from answered_passes [OF k operations_send(1) [of peer] a(1,2), of ?s pid 5, OF s] obtain s1 where
      s1: "key_passes (insert_rhashtable peer) pid lit 5 ?s = Some (Inr s1)" "nlh_user (nl_user s1) \<noteq> None"
        "map_option nl_pid (bound_to (nl_user s1)) = Some pid" "inbox s1 = []"
        "outbox s1 = outbox ?s @ replicate 5 (on_wire (Insert ten TEST_DATA))" unfolding assms(1) by blast
    from answered_passes [OF k operations_send(2) [of peer] a(3,4), of s1 pid 5, OF s1(2-4)] obtain s2 where
      s2: "key_passes (get_rhashtable peer) pid lit 5 s1 = Some (Inr s2)" "nlh_user (nl_user s2) \<noteq> None"
        "map_option nl_pid (bound_to (nl_user s2)) = Some pid" "inbox s2 = []"
        "outbox s2 = outbox s1 @ replicate 5 (on_wire (Get ten))" unfolding assms(1) by blast
    from answered_passes [OF k operations_send(3) [of peer] a(5,6), of s2 pid 5, OF s2(2-4)] obtain s3 where
      s3: "key_passes (delete_rhashtable peer) pid lit 5 s2 = Some (Inr s3)" "inbox s3 = []"
        "outbox s3 = outbox s2 @ replicate 5 (on_wire (Delete ten))" unfolding assms(1) by blast
    show ?thesis unfolding run s1(1) s2(1) s3(1) bind_b_simps using s1(5) s2(5) s3(2,3)
      by (simp only: map_append map_replicate) auto
  qed
  show ?thesis unfolding Let_def using short none wait through by blast
qed

theorem driver_outcomes_witness:
  "test_rhashtable (\<lambda>_. []) 77 (\<lambda>_. 3) (c_str ''10'') \<lparr>calls = 0, opened = [], blocks = 0, sent_bytes = []\<rparr> = Some (Inl OutOfBoundsRead)"
  using driver_outcomes [of "c_str ''10''" "[]" "\<lambda>_. []" 0 77 "\<lambda>_. 3" "\<lparr>calls = 0, opened = [], blocks = 0, sent_bytes = []\<rparr>"]
  by (simp add: c_str_def Let_def)

end
