(* ===== verification/Threads.thy ===== *)
theory Threads
  imports CPrelude "HOL-Library.Multiset"
begin

text \<open>
  The threads of OU4/User/server.c. First the pool of listening threads: which thread numbers
  are free, taken or waiting to be joined, and the \<open>clientThreadInfo\<close> blocks whose two fields
  are at the same time items of \<open>terminatedThreads\<close> and of \<open>clients_sockets\<close>. Each operation is
  the code between two points where another thread can interfere; \<open>None\<close> means that it blocks.
  Then the waiting loops of \<open>kernel_communication\<close> and \<open>join_threads\<close> on a list's condition
  variable.
\<close>

section \<open>The pool\<close>

abbreviation THREADS :: nat where "THREADS \<equiv> 10"

record clientThreadInfo =
  thread_num :: nat
  client_sock :: nat

record pool =
  availableThreads :: "nat list"
  terminatedThreads :: "nat list"       \<comment> \<open>blocks, by \<open>&cti->thread_num\<close>\<close>
  clients_sockets :: "nat list"         \<comment> \<open>blocks, by \<open>&cti->client_sock\<close>\<close>
  cti :: "nat \<Rightarrow> clientThreadInfo option"
  next_cti :: nat
  listening :: "(nat \<times> nat) list"      \<comment> \<open>threads in the loop: block and \<open>temp_socket\<close>\<close>
  leaving :: "(nat \<times> nat) list"        \<comment> \<open>threads between \<open>llist_insertfirst\<close> and their end\<close>
  joining :: "(nat \<times> nat) option"      \<comment> \<open>\<open>join_threads\<close> in \<open>pthread_join\<close>: block and number\<close>
  closeAllClients :: bool
  exitServer :: bool

definition started :: pool where
  "started = \<lparr>availableThreads = [0..<THREADS], terminatedThreads = [], clients_sockets = [], cti = (\<lambda>_. None),
     next_cti = 0, listening = [], leaving = [], joining = None, closeAllClients = False, exitServer = False\<rparr>"

text \<open>\<open>None\<close>: the server is full.\<close>

definition find_free_thread :: "pool \<Rightarrow> nat option \<times> pool" where
  "find_free_thread s =
     (case availableThreads s of
        [] \<Rightarrow> (None, s)
      | n # ns \<Rightarrow> (Some n, s\<lparr>availableThreads := ns\<rparr>))"

text \<open>One round of \<open>accept_connections\<close>: a refused connection is closed again.\<close>

definition accept_connection :: "nat \<Rightarrow> pool \<Rightarrow> pool" where
  "accept_connection sock s =
     (case find_free_thread s of
        (None, s) \<Rightarrow> s
      | (Some thread_number, s) \<Rightarrow>
          if \<not> closeAllClients s then
            s\<lparr>clients_sockets := clients_sockets s @ [next_cti s],
              cti := (cti s)(next_cti s \<mapsto> \<lparr>thread_num = thread_number, client_sock = sock\<rparr>),
              next_cti := next_cti s + 1,
              listening := (next_cti s, sock) # listening s\<rparr>
          else s)"

text \<open>\<open>client_listener\<close> sees the end of its connection.\<close>

definition client_gone :: "nat \<times> nat \<Rightarrow> pool \<Rightarrow> pool" where
  "client_gone t s = s\<lparr>listening := remove1 t (listening s), leaving := t # leaving s,
     terminatedThreads := fst t # terminatedThreads s\<rparr>"

text \<open>The loop of \<open>close_connected_client\<close> looks at every block up to the one with its socket.\<close>

fun remove_client :: "(nat \<Rightarrow> clientThreadInfo option) \<Rightarrow> nat \<Rightarrow> nat list \<Rightarrow> nat list res" where
  "remove_client c sock [] = Inr []"
| "remove_client c sock (p # ps) =
     (case c p of
        None \<Rightarrow> Inl UseAfterFree
      | Some info \<Rightarrow>
          if sock = client_sock info then Inr ps
          else bind_r (remove_client c sock ps) (\<lambda>ps. Inr (p # ps)))"

definition close_connected_client :: "nat \<times> nat \<Rightarrow> pool \<Rightarrow> pool res" where
  "close_connected_client t s =
     bind_r (remove_client (cti s) (snd t) (clients_sockets s)) (\<lambda>cs.
     Inr (s\<lparr>clients_sockets := cs, leaving := remove1 t (leaving s)\<rparr>))"

text \<open>\<open>llist_removefirst_INT\<close> in \<open>join_threads\<close> copies the number out of the block and frees it.\<close>

definition join_begin :: "pool \<Rightarrow> pool res option" where
  "join_begin s =
     (case (joining s, terminatedThreads s) of
        (None, i # is) \<Rightarrow> Some
          (case cti s i of
             None \<Rightarrow> Inl UseAfterFree
           | Some info \<Rightarrow> Inr (s\<lparr>terminatedThreads := is, cti := (cti s)(i := None), joining := Some (i, thread_num info)\<rparr>))
      | _ \<Rightarrow> None)"

definition join_end :: "pool \<Rightarrow> pool option" where
  "join_end s =
     (case joining s of
        None \<Rightarrow> None
      | Some (i, n) \<Rightarrow>
          if i \<in> fst ` set (leaving s) then None
          else Some (s\<lparr>joining := None, availableThreads := availableThreads s @ [n]\<rparr>))"

text \<open>\<open>close_server\<close> up to \<open>closeAllClients = true\<close>, and its end once all threads are back.\<close>

definition close_begin :: "pool \<Rightarrow> pool res" where
  "close_begin s =
     (if \<exists>i \<in> set (clients_sockets s). cti s i = None then Inl UseAfterFree
      else Inr (s\<lparr>clients_sockets := [], closeAllClients := True\<rparr>))"

definition close_end :: "pool \<Rightarrow> pool option" where
  "close_end s =
     (if closeAllClients s \<and> THREADS \<le> length (availableThreads s) then Some (s\<lparr>exitServer := True\<rparr>) else None)"

section \<open>Interleavings\<close>

inductive pool_step :: "pool \<Rightarrow> pool \<Rightarrow> bool" where
  accepting: "pool_step s (accept_connection sock s)"
| going: "t \<in> set (listening s) \<Longrightarrow> pool_step s (client_gone t s)"
| closing: "t \<in> set (leaving s) \<Longrightarrow> close_connected_client t s = Inr s' \<Longrightarrow> pool_step s s'"
| joining: "join_begin s = Some (Inr s') \<Longrightarrow> pool_step s s'"
| joined: "join_end s = Some s' \<Longrightarrow> pool_step s s'"
| shutting: "close_begin s = Inr s' \<Longrightarrow> pool_step s s'"
| shut: "close_end s = Some s' \<Longrightarrow> pool_step s s'"

abbreviation pool_steps :: "pool \<Rightarrow> pool \<Rightarrow> bool" where
  "pool_steps \<equiv> pool_step\<^sup>*\<^sup>*"

text \<open>A state in which some thread's next operation faults.\<close>

definition pool_faults :: "pool \<Rightarrow> bool" where
  "pool_faults s \<longleftrightarrow> (\<exists>t \<in> set (leaving s). \<exists>e. close_connected_client t s = Inl e) \<or>
     (\<exists>e. join_begin s = Some (Inl e)) \<or> (\<exists>e. close_begin s = Inl e)"

section \<open>Thread numbers\<close>

definition number_of :: "pool \<Rightarrow> nat \<Rightarrow> nat" where
  "number_of s i = (case cti s i of None \<Rightarrow> THREADS | Some info \<Rightarrow> thread_num info)"

text \<open>Where a number can be: free, in a listening thread, waiting to be joined, being joined.\<close>

definition numbers :: "pool \<Rightarrow> nat multiset" where
  "numbers s = mset (availableThreads s) + image_mset (number_of s) (mset (map fst (listening s))) +
     image_mset (number_of s) (mset (terminatedThreads s)) +
     (case joining s of None \<Rightarrow> {#} | Some (i, n) \<Rightarrow> {#n#})"

definition pool_ok :: "pool \<Rightarrow> bool" where
  "pool_ok s \<longleftrightarrow> distinct (map fst (listening s) @ terminatedThreads s) \<and>
     (\<forall>i \<in> set (map fst (listening s) @ terminatedThreads s). cti s i \<noteq> None) \<and>
     (\<forall>i. next_cti s \<le> i \<longrightarrow> cti s i = None)"

lemma numbers_cong:
  assumes "availableThreads s' = availableThreads s" "map fst (listening s') = map fst (listening s)"
    "terminatedThreads s' = terminatedThreads s" "joining s' = joining s"
    "\<forall>i \<in> set (map fst (listening s) @ terminatedThreads s). cti s' i = cti s i"
  shows "numbers s' = numbers s"
proof -
  have "image_mset (number_of s') (mset (map fst (listening s))) = image_mset (number_of s) (mset (map fst (listening s)))"
    "image_mset (number_of s') (mset (terminatedThreads s)) = image_mset (number_of s) (mset (terminatedThreads s))"
    using assms(5) by (auto intro!: image_mset_cong simp: number_of_def)
  then show ?thesis using assms(1-4) by (simp add: numbers_def)
qed

lemma accept_connection_numbers:
  assumes "pool_ok s"
  shows "pool_ok (accept_connection sock s)"
    and "numbers (accept_connection sock s) =
      (if closeAllClients s \<and> availableThreads s \<noteq> [] then numbers s - {#hd (availableThreads s)#} else numbers s)"
proof -
  have fresh: "next_cti s \<notin> set (map fst (listening s) @ terminatedThreads s)" "cti s (next_cti s) = None"
    using assms unfolding pool_ok_def by (blast, simp)
  show "pool_ok (accept_connection sock s)"
    using assms fresh by (auto simp: accept_connection_def find_free_thread_def pool_ok_def split: list.split)
  show "numbers (accept_connection sock s) =
      (if closeAllClients s \<and> availableThreads s \<noteq> [] then numbers s - {#hd (availableThreads s)#} else numbers s)"
  proof (cases "availableThreads s")
    case Nil
    then show ?thesis by (simp add: accept_connection_def find_free_thread_def)
  next
    case (Cons n ns)
    show ?thesis
    proof (cases "closeAllClients s")
      case True
      with Cons show ?thesis
        by (simp add: accept_connection_def find_free_thread_def numbers_def number_of_def [abs_def])
    next
      case False
      let ?s = "s\<lparr>availableThreads := ns, clients_sockets := clients_sockets s @ [next_cti s],
        cti := (cti s)(next_cti s \<mapsto> \<lparr>thread_num = n, client_sock = sock\<rparr>),
        next_cti := next_cti s + 1, listening := (next_cti s, sock) # listening s\<rparr>"
      have "image_mset (number_of ?s) (mset (map fst (listening s))) = image_mset (number_of s) (mset (map fst (listening s)))"
        "image_mset (number_of ?s) (mset (terminatedThreads s)) = image_mset (number_of s) (mset (terminatedThreads s))"
        using fresh(1) by (auto intro!: image_mset_cong simp: number_of_def rev_image_eqI)
      moreover have "number_of ?s (next_cti s) = n" by (simp add: number_of_def)
      ultimately have "numbers ?s = numbers s" using Cons by (simp add: numbers_def)
      with Cons False show ?thesis by (simp add: accept_connection_def find_free_thread_def)
    qed
  qed
qed

lemma client_gone_numbers:
  assumes "pool_ok s" "t \<in> set (listening s)"
  shows "pool_ok (client_gone t s)" and "numbers (client_gone t s) = numbers s"
proof -
  obtain xs ys where l: "listening s = xs @ t # ys" "t \<notin> set xs"
    using split_list_first [OF assms(2)] by blast
  have r: "remove1 t (listening s) = xs @ ys" using l by (simp add: remove1_append)
  show "pool_ok (client_gone t s)"
    using assms(1) unfolding pool_ok_def client_gone_def by (simp add: r) (auto simp: l)
  have "number_of (client_gone t s) = number_of s" by (simp add: number_of_def [abs_def] client_gone_def)
  then show "numbers (client_gone t s) = numbers s"
    unfolding numbers_def by (simp add: client_gone_def r) (simp add: l client_gone_def)
qed

lemma join_begin_numbers:
  assumes "pool_ok s" "join_begin s = Some (Inr s')"
  shows "pool_ok s'" and "numbers s' = numbers s"
proof -
  obtain i ts info where t: "joining s = None" "terminatedThreads s = i # ts" "cti s i = Some info"
    and s': "s' = s\<lparr>terminatedThreads := ts, cti := (cti s)(i := None), joining := Some (i, thread_num info)\<rparr>"
    using assms(2) by (auto simp: join_begin_def split: option.splits list.splits)
  have d: "i \<notin> set (map fst (listening s))" "i \<notin> set ts" using assms(1) t(2) by (auto simp: pool_ok_def)
  show "pool_ok s'" using assms(1) t d by (auto simp: pool_ok_def s')
  have "image_mset (number_of s') (mset (map fst (listening s))) = image_mset (number_of s) (mset (map fst (listening s)))"
    "image_mset (number_of s') (mset ts) = image_mset (number_of s) (mset ts)"
    using d by (auto intro!: image_mset_cong simp: number_of_def s')
  moreover have "number_of s i = thread_num info" by (simp add: number_of_def t(3))
  ultimately show "numbers s' = numbers s" by (simp add: numbers_def s' t)
qed

lemma pool_step_invariant:
  assumes "pool_step s s'" "pool_ok s"
  shows "pool_ok s' \<and> numbers s' \<subseteq># numbers s \<and> (\<not> closeAllClients s \<longrightarrow> numbers s' = numbers s)"
  using assms(1)
proof (cases rule: pool_step.cases)
  case (accepting sock)
  with accept_connection_numbers [OF assms(2), of sock] show ?thesis by (auto intro: diff_subset_eq_self)
next
  case (going t)
  with client_gone_numbers [OF assms(2)] show ?thesis by simp
next
  case (closing t)
  then obtain cs where "s' = s\<lparr>clients_sockets := cs, leaving := remove1 t (leaving s)\<rparr>"
    by (auto simp: close_connected_client_def bind_r_eq_Inr)
  with assms(2) numbers_cong [of s' s] show ?thesis by (simp add: pool_ok_def)
next
  case joining
  with join_begin_numbers [OF assms(2)] show ?thesis by simp
next
  case joined
  then obtain i n where j: "joining s = Some (i, n)" "s' = s\<lparr>joining := None, availableThreads := availableThreads s @ [n]\<rparr>"
    by (auto simp: join_end_def split: option.splits if_splits)
  moreover have "number_of s' = number_of s" by (simp add: number_of_def [abs_def] j)
  ultimately show ?thesis using assms(2) by (simp add: pool_ok_def numbers_def)
next
  case shutting
  then have "s' = s\<lparr>clients_sockets := [], closeAllClients := True\<rparr>" by (auto simp: close_begin_def split: if_splits)
  with assms(2) numbers_cong [of s' s] show ?thesis by (simp add: pool_ok_def)
next
  case shut
  then have "s' = s\<lparr>exitServer := True\<rparr>" by (auto simp: close_end_def split: if_splits)
  with assms(2) numbers_cong [of s' s] show ?thesis by (simp add: pool_ok_def)
qed

lemma started_ok: "pool_ok started" "numbers started = mset [0..<THREADS]" "\<not> exitServer started"
  by (simp_all add: pool_ok_def started_def numbers_def)

lemma pool_steps_invariant:
  assumes "pool_steps s s'" "pool_ok s"
  shows "pool_ok s' \<and> numbers s' \<subseteq># numbers s"
  using assms(1)
proof (induction rule: rtranclp_induct)
  case (step s1 s2)
  with pool_step_invariant [OF step.hyps(2)] show ?case by (meson subset_mset.order_trans)
qed (simp add: assms(2))

lemma pool_step_open:
  assumes "pool_step s s'" "\<not> closeAllClients s'"
  shows "\<not> closeAllClients s"
  using assms(1)
proof (cases rule: pool_step.cases)
  case (closing t)
  with assms(2) show ?thesis by (auto simp: close_connected_client_def bind_r_eq_Inr)
qed (use assms(2) in \<open>auto simp: accept_connection_def find_free_thread_def client_gone_def join_begin_def
    join_end_def close_begin_def close_end_def split: option.splits list.splits if_splits prod.splits\<close>)

lemma pool_steps_numbers_open:
  assumes "pool_steps s s'" "pool_ok s" "\<not> closeAllClients s'"
  shows "numbers s' = numbers s"
  using assms(1,3)
proof (induction rule: rtranclp_induct)
  case (step s1 s2)
  then have "\<not> closeAllClients s1" using pool_step_open by blast
  with step pool_steps_invariant [OF step.hyps(1) assms(2)] pool_step_invariant [OF step.hyps(2)] show ?case by simp
qed simp

lemma pool_step_exit:
  assumes "pool_step s s'" "\<not> exitServer s" "exitServer s'"
  shows "THREADS \<le> length (availableThreads s)"
  using assms(1)
proof (cases rule: pool_step.cases)
  case (closing t)
  with assms(2,3) show ?thesis by (auto simp: close_connected_client_def bind_r_eq_Inr)
qed (use assms(2,3) in \<open>auto simp: accept_connection_def find_free_thread_def client_gone_def join_begin_def
    join_end_def close_begin_def close_end_def split: option.splits list.splits if_splits prod.splits\<close>)

lemma never_exits:
  assumes "pool_steps s s'" "pool_ok s" "size (numbers s) < THREADS" "\<not> exitServer s"
  shows "\<not> exitServer s'"
  using assms(1)
proof (induction rule: rtranclp_induct)
  case (step s1 s2)
  have "numbers s1 \<subseteq># numbers s" using pool_steps_invariant [OF step.hyps(1) assms(2)] by blast
  then have "size (numbers s1) < THREADS" using size_mset_mono assms(3) by fastforce
  moreover have "length (availableThreads s1) \<le> size (numbers s1)" by (simp add: numbers_def)
  ultimately show ?case using pool_step_exit [OF step.hyps(2) step.IH] by linarith
qed (simp add: assms(4))

text \<open>The pool with its first client.\<close>

definition one_client :: "nat \<Rightarrow> pool" where
  "one_client sock = started\<lparr>availableThreads := [1..<THREADS], clients_sockets := [0],
     cti := [0 \<mapsto> \<lparr>thread_num = 0, client_sock = sock\<rparr>], next_cti := 1, listening := [(0, sock)]\<rparr>"

lemma accept_started: "accept_connection sock started = one_client sock"
  by (simp add: accept_connection_def find_free_thread_def started_def one_client_def upt_conv_Cons [of 0 THREADS])

section \<open>Waiting for work\<close>

text \<open>
  \<open>if (llist_isEmpty(l)) { lock; cond_wait; unlock; if (exitServer) return; } llist_removefirst(l)\<close>.
  The test for an empty list is made without the mutex, so it is a step of its own; waiting gives
  the mutex up in the same step. \<open>at_head\<close>: the loop also tests \<open>exitServer\<close> at its head
  (\<open>kernel_communication\<close> does, \<open>join_threads\<close> does not).
\<close>

datatype place = Check | Locking | Waiting | Woken | Removing | Returned | Crashed

record waiter =
  items :: nat
  place :: place
  exit_flag :: bool
  told :: bool    \<comment> \<open>\<open>close_server\<close> has broadcast the condition\<close>

definition fresh_waiter :: waiter where
  "fresh_waiter = \<lparr>items = 0, place = Check, exit_flag = False, told = False\<rparr>"

definition wake :: "waiter \<Rightarrow> waiter" where
  "wake w = (if place w = Waiting then w\<lparr>place := Woken\<rparr> else w)"

definition insert_item :: "waiter \<Rightarrow> waiter" where
  "insert_item w = wake (w\<lparr>items := items w + 1\<rparr>)"

inductive wait_step :: "bool \<Rightarrow> bool \<Rightarrow> waiter \<Rightarrow> waiter \<Rightarrow> bool" for at_head spurious where
  leave: "at_head \<Longrightarrow> place w = Check \<Longrightarrow> exit_flag w \<Longrightarrow> wait_step at_head spurious w (w\<lparr>place := Returned\<rparr>)"
| see_empty: "place w = Check \<Longrightarrow> \<not> (at_head \<and> exit_flag w) \<Longrightarrow> items w = 0 \<Longrightarrow>
    wait_step at_head spurious w (w\<lparr>place := Locking\<rparr>)"
| see_item: "place w = Check \<Longrightarrow> \<not> (at_head \<and> exit_flag w) \<Longrightarrow> 0 < items w \<Longrightarrow>
    wait_step at_head spurious w (w\<lparr>place := Removing\<rparr>)"
| wait: "place w = Locking \<Longrightarrow> wait_step at_head spurious w (w\<lparr>place := Waiting\<rparr>)"
| spurious_wakeup: "spurious \<Longrightarrow> place w = Waiting \<Longrightarrow> wait_step at_head spurious w (w\<lparr>place := Woken\<rparr>)"
| woken_exit: "place w = Woken \<Longrightarrow> exit_flag w \<Longrightarrow> wait_step at_head spurious w (w\<lparr>place := Returned\<rparr>)"
| woken: "place w = Woken \<Longrightarrow> \<not> exit_flag w \<Longrightarrow> wait_step at_head spurious w (w\<lparr>place := Removing\<rparr>)"
| remove: "place w = Removing \<Longrightarrow> 0 < items w \<Longrightarrow>
    wait_step at_head spurious w (w\<lparr>items := items w - 1, place := Check\<rparr>)"
| remove_empty: "place w = Removing \<Longrightarrow> items w = 0 \<Longrightarrow> wait_step at_head spurious w (w\<lparr>place := Crashed\<rparr>)"
| insert: "wait_step at_head spurious w (insert_item w)"
| set_exit: "\<not> exit_flag w \<Longrightarrow> wait_step at_head spurious w (w\<lparr>exit_flag := True\<rparr>)"
| broadcast: "exit_flag w \<Longrightarrow> \<not> told w \<Longrightarrow> wait_step at_head spurious w ((wake w)\<lparr>told := True\<rparr>)"

text \<open>Without spurious wakeups an awake or removing thread has an item to remove.\<close>

definition waiter_ok :: "waiter \<Rightarrow> bool" where
  "waiter_ok w \<longleftrightarrow> (place w = Removing \<longrightarrow> 0 < items w) \<and> (place w = Woken \<longrightarrow> 0 < items w \<or> exit_flag w) \<and>
     place w \<noteq> Crashed"

lemma waiter_ok_step: "wait_step at_head False w w' \<Longrightarrow> waiter_ok w \<Longrightarrow> waiter_ok w'"
  by (induction rule: wait_step.induct) (auto simp: waiter_ok_def wake_def insert_item_def)

lemma waiter_ok_steps: "(wait_step at_head False)\<^sup>*\<^sup>* w w' \<Longrightarrow> waiter_ok w \<Longrightarrow> waiter_ok w'"
  by (induction rule: rtranclp_induct) (auto intro: waiter_ok_step)

section \<open>Properties of the threads\<close>

text \<open>
  C15. No thread number is ever in two places: in every state the server's threads can reach, the
  numbers that are free, in use by a listening thread, waiting to be joined or being joined are
  different numbers below \<open>THREADS\<close> (so no slot of \<open>clientThreads\<close> is overwritten while its
  thread runs, and at most ten clients are served), and as long as the server is not closing they
  are all of them.
\<close>

theorem thread_numbers_conserved:
  assumes "pool_steps started s"
  shows "numbers s \<subseteq># mset [0..<THREADS] \<and> length (listening s) \<le> THREADS \<and>
    (\<not> closeAllClients s \<longrightarrow> numbers s = mset [0..<THREADS])"
proof -
  have sub: "numbers s \<subseteq># mset [0..<THREADS]"
    using pool_steps_invariant [OF assms started_ok(1)] started_ok(2) by simp
  then have "size (numbers s) \<le> THREADS" using size_mset_mono by fastforce
  then have "length (listening s) \<le> THREADS" by (simp add: numbers_def)
  with sub pool_steps_numbers_open [OF assms started_ok(1)] started_ok(2) show ?thesis by simp
qed

theorem thread_numbers_conserved_witness:
  "numbers (client_gone (0, 5) (one_client 5)) = mset [0..<THREADS]"
proof -
  have "pool_steps started (client_gone (0, 5) (one_client 5))"
    using pool_step.accepting [of started 5] pool_step.going [of "(0, 5)" "one_client 5"]
    by (simp add: accept_started) (simp add: one_client_def)
  moreover have "\<not> closeAllClients (client_gone (0, 5) (one_client 5))"
    by (simp add: one_client_def client_gone_def started_def)
  ultimately show ?thesis using thread_numbers_conserved by blast
qed

text \<open>
  A client that leaves can make the server use freed memory: its thread first puts its number
  on \<open>terminatedThreads\<close>, and once \<open>join_threads\<close> has taken the number out (which frees the whole
  \<open>clientThreadInfo\<close>) the entry of the client in \<open>clients_sockets\<close> points into the freed block;
  \<open>close_connected_client\<close>, which still has to run, reads it. A client that connects and leaves
  is enough.
\<close>

theorem leaving_client_use_after_free:
  "\<exists>s. pool_steps started s \<and> (0, sock) \<in> set (leaving s) \<and>
    close_connected_client (0, sock) s = Inl UseAfterFree \<and> close_begin s = Inl UseAfterFree"
proof -
  let ?s1 = "one_client sock" and ?s2 = "client_gone (0, sock) (one_client sock)"
  let ?s3 = "?s2\<lparr>terminatedThreads := [], cti := (cti ?s2)(0 := None), joining := Some (0, 0)\<rparr>"
  have "pool_step started ?s1" using pool_step.accepting [of started sock] by (simp add: accept_started)
  moreover have "pool_step ?s1 ?s2" by (rule pool_step.going) (simp add: one_client_def)
  moreover have "pool_step ?s2 ?s3"
    by (rule pool_step.joining) (simp add: join_begin_def client_gone_def one_client_def started_def)
  ultimately have "pool_steps started ?s3" by (meson r_into_rtranclp rtranclp.rtrancl_into_rtrancl)
  moreover have "(0, sock) \<in> set (leaving ?s3)" "close_connected_client (0, sock) ?s3 = Inl UseAfterFree"
    "close_begin ?s3 = Inl UseAfterFree"
    by (simp_all add: client_gone_def one_client_def close_connected_client_def close_begin_def started_def)
  ultimately show ?thesis by blast
qed

text \<open>
  C37. A connection attempt while the server is closing hangs the shutdown: \<open>accept_connections\<close>
  takes a thread number for it and drops the number when it refuses the connection, so
  \<open>close_server\<close>, which waits for all ten numbers, never gets to set \<open>exitServer\<close>.
\<close>

theorem refused_connection_hangs_shutdown:
  assumes "pool_steps started s" "closeAllClients s" "availableThreads s \<noteq> []" "\<not> exitServer s"
    "pool_steps (accept_connection sock s) s'"
  shows "\<not> exitServer s'"
proof -
  have ok: "pool_ok s" "numbers s \<subseteq># mset [0..<THREADS]"
    using pool_steps_invariant [OF assms(1) started_ok(1)] started_ok(2) by simp_all
  have "size (numbers s) \<le> THREADS" using size_mset_mono [OF ok(2)] by simp
  moreover have "hd (availableThreads s) \<in># numbers s" using assms(3) by (simp add: numbers_def)
  ultimately have "size (numbers s - {#hd (availableThreads s)#}) < THREADS"
    by (metis less_le_trans size_Diff1_less)
  then have "size (numbers (accept_connection sock s)) < THREADS"
    using accept_connection_numbers(2) [OF ok(1), of sock] assms(2,3) by simp
  moreover have "\<not> exitServer (accept_connection sock s)"
    using assms(4) by (auto simp: accept_connection_def find_free_thread_def split: list.split)
  ultimately show ?thesis
    using never_exits [OF assms(5) accept_connection_numbers(1) [OF ok(1)]] by blast
qed

theorem refused_connection_hangs_shutdown_witness:
  "\<not> exitServer (accept_connection 5 (started\<lparr>closeAllClients := True\<rparr>))"
proof (rule refused_connection_hangs_shutdown [where s = "started\<lparr>closeAllClients := True\<rparr>" and sock = 5])
  have "close_begin started = Inr (started\<lparr>closeAllClients := True\<rparr>)"
    by (simp add: close_begin_def started_def)
  then show "pool_steps started (started\<lparr>closeAllClients := True\<rparr>)" by (meson r_into_rtranclp shutting)
qed (simp_all add: started_def)

text \<open>
  If \<open>pthread_cond_wait\<close> never returns spuriously, the waiting loops are safe: neither loop
  ever removes from an empty list, however insertions and the shutdown interleave with them.
\<close>

theorem waiting_loop_safe:
  assumes "(wait_step at_head False)\<^sup>*\<^sup>* fresh_waiter w"
  shows "place w \<noteq> Crashed \<and> (place w = Removing \<longrightarrow> 0 < items w)"
  using waiter_ok_steps [OF assms] by (simp add: waiter_ok_def fresh_waiter_def)

theorem waiting_loop_safe_witness:
  "place (fresh_waiter\<lparr>place := Locking\<rparr>) \<noteq> Crashed"
proof -
  have "wait_step True False fresh_waiter (fresh_waiter\<lparr>place := Locking\<rparr>)"
    by (rule wait_step.see_empty) (simp_all add: fresh_waiter_def)
  then have "(wait_step True False)\<^sup>*\<^sup>* fresh_waiter (fresh_waiter\<lparr>place := Locking\<rparr>)" by blast
  from waiting_loop_safe [OF this] show ?thesis by blast
qed

text \<open>
  The condition is tested with an \<open>if\<close>, not a \<open>while\<close>: a spurious wakeup, which POSIX
  allows, makes the loops remove from the empty list and dereference its null head.
\<close>

theorem spurious_wakeup_crashes:
  "\<exists>w. (wait_step at_head True)\<^sup>*\<^sup>* fresh_waiter w \<and> place w = Crashed"
proof -
  let ?w = "\<lambda>p. fresh_waiter\<lparr>place := p\<rparr>"
  have "wait_step at_head True fresh_waiter (?w Locking)"
    by (rule wait_step.see_empty) (simp_all add: fresh_waiter_def)
  moreover have "wait_step at_head True (?w Locking) (?w Waiting)"
    using wait_step.wait [of "?w Locking" at_head True] by simp
  moreover have "wait_step at_head True (?w Waiting) (?w Woken)"
    using wait_step.spurious_wakeup [of True "?w Waiting" at_head] by simp
  moreover have "wait_step at_head True (?w Woken) (?w Removing)"
    using wait_step.woken [of "?w Woken" at_head True] by (simp add: fresh_waiter_def)
  moreover have "wait_step at_head True (?w Removing) (?w Crashed)"
    using wait_step.remove_empty [of "?w Removing" at_head True] by (simp add: fresh_waiter_def)
  ultimately have "(wait_step at_head True)\<^sup>*\<^sup>* fresh_waiter (?w Crashed)"
    by (meson r_into_rtranclp rtranclp.rtrancl_into_rtrancl)
  then show ?thesis by (intro exI [of _ "?w Crashed"]) simp
qed

text \<open>
  Wakeups can be lost: an insertion and the shutdown's broadcast that fall between the
  unlocked test for an empty list and the wait leave the thread asleep with an item in the list
  and \<open>exitServer\<close> set, and nothing but another insertion will ever wake it.
\<close>

theorem lost_wakeup:
  "\<exists>w. (wait_step at_head False)\<^sup>*\<^sup>* fresh_waiter w \<and> 0 < items w \<and> exit_flag w \<and> place w = Waiting \<and>
    {w'. wait_step at_head False w w'} = {insert_item w}"
proof -
  let ?w = "\<lambda>n p e t. \<lparr>items = n, place = p, exit_flag = e, told = t\<rparr>"
  have "wait_step at_head False fresh_waiter (?w 0 Locking False False)"
    using wait_step.see_empty [of fresh_waiter at_head False] by (simp add: fresh_waiter_def)
  moreover have "wait_step at_head False (?w 0 Locking False False) (?w 1 Locking False False)"
    using wait_step.insert [of at_head False "?w 0 Locking False False"] by (simp add: insert_item_def wake_def)
  moreover have "wait_step at_head False (?w 1 Locking False False) (?w 1 Locking True False)"
    using wait_step.set_exit [of "?w 1 Locking False False" at_head False] by simp
  moreover have "wait_step at_head False (?w 1 Locking True False) (?w 1 Locking True True)"
    using wait_step.broadcast [of "?w 1 Locking True False" at_head False] by (simp add: wake_def)
  moreover have "wait_step at_head False (?w 1 Locking True True) (?w 1 Waiting True True)"
    using wait_step.wait [of "?w 1 Locking True True" at_head False] by simp
  ultimately have "(wait_step at_head False)\<^sup>*\<^sup>* fresh_waiter (?w 1 Waiting True True)"
    by (meson r_into_rtranclp rtranclp.rtrancl_into_rtrancl)
  moreover have "{w'. wait_step at_head False (?w 1 Waiting True True) w'} = {insert_item (?w 1 Waiting True True)}"
    by (auto elim: wait_step.cases intro: wait_step.insert)
  ultimately show ?thesis by (intro exI [of _ "?w 1 Waiting True True"]) simp
qed

end
