(* ===== verification/SeveralLists.thy ===== *)
theory SeveralLists
  imports LinkedList
begin

text \<open>
  Several lists in one heap: every operation on one of them leaves the others and the plain data blocks alone.
\<close>

section \<open>Disjoint lists\<close>

definition lists_at :: "('k \<Rightarrow> handle) \<Rightarrow> ('k \<Rightarrow> (nat \<times> ptr) list) \<Rightarrow> heap \<Rightarrow> bool" where
  "lists_at H xs h \<longleftrightarrow> heap_ok h \<and> (\<forall>k. dl False h (H k) (xs k)) \<and>
     (\<forall>j k. j \<noteq> k \<longrightarrow> blocks (H j) (xs j) \<inter> blocks (H k) (xs k) = {})"

lemma lists_atD: "lists_at H xs h \<Longrightarrow> heap_ok h" "lists_at H xs h \<Longrightarrow> dl False h (H k) (xs k)"
  by (simp_all add: lists_at_def)

text \<open>A block that was handed out and is no part of a list: plain bytes, or freed.\<close>

definition plain :: "heap \<Rightarrow> nat \<Rightarrow> bool" where
  "plain h a \<longleftrightarrow> a < brk h \<and> (cells h a = None \<or> (\<exists>c. cells h a = Some (CChunk c)))"

definition plain_same :: "heap \<Rightarrow> heap \<Rightarrow> bool" where
  "plain_same h h' \<longleftrightarrow> (\<forall>a. plain h a \<longrightarrow> cells h' a = cells h a)"

lemma plain_not_in_list: "lists_at H xs h \<Longrightarrow> plain h a \<Longrightarrow> a \<notin> blocks (H k) (xs k)"
  unfolding plain_def by (metis lists_atD(2) dl_alive chunk_not_in_blocks(1))

lemma plain_keep: "plain h a \<Longrightarrow> plain_same h h' \<Longrightarrow> brk h \<le> brk h' \<Longrightarrow> plain h' a"
  by (auto simp: plain_def plain_same_def)

text \<open>\<open>F\<close>: plain blocks and blocks not yet handed out that change together with the list \<open>k\<close>.\<close>

lemma lists_at_update:
  assumes "lists_at H xs h" "dl False h' (H k) ys" "heap_ok h'" "same_outside (F \<union> blocks (H k) (xs k)) h h'"
    "blocks (H k) ys \<subseteq> blocks (H k) (xs k) \<union> {a. brk h \<le> a}" "\<And>a. a \<in> F \<Longrightarrow> brk h \<le> a \<or> plain h a"
  shows "lists_at H (xs(k := ys)) h'"
proof -
  have low: "a < brk h" if "a \<in> blocks (H j) (xs j)" for a j
    using that assms(1) by (meson dl_below_brk lists_atD)
  have other: "F \<inter> blocks (H j) (xs j) = {}" for j
    using assms(6) low plain_not_in_list [OF assms(1)] by (metis disjoint_iff not_le)
  have "dl False h' (H j) (xs j)" if "j \<noteq> k" for j
  proof (rule dl_frame [OF lists_atD(2) [OF assms(1)]])
    fix a assume "a \<in> blocks (H j) (xs j)"
    with other [of j] that assms(1) have "a \<notin> F \<union> blocks (H k) (xs k)" unfolding lists_at_def by blast
    with assms(4) show "cells h' a = cells h a" by (rule same_outsideD)
  qed
  moreover have "blocks (H k) ys \<inter> blocks (H j) (xs j) = {}" if "j \<noteq> k" for j
    using that assms(1,5) low [of _ j] by (fastforce simp: lists_at_def)
  ultimately show ?thesis using assms(1-3) by (auto simp: lists_at_def Int_commute)
qed

lemma lists_at_frame:
  assumes "lists_at H xs h" "heap_ok h'" "same_outside F h h'" "\<And>a. a \<in> F \<Longrightarrow> brk h \<le> a \<or> plain h a"
  shows "lists_at H xs h'"
proof -
  have "cells h' a = cells h a" if "a \<in> blocks (H k) (xs k)" for a k
    using that assms(3,4) plain_not_in_list [OF assms(1), of a k] dl_below_brk [OF lists_atD(2) [OF assms(1)] lists_atD(1) [OF assms(1)]]
    unfolding same_outside_def by (meson not_less)
  with assms(1,2) show ?thesis unfolding lists_at_def by (blast intro: dl_frame)
qed

lemma plain_same_outside:
  assumes "lists_at H xs h" "same_outside (F \<union> blocks (H k) (xs k)) h h'" "plain h a" "a \<notin> F"
  shows "cells h' a = cells h a"
  using assms plain_not_in_list [OF assms(1,3)] by (auto simp: same_outside_def)

section \<open>The operations\<close>

lemma insert_last_at:
  assumes "lists_at H xs h" "0 < avail h"
  shows "\<exists>h'. llist_insertlast (list_ptr (H k)) d h = Inr h' \<and> lists_at H (xs(k := xs k @ [(brk h, d)])) h' \<and>
    brk h' = Suc (brk h) \<and> avail h' = avail h - 1 \<and> plain_same h h'"
proof -
  from llist_insertlast_dl [OF lists_atD(2) [OF assms(1)] lists_atD(1) [OF assms(1)] assms(2), of k d] obtain h' where
    h': "llist_insertlast (list_ptr (H k)) d h = Inr h'" "dl False h' (H k) (xs k @ [(brk h, d)])" "heap_ok h'"
      "brk h' = Suc (brk h)" "avail h' = avail h - 1" "same_outside ({brk h} \<union> blocks (H k) (xs k)) h h'" by auto
  have "lists_at H (xs(k := xs k @ [(brk h, d)])) h'"
    by (rule lists_at_update [OF assms(1) h'(2,3,6)]) (auto simp: blocks.simps cases_simp split: prod.splits)
  moreover have "plain_same h h'"
    using plain_same_outside [OF assms(1) h'(6)] by (auto simp: plain_same_def plain_def)
  ultimately show ?thesis using h' by blast
qed

lemma insert_first_at:
  assumes "lists_at H xs h" "0 < avail h"
  shows "\<exists>h'. llist_insertfirst (list_ptr (H k)) d h = Inr h' \<and> lists_at H (xs(k := (brk h, d) # xs k)) h' \<and>
    brk h' = Suc (brk h) \<and> avail h' = avail h - 1 \<and> plain_same h h'"
proof -
  from llist_insertfirst_dl [OF lists_atD(2) [OF assms(1)] lists_atD(1) [OF assms(1)] assms(2), of k d] obtain h' where
    h': "llist_insertfirst (list_ptr (H k)) d h = Inr h'" "dl False h' (H k) ((brk h, d) # xs k)" "heap_ok h'"
      "brk h' = Suc (brk h)" "avail h' = avail h - 1" "same_outside ({brk h} \<union> blocks (H k) (xs k)) h h'" by auto
  have "lists_at H (xs(k := (brk h, d) # xs k)) h'"
    by (rule lists_at_update [OF assms(1) h'(2,3,6)]) auto
  moreover have "plain_same h h'"
    using plain_same_outside [OF assms(1) h'(6)] by (auto simp: plain_same_def plain_def)
  ultimately show ?thesis using h' by blast
qed

lemma remove_first_INT_at:
  assumes "lists_at H xs h" "0 < avail h" "xs k = (a, Ptr da 0) # ys" "cells h da = Some (CChunk c)" "8 \<le> length c"
  shows "\<exists>h'. llist_removefirst_INT (list_ptr (H k)) h = Inr (Ptr (brk h) 0, h') \<and> lists_at H (xs(k := ys)) h' \<and>
    brk h' = Suc (brk h) \<and> avail h' = avail h - 1 \<and> cells h' (brk h) = Some (CChunk (take 8 c)) \<and> cells h' da = None \<and>
    (\<forall>b. plain h b \<longrightarrow> b \<noteq> da \<longrightarrow> cells h' b = cells h b)"
proof -
  have "dl False h (H k) ((a, Ptr da 0) # ys)" using lists_atD(2) [OF assms(1), of k] assms(3) by simp
  from llist_removefirst_INT_dl [OF this lists_atD(1) [OF assms(1)] assms(2,4,5)] obtain h' where
    h': "llist_removefirst_INT (list_ptr (H k)) h = Inr (Ptr (brk h) 0, h')" "dl False h' (H k) ys" "heap_ok h'"
      "brk h' = Suc (brk h)" "avail h' = avail h - 1" "cells h' (brk h) = Some (CChunk (take 8 c))" "cells h' da = None"
      "same_outside ({brk h, da} \<union> blocks (H k) (xs k)) h h'" using assms(3) by auto
  have da: "plain h da" using assms(4) lists_atD(1) [OF assms(1)] by (auto simp: plain_def heap_ok_def not_less [symmetric])
  have "lists_at H (xs(k := ys)) h'"
    by (rule lists_at_update [OF assms(1) h'(2,3,8)]) (use assms(3) da in auto)
  moreover have "cells h' b = cells h b" if "plain h b" "b \<noteq> da" for b
    by (rule plain_same_outside [OF assms(1) h'(8)]) (use that in \<open>auto simp: plain_def\<close>)
  ultimately show ?thesis using h' by blast
qed

lemma remove_first_at:
  assumes "lists_at H xs h" "xs k = (a, d) # ys" "read_mem d 4 h = Inr bs"
  shows "\<exists>h'. llist_removefirst (list_ptr (H k)) h = Inr (un_le32 bs, h') \<and> lists_at H (xs(k := ys)) h' \<and>
    brk h' = brk h \<and> avail h' = avail h \<and> cells h' a = None \<and> plain_same h h'"
proof -
  have "dl False h (H k) ((a, d) # ys)" using lists_atD(2) [OF assms(1), of k] assms(2) by simp
  from llist_removefirst_dl [OF this lists_atD(1) [OF assms(1)] assms(3)] obtain h' where
    h': "llist_removefirst (list_ptr (H k)) h = Inr (un_le32 bs, h')" "dl False h' (H k) ys" "heap_ok h'"
      "brk h' = brk h" "avail h' = avail h" "cells h' a = None" "same_outside ({} \<union> blocks (H k) (xs k)) h h'" using assms(2) by auto
  have "lists_at H (xs(k := ys)) h'"
    by (rule lists_at_update [OF assms(1) h'(2,3,7)]) (use assms(2) in auto)
  moreover have "plain_same h h'" using plain_same_outside [OF assms(1) h'(7)] by (auto simp: plain_same_def)
  ultimately show ?thesis using h' by blast
qed

lemma remove_at:
  assumes "lists_at H xs h" "xs k = ys @ (a, d) # zs"
  shows "\<exists>h'. llist_remove (list_ptr (H k)) (Ptr a 0) h = Inr (first_ptr zs Null, h') \<and> lists_at H (xs(k := ys @ zs)) h' \<and>
    brk h' = brk h \<and> avail h' = avail h \<and> cells h' a = None \<and> plain_same h h'"
proof -
  have "dl False h (H k) (ys @ (a, d) # zs)" using lists_atD(2) [OF assms(1), of k] assms(2) by simp
  from llist_remove_dl [OF this lists_atD(1) [OF assms(1)]] obtain h' where
    h': "llist_remove (list_ptr (H k)) (Ptr a 0) h = Inr (first_ptr zs Null, h')" "dl False h' (H k) (ys @ zs)" "heap_ok h'"
      "brk h' = brk h" "avail h' = avail h" "cells h' a = None" "same_outside ({} \<union> blocks (H k) (xs k)) h h'" using assms(2) by auto
  have "lists_at H (xs(k := ys @ zs)) h'"
    by (rule lists_at_update [OF assms(1) h'(2,3,7)]) (use assms(2) in auto)
  moreover have "plain_same h h'" using plain_same_outside [OF assms(1) h'(7)] by (auto simp: plain_same_def)
  ultimately show ?thesis using h' by blast
qed

section \<open>Plain blocks\<close>

lemma alloc_at:
  assumes "lists_at H xs h" "0 < avail h"
  shows "\<exists>h'. alloc (CChunk c) h = (Ptr (brk h) 0, h') \<and> lists_at H xs h' \<and> brk h' = Suc (brk h) \<and> avail h' = avail h - 1 \<and>
    cells h' (brk h) = Some (CChunk c) \<and> plain_same h h'"
proof -
  let ?h = "h\<lparr>cells := (cells h)(brk h \<mapsto> CChunk c), brk := Suc (brk h), avail := avail h - 1\<rparr>"
  have "lists_at H xs ?h"
    by (rule lists_at_frame [OF assms(1), where F = "{brk h}"])
      (use lists_atD(1) [OF assms(1)] in \<open>auto simp: heap_ok_def same_outside_def\<close>)
  with assms(2) show ?thesis by (auto simp: alloc_ok plain_same_def plain_def)
qed

lemma write_at:
  assumes "lists_at H xs h" "cells h a = Some (CChunk c)" "off + length b \<le> length c"
  shows "\<exists>h'. write_mem (Ptr a off) b h = Inr h' \<and> lists_at H xs h' \<and> brk h' = brk h \<and> avail h' = avail h \<and>
    cells h' = (cells h)(a \<mapsto> CChunk (take off c @ b @ drop (off + length b) c))"
proof -
  have a: "plain h a" using assms(1,2) by (auto simp: lists_at_def plain_def heap_ok_def not_less [symmetric])
  let ?h = "put a (CChunk (take off c @ b @ drop (off + length b) c)) h"
  have "lists_at H xs ?h"
    by (rule lists_at_frame [OF assms(1), where F = "{a}"])
      (use a lists_atD(1) [OF assms(1)] in \<open>auto simp: heap_ok_def same_outside_def plain_def\<close>)
  with assms(2,3) show ?thesis by auto
qed

lemma free_at:
  assumes "lists_at H xs h" "cells h a = Some (CChunk c)"
  shows "\<exists>h'. c_free (Ptr a 0) h = Inr h' \<and> lists_at H xs h' \<and> brk h' = brk h \<and> avail h' = avail h \<and>
    cells h' = (cells h)(a := None)"
proof -
  have a: "plain h a" using assms(1,2) by (auto simp: lists_at_def plain_def heap_ok_def not_less [symmetric])
  let ?h = "h\<lparr>cells := (cells h)(a := None)\<rparr>"
  have "lists_at H xs ?h"
    by (rule lists_at_frame [OF assms(1), where F = "{a}"])
      (use a lists_atD(1) [OF assms(1)] in \<open>auto simp: heap_ok_def same_outside_def\<close>)
  with assms(2) show ?thesis by auto
qed

lemma isEmpty_at: "lists_at H xs h \<Longrightarrow> llist_isEmpty (list_ptr (H k)) h = Inr (xs k = [])"
  by (rule llist_isEmpty_dl [OF lists_atD(2)])

lemma length_at: "lists_at H xs h \<Longrightarrow> list_length (list_ptr (H k)) h = Some (Inr (of_nat (length (xs k)), h))"
  by (rule list_length_dl [OF lists_atD(2)])

lemma inspect_at: "lists_at H xs h \<Longrightarrow> (a, d) \<in> set (xs k) \<Longrightarrow> llist_inspect (Ptr a 0) (list_ptr (H k)) h = Inr (d, h)"
  by (rule llist_inspect_dl [OF lists_atD(2)])

end
