(* ===== verification/PoolMemory.thy ===== *)
theory PoolMemory
  imports Threads SeveralLists ListProps
begin

text \<open>
  The thread pool of OU4/User/server.c in memory: the lists \<open>availableThreads\<close>, \<open>terminatedThreads\<close> and
  \<open>clients_sockets\<close> of list.c, the \<open>clientThreadInfo\<close> blocks whose two fields the last two point into, and the
  small blocks of \<open>accept_connections\<close> and \<open>join_threads\<close>. The steps are those of Threads, each with all its calls and carried out as a whole.
\<close>

section \<open>State\<close>

datatype server_list = Available | Terminated | Clients

text \<open>
  A listening thread is its argument \<open>cti\<close> with the local \<open>temp_socket\<close>; it is a leaver from \<open>llist_insertfirst\<close>
  to its end. The joiner is \<open>join_threads\<close> in \<open>pthread_join\<close>, with its \<open>thread_number\<close> and \<open>temp\<close>. A \<open>clientThreadInfo\<close>
  is a block of eight bytes, \<open>thread_num\<close> and then \<open>client_sock\<close>. \<open>clientThreads\<close> has the argument of the last
  thread created in each slot.
\<close>

record server_memory =
  mem :: heap
  clientThreads :: "u32 \<Rightarrow> ptr"
  listeners :: "(ptr \<times> u32) list"
  leavers :: "(ptr \<times> u32) list"
  joiner :: "(ptr \<times> ptr) option"
  closes :: bool
  exits :: bool

definition field :: "ptr \<Rightarrow> nat \<Rightarrow> ptr" where
  "field p n = (case p of Ptr a off \<Rightarrow> Ptr a (off + n) | p \<Rightarrow> p)"

section \<open>Operations\<close>

text \<open>The loop at the start of \<open>accept_connections\<close>; \<open>adj\<close> as in \<open>make_thread_number\<close>.\<close>

fun fill_available :: "(nat \<Rightarrow> u32) \<Rightarrow> ptr \<Rightarrow> nat list \<Rightarrow> heap \<Rightarrow> heap res" where
  "fill_available adj l [] h = Inr h"
| "fill_available adj l (j # js) h =
     bind_r (make_thread_number (adj j) (of_nat j) h) (\<lambda>(temp, h).
     bind_r (llist_insertlast l temp h) (fill_available adj l js))"

text \<open>\<open>None\<close>: the marker -5 for a full server.\<close>

definition free_thread :: "ptr \<Rightarrow> heap \<Rightarrow> (ptr option \<times> heap) res" where
  "free_thread l h =
     bind_r (llist_isEmpty l h) (\<lambda>full.
     if full then Inr (None, h)
     else bind_r (llist_removefirst_INT l h) (\<lambda>(n, h). Inr (Some n, h)))"

definition start_listener :: "(server_list \<Rightarrow> ptr) \<Rightarrow> ptr \<Rightarrow> ptr \<Rightarrow> server_memory \<Rightarrow> server_memory res" where
  "start_listener l sock_block thread_number c =
     (let (cti, h) = alloc (CChunk (replicate 8 0)) (mem c)
      in bind_r (read_mem sock_block 4 h) (\<lambda>sock.
         bind_r (write_mem (field cti 4) sock h) (\<lambda>h.
         bind_r (read_mem thread_number 4 h) (\<lambda>n.
         bind_r (write_mem cti n h) (\<lambda>h.
         bind_r (llist_insertlast (l Clients) (field cti 4) h) (\<lambda>h.
         bind_r (read_int (field cti 4) h) (\<lambda>temp_socket.
         Inr (c\<lparr>mem := h, clientThreads := (clientThreads c)(un_le32 n := cti),
           listeners := (cti, temp_socket) # listeners c\<rparr>))))))))"

definition accept_client :: "(server_list \<Rightarrow> ptr) \<Rightarrow> u32 \<Rightarrow> server_memory \<Rightarrow> server_memory res" where
  "accept_client l temp2 c =
     (let (sock_block, h) = alloc (CChunk (replicate 8 0)) (mem c)
      in bind_r (write_mem sock_block (le32 temp2) h) (\<lambda>h.
         bind_r (free_thread (l Available) h) (\<lambda>(thread_number, h).
         case thread_number of
           None \<Rightarrow> bind_r (c_free sock_block h) (\<lambda>h. Inr (c\<lparr>mem := h\<rparr>))
         | Some thread_number \<Rightarrow>
             bind_r (if \<not> closes c then start_listener l sock_block thread_number (c\<lparr>mem := h\<rparr>)
                     else Inr (c\<lparr>mem := h\<rparr>)) (\<lambda>c.
             bind_r (c_free thread_number (mem c)) (\<lambda>h.
             bind_r (c_free sock_block h) (\<lambda>h. Inr (c\<lparr>mem := h\<rparr>)))))))"

text \<open>\<open>&cti->thread_num\<close> is the address of the block.\<close>

definition leave_client :: "(server_list \<Rightarrow> ptr) \<Rightarrow> ptr \<times> u32 \<Rightarrow> server_memory \<Rightarrow> server_memory res" where
  "leave_client l t c =
     bind_r (llist_insertfirst (l Terminated) (fst t) (mem c)) (\<lambda>h.
     Inr (c\<lparr>mem := h, listeners := remove1 t (listeners c), leavers := t # leavers c\<rparr>))"

text \<open>The loop of \<open>close_connected_client\<close>; \<open>i\<close> and the length are compared as \<open>int\<close>.\<close>

partial_function (option) close_client_loop :: "ptr \<Rightarrow> u32 \<Rightarrow> ptr \<Rightarrow> u32 \<Rightarrow> heap \<Rightarrow> heap res option" where
  "close_client_loop l client p i h =
     (case list_length l h of
        None \<Rightarrow> None
      | Some (Inl e) \<Rightarrow> Some (Inl e)
      | Some (Inr (n, h)) \<Rightarrow>
          if \<not> sint i < sint n then Some (Inr h)
          else case bind_r (llist_inspect p l h) (\<lambda>(d, h). bind_r (read_int d h) (\<lambda>socket. Inr (socket, h))) of
            Inl e \<Rightarrow> Some (Inl e)
          | Inr (socket, h) \<Rightarrow>
              if client = socket then Some (bind_r (llist_remove l p h) (\<lambda>(q, h). Inr h))
              else (case llist_next p h of
                      Inl e \<Rightarrow> Some (Inl e)
                    | Inr p \<Rightarrow> close_client_loop l client p (i + 1) h))"

definition close_connected :: "ptr \<Rightarrow> u32 \<Rightarrow> heap \<Rightarrow> heap res option" where
  "close_connected l client h =
     (case llist_first l h of
        Inl e \<Rightarrow> Some (Inl e)
      | Inr p \<Rightarrow> close_client_loop l client p 0 h)"

definition close_client :: "(server_list \<Rightarrow> ptr) \<Rightarrow> ptr \<times> u32 \<Rightarrow> server_memory \<Rightarrow> server_memory res option" where
  "close_client l t c =
     map_option (\<lambda>r. bind_r r (\<lambda>h. Inr (c\<lparr>mem := h, leavers := remove1 t (leavers c)\<rparr>)))
       (close_connected (l Clients) (snd t) (mem c))"

definition join_first :: "(server_list \<Rightarrow> ptr) \<Rightarrow> server_memory \<Rightarrow> server_memory res option" where
  "join_first l c =
     (if joiner c \<noteq> None then None
      else case llist_isEmpty (l Terminated) (mem c) of
        Inl e \<Rightarrow> Some (Inl e)
      | Inr True \<Rightarrow> None
      | Inr False \<Rightarrow> Some
          (let (thread_number, h) = alloc (CChunk (replicate 8 0)) (mem c)
           in bind_r (llist_removefirst_INT (l Terminated) h) (\<lambda>(temp, h).
              bind_r (read_mem temp 8 h) (\<lambda>n.
              bind_r (write_mem thread_number n h) (\<lambda>h.
              Inr (c\<lparr>mem := h, joiner := Some (thread_number, temp)\<rparr>))))))"

definition join_return :: "(server_list \<Rightarrow> ptr) \<Rightarrow> server_memory \<Rightarrow> server_memory res option" where
  "join_return l c =
     (case joiner c of
        None \<Rightarrow> None
      | Some (thread_number, temp) \<Rightarrow>
          (case read_int temp (mem c) of
             Inl e \<Rightarrow> Some (Inl e)
           | Inr n \<Rightarrow>
               if clientThreads c n \<in> fst ` set (listeners c @ leavers c) then None
               else Some (bind_r (llist_insertlast (l Available) thread_number (mem c)) (\<lambda>h.
                 bind_r (c_free temp h) (\<lambda>h. Inr (c\<lparr>mem := h, joiner := None\<rparr>))))))"

text \<open>The loop of \<open>close_server\<close>, with the sockets to which QUIT is sent.\<close>

partial_function (option) close_all_loop :: "ptr \<Rightarrow> u32 list \<Rightarrow> heap \<Rightarrow> (u32 list \<times> heap) res option" where
  "close_all_loop l quits h =
     (case llist_isEmpty l h of
        Inl e \<Rightarrow> Some (Inl e)
      | Inr emp \<Rightarrow>
          if emp then Some (Inr (quits, h))
          else (case llist_removefirst l h of
                  Inl e \<Rightarrow> Some (Inl e)
                | Inr (temp_socket, h) \<Rightarrow> close_all_loop l (quits @ [temp_socket]) h))"

definition close_all :: "(server_list \<Rightarrow> ptr) \<Rightarrow> server_memory \<Rightarrow> server_memory res option" where
  "close_all l c =
     map_option (\<lambda>r. bind_r r (\<lambda>(quits, h). Inr (c\<lparr>mem := h, closes := True\<rparr>))) (close_all_loop (l Clients) [] (mem c))"

definition exit_all :: "(server_list \<Rightarrow> ptr) \<Rightarrow> server_memory \<Rightarrow> server_memory res option" where
  "exit_all l c =
     (if \<not> closes c then None
      else case list_length (l Available) (mem c) of
        None \<Rightarrow> None
      | Some (Inl e) \<Rightarrow> Some (Inl e)
      | Some (Inr (n, h)) \<Rightarrow> if sint n < int THREADS then None else Some (Inr (c\<lparr>mem := h, exits := True\<rparr>)))"

section \<open>Interleavings\<close>

text \<open>
  The threads in any order, one whole operation at a time: a round of \<open>accept_connections\<close>, the publishing of a number in
  \<open>client_listener\<close>, \<open>close_connected_client\<close>, the two halves of a round of \<open>join_threads\<close>, the loop of \<open>close_server\<close>
  and its end. In the program only the single operations of list.c are under a lock; what becomes of the two loops over
  \<open>clients_sockets\<close> when they are interrupted is in Broadcast and Leavers. \<open>accept\<close> gives descriptors that are not negative.
\<close>

inductive memory_step :: "(server_list \<Rightarrow> ptr) \<Rightarrow> server_memory \<Rightarrow> server_memory res \<Rightarrow> bool" for l where
  m_accept: "0 \<le> sint sock \<Longrightarrow> memory_step l c (accept_client l sock c)"
| m_leave: "t \<in> set (listeners c) \<Longrightarrow> memory_step l c (leave_client l t c)"
| m_close: "t \<in> set (leavers c) \<Longrightarrow> close_client l t c = Some r \<Longrightarrow> memory_step l c r"
| m_join: "join_first l c = Some r \<Longrightarrow> memory_step l c r"
| m_joined: "join_return l c = Some r \<Longrightarrow> memory_step l c r"
| m_shut: "close_all l c = Some r \<Longrightarrow> memory_step l c r"
| m_exit: "exit_all l c = Some r \<Longrightarrow> memory_step l c r"

inductive memory_run :: "(server_list \<Rightarrow> ptr) \<Rightarrow> server_memory \<Rightarrow> nat \<Rightarrow> server_memory \<Rightarrow> bool" for l c0 where
  m_start: "memory_run l c0 0 c0"
| m_then: "memory_run l c0 n c \<Longrightarrow> memory_step l c (Inr c') \<Longrightarrow> memory_run l c0 (Suc n) c'"

text \<open>The three lists as \<open>main\<close> makes them, and the numbers put into the first.\<close>

definition server_lists :: "(nat \<Rightarrow> u32) \<Rightarrow> heap \<Rightarrow> ((server_list \<Rightarrow> ptr) \<times> server_memory) res" where
  "server_lists adj h =
     bind_r (llist_empty h) (\<lambda>(clients, h).
     bind_r (llist_empty h) (\<lambda>(sender_list, h).
     bind_r (llist_empty h) (\<lambda>(available, h).
     bind_r (llist_empty h) (\<lambda>(terminated, h).
     bind_r (fill_available adj available [0..<THREADS] h) (\<lambda>h.
     Inr (case_server_list available terminated clients,
       \<lparr>mem = h, clientThreads = (\<lambda>_. Junk), listeners = [], leavers = [], joiner = None, closes = False, exits = False\<rparr>))))))"

end
