(* ===== verification/PoolRelation.thy ===== *)
theory PoolRelation
  imports PoolMemory
begin

text \<open>
  How a heap with the lists and blocks of the server represents a pool of Threads (\<open>pool_at\<close>), and the invariant
  \<open>pool_wf\<close> of the pool that the relation rests on.
\<close>

section \<open>What the heap holds for a pool\<close>

definition int_block :: "heap \<Rightarrow> nat \<Rightarrow> nat \<Rightarrow> bool" where
  "int_block h b n \<longleftrightarrow> (\<exists>c. cells h b = Some (CChunk c) \<and> 8 \<le> length c \<and> un_le32 c = of_nat n)"

definition info_block :: "heap \<Rightarrow> nat \<Rightarrow> clientThreadInfo \<Rightarrow> bool" where
  "info_block h b info \<longleftrightarrow> (\<exists>c. cells h b = Some (CChunk c) \<and> length c = 8 \<and>
     un_le32 c = of_nat (thread_num info) \<and> un_le32 (drop 4 c) = of_nat (client_sock info))"

text \<open>\<open>m\<close> gives the block of each \<open>clientThreadInfo\<close>, freed or not; \<open>jb\<close> are the two blocks of \<open>join_threads\<close>.\<close>

definition own_blocks :: "(nat \<Rightarrow> nat) \<Rightarrow> (nat \<times> nat) list \<Rightarrow> nat list \<Rightarrow> pool \<Rightarrow> nat list" where
  "own_blocks m ya jb s = map snd ya @ jb @ map m [0..<next_cti s]"

definition pool_blocks :: "heap \<Rightarrow> (nat \<Rightarrow> nat) \<Rightarrow> (nat \<times> nat) list \<Rightarrow> nat list \<Rightarrow> pool \<Rightarrow> bool" where
  "pool_blocks h m ya jb s \<longleftrightarrow> list_all2 (\<lambda>y n. int_block h (snd y) n) ya (availableThreads s) \<and>
     (\<forall>b \<in> set jb. \<exists>i n. joining s = Some (i, n) \<and> int_block h b n) \<and>
     (\<forall>i < next_cti s. case cti s i of None \<Rightarrow> cells h (m i) = None | Some info \<Rightarrow> info_block h (m i) info) \<and>
     distinct (own_blocks m ya jb s) \<and> (\<forall>b \<in> set (own_blocks m ya jb s). b < brk h)"

lemma all2_member: "list_all2 P xs ys \<Longrightarrow> x \<in> set xs \<Longrightarrow> \<exists>y. P x y"
  by (metis in_set_conv_nth list_all2_conv_all_nth)

lemma pool_blocks_plain:
  assumes "pool_blocks h m ya jb s" "b \<in> set (own_blocks m ya jb s)"
  shows "plain h b"
proof -
  have low: "b < brk h" using assms by (simp add: pool_blocks_def)
  from assms(2) consider y where "y \<in> set ya" "b = snd y" | "b \<in> set jb" | i where "i < next_cti s" "b = m i"
    by (auto simp: own_blocks_def)
  then have "cells h b = None \<or> (\<exists>c. cells h b = Some (CChunk c))"
  proof cases
    case (1 y)
    have "list_all2 (\<lambda>y n. int_block h (snd y) n) ya (availableThreads s)" using assms(1) by (simp add: pool_blocks_def)
    from all2_member [OF this 1(1)] obtain n where "int_block h (snd y) n" by blast
    with 1 show ?thesis by (auto simp: int_block_def)
  next
    case 2
    then show ?thesis using assms(1) by (auto simp: pool_blocks_def int_block_def)
  next
    case (3 i)
    have "case cti s i of None \<Rightarrow> cells h b = None | Some info \<Rightarrow> info_block h b info"
      using assms(1) 3(1) unfolding 3(2) pool_blocks_def by blast
    then show ?thesis by (auto simp: info_block_def split: option.splits)
  qed
  with low show ?thesis by (simp add: plain_def)
qed

lemma pool_blocks_frame:
  assumes "pool_blocks h m ya jb s" "\<And>b. b \<in> set (own_blocks m ya jb s) \<Longrightarrow> cells h' b = cells h b" "brk h \<le> brk h'"
  shows "pool_blocks h' m ya jb s"
proof -
  have int: "int_block h' b n" if "int_block h b n" "b \<in> set (own_blocks m ya jb s)" for b n
    using that assms(2) by (simp add: int_block_def)
  have "list_all2 (\<lambda>y n. int_block h' (snd y) n) ya (availableThreads s)"
    by (rule list.rel_mono_strong [of "\<lambda>y n. int_block h (snd y) n"])
      (use assms(1) int in \<open>auto simp: pool_blocks_def own_blocks_def\<close>)
  moreover have "\<exists>i n. joining s = Some (i, n) \<and> int_block h' b n" if "b \<in> set jb" for b
    using that assms(1) int [of b] by (fastforce simp: pool_blocks_def own_blocks_def)
  moreover have "case cti s i of None \<Rightarrow> cells h' (m i) = None | Some info \<Rightarrow> info_block h' (m i) info" if "i < next_cti s" for i
  proof -
    have "cells h' (m i) = cells h (m i)" using that by (intro assms(2)) (simp add: own_blocks_def)
    moreover have "case cti s i of None \<Rightarrow> cells h (m i) = None | Some info \<Rightarrow> info_block h (m i) info"
      using assms(1) that unfolding pool_blocks_def by blast
    ultimately show ?thesis by (auto simp: info_block_def split: option.splits)
  qed
  ultimately show ?thesis using assms(1,3) unfolding pool_blocks_def by fastforce
qed

lemma pool_blocks_same:
  "pool_blocks h m ya jb s \<Longrightarrow> plain_same h h' \<Longrightarrow> brk h \<le> brk h' \<Longrightarrow> pool_blocks h' m ya jb s"
  using pool_blocks_frame pool_blocks_plain unfolding plain_same_def by blast

lemma un_le32_parts [simp]:
  "un_le32 (take 4 c) = un_le32 c" "un_le32 (take 8 c) = un_le32 c"
  "length a = 4 \<Longrightarrow> un_le32 (a @ b) = un_le32 a"
  by (simp_all add: un_le32_def nth_append)

lemma read_int_block: "int_block h b n \<Longrightarrow> read_int (Ptr b 0) h = Inr (of_nat n)"
  by (auto simp: int_block_def read_int_def)

lemma read_sock_block: "info_block h b info \<Longrightarrow> read_int (Ptr b 4) h = Inr (of_nat (client_sock info))"
  by (auto simp: info_block_def read_int_def)

section \<open>The relation\<close>

text \<open>What holds of the pool alone.\<close>

definition pool_ids :: "pool \<Rightarrow> bool" where
  "pool_ids s \<longleftrightarrow> (\<forall>t \<in> set (listening s). fst t < next_cti s \<and> snd t < 2 ^ 31) \<and>
     (\<forall>t \<in> set (leaving s). fst t < next_cti s \<and> snd t < 2 ^ 31) \<and>
     (\<forall>i \<in> set (terminatedThreads s). i < next_cti s) \<and> (\<forall>i \<in> set (clients_sockets s). i < next_cti s) \<and>
     (\<forall>i n. joining s = Some (i, n) \<longrightarrow> i < next_cti s \<and> (\<forall>t \<in> set (listening s). fst t \<noteq> i)) \<and>
     (\<forall>i info. cti s i = Some info \<longrightarrow> client_sock info < 2 ^ 31) \<and> length (clients_sockets s) \<le> next_cti s"

definition pool_wf :: "pool \<Rightarrow> bool" where
  "pool_wf s \<longleftrightarrow> pool_ok s \<and> numbers s \<subseteq># mset [0..<THREADS] \<and> pool_ids s"

definition thread_at :: "(nat \<Rightarrow> nat) \<Rightarrow> nat \<times> nat \<Rightarrow> ptr \<times> u32" where
  "thread_at m t = (Ptr (m (fst t)) 0, of_nat (snd t))"

definition nodes_to :: "(nat \<times> nat) list \<Rightarrow> (nat \<times> ptr) list" where
  "nodes_to ya = map (\<lambda>(a, b). (a, Ptr b 0)) ya"

definition pool_lists :: "(nat \<Rightarrow> nat) \<Rightarrow> (nat \<times> nat) list \<Rightarrow> (server_list \<Rightarrow> (nat \<times> ptr) list) \<Rightarrow> pool \<Rightarrow> bool" where
  "pool_lists m ya xs s \<longleftrightarrow> xs Available = nodes_to ya \<and>
     map snd (xs Terminated) = map (\<lambda>i. Ptr (m i) 0) (terminatedThreads s) \<and>
     map snd (xs Clients) = map (\<lambda>i. Ptr (m i) 4) (clients_sockets s)"

fun joins_at :: "(nat \<Rightarrow> nat) \<Rightarrow> nat list \<Rightarrow> (nat \<times> nat) option \<Rightarrow> (ptr \<times> ptr) option \<Rightarrow> (u32 \<Rightarrow> ptr) \<Rightarrow> bool" where
  "joins_at m jb None j slots \<longleftrightarrow> j = None \<and> jb = []"
| "joins_at m jb (Some (i, n)) j slots \<longleftrightarrow>
     (\<exists>tn tp. jb = [tn, tp] \<and> j = Some (Ptr tn 0, Ptr tp 0) \<and> slots (of_nat n) = Ptr (m i) 0)"

definition pool_threads :: "(nat \<Rightarrow> nat) \<Rightarrow> nat list \<Rightarrow> pool \<Rightarrow> server_memory \<Rightarrow> bool" where
  "pool_threads m jb s c \<longleftrightarrow> listeners c = map (thread_at m) (listening s) \<and> leavers c = map (thread_at m) (leaving s) \<and>
     closes c = closeAllClients s \<and> exits c = exitServer s \<and>
     joins_at m jb (joining s) (joiner c) (clientThreads c) \<and>
     (\<forall>i \<in> set (map fst (listening s) @ terminatedThreads s). clientThreads c (of_nat (number_of s i)) = Ptr (m i) 0)"

definition pool_at :: "(server_list \<Rightarrow> handle) \<Rightarrow> pool \<Rightarrow> server_memory \<Rightarrow> bool" where
  "pool_at H s c \<longleftrightarrow> pool_wf s \<and> (\<exists>xs m ya jb. lists_at H xs (mem c) \<and> pool_lists m ya xs s \<and>
     pool_blocks (mem c) m ya jb s \<and> pool_threads m jb s c)"

abbreviation ptrs :: "(server_list \<Rightarrow> handle) \<Rightarrow> server_list \<Rightarrow> ptr" where
  "ptrs H \<equiv> \<lambda>k. list_ptr (H k)"

lemma pool_atI:
  "pool_wf s \<Longrightarrow> lists_at H xs (mem c) \<Longrightarrow> pool_lists m ya xs s \<Longrightarrow> pool_blocks (mem c) m ya jb s \<Longrightarrow> pool_threads m jb s c \<Longrightarrow>
   pool_at H s c"
  unfolding pool_at_def by blast

section \<open>The pool keeps its invariant\<close>

lemma pool_wf_step:
  assumes "pool_wf s" "pool_step s s'" "pool_ids s'"
  shows "pool_wf s'"
proof -
  have "pool_ok s'" "numbers s' \<subseteq># numbers s" using pool_step_invariant [OF assms(2)] assms(1) by (simp_all add: pool_wf_def)
  with assms show ?thesis unfolding pool_wf_def by (meson subset_mset.order_trans)
qed

lemma pool_wf_accept:
  assumes "pool_wf s" "sock < 2 ^ 31"
  shows "pool_wf (accept_connection sock s)"
proof (rule pool_wf_step [OF assms(1) pool_step.accepting])
  have "pool_ids s" using assms(1) by (simp add: pool_wf_def)
  with assms(2) show "pool_ids (accept_connection sock s)"
    unfolding pool_ids_def accept_connection_def find_free_thread_def by (auto simp: less_SucI split: list.splits)
qed

lemma pool_wf_gone:
  assumes "pool_wf s" "t \<in> set (listening s)"
  shows "pool_wf (client_gone t s)"
proof (rule pool_wf_step [OF assms(1) pool_step.going [OF assms(2)]])
  have "pool_ids s" using assms(1) by (simp add: pool_wf_def)
  moreover have "set (remove1 t (listening s)) \<subseteq> set (listening s)" by (rule set_remove1_subset)
  ultimately show "pool_ids (client_gone t s)" using assms(2) unfolding pool_ids_def client_gone_def by (simp add: subset_eq)
qed

lemma remove_client_subset: "remove_client c sock cs = Inr cs' \<Longrightarrow> set cs' \<subseteq> set cs \<and> length cs' \<le> length cs"
  by (induction cs arbitrary: cs') (fastforce simp: bind_r_eq_Inr split: option.splits if_splits)+

lemma pool_wf_close:
  assumes "pool_wf s" "t \<in> set (leaving s)" "close_connected_client t s = Inr s'"
  shows "pool_wf s'"
proof (rule pool_wf_step [OF assms(1) pool_step.closing [OF assms(2,3)]])
  from assms(3) obtain cs where cs: "remove_client (cti s) (snd t) (clients_sockets s) = Inr cs"
    "s' = s\<lparr>clients_sockets := cs, leaving := remove1 t (leaving s)\<rparr>"
    by (auto simp: close_connected_client_def bind_r_eq_Inr)
  have "pool_ids s" using assms(1) by (simp add: pool_wf_def)
  moreover have "set (remove1 t (leaving s)) \<subseteq> set (leaving s)" by (rule set_remove1_subset)
  ultimately show "pool_ids s'" using remove_client_subset [OF cs(1)]
    unfolding pool_ids_def cs(2) by (simp add: subset_eq)
qed

lemma pool_wf_join:
  assumes "pool_wf s" "join_begin s = Some (Inr s')"
  shows "pool_wf s'"
proof (rule pool_wf_step [OF assms(1) pool_step.joining [OF assms(2)]])
  from assms(2) obtain i ts info where t: "terminatedThreads s = i # ts"
    "cti s i = Some info" "s' = s\<lparr>terminatedThreads := ts, cti := (cti s)(i := None), joining := Some (i, thread_num info)\<rparr>"
    by (auto simp: join_begin_def split: option.splits list.splits)
  have "pool_ids s" "pool_ok s" using assms(1) by (simp_all add: pool_wf_def)
  then show "pool_ids s'" using t(1) unfolding pool_ids_def pool_ok_def t(3) by auto
qed

lemma pool_wf_joined:
  assumes "pool_wf s" "join_end s = Some s'"
  shows "pool_wf s'"
proof (rule pool_wf_step [OF assms(1) pool_step.joined [OF assms(2)]])
  from assms(2) obtain i n where "s' = s\<lparr>joining := None, availableThreads := availableThreads s @ [n]\<rparr>"
    by (auto simp: join_end_def split: option.splits if_splits)
  moreover have "pool_ids s" using assms(1) by (simp add: pool_wf_def)
  ultimately show "pool_ids s'" by (simp add: pool_ids_def)
qed

lemma pool_wf_shut:
  assumes "pool_wf s" "close_begin s = Inr s'"
  shows "pool_wf s'"
proof (rule pool_wf_step [OF assms(1) pool_step.shutting [OF assms(2)]])
  from assms(2) have "s' = s\<lparr>clients_sockets := [], closeAllClients := True\<rparr>" by (auto simp: close_begin_def split: if_splits)
  moreover have "pool_ids s" using assms(1) by (simp add: pool_wf_def)
  ultimately show "pool_ids s'" by (simp add: pool_ids_def)
qed

lemma pool_wf_exit:
  assumes "pool_wf s" "close_end s = Some s'"
  shows "pool_wf s'"
proof (rule pool_wf_step [OF assms(1) pool_step.shut [OF assms(2)]])
  from assms(2) have "s' = s\<lparr>exitServer := True\<rparr>" by (auto simp: close_end_def split: if_splits)
  moreover have "pool_ids s" using assms(1) by (simp add: pool_wf_def)
  ultimately show "pool_ids s'" by (simp add: pool_ids_def)
qed

text \<open>Numbers in two places are different, also as words.\<close>

lemma pool_wf_apart:
  assumes "pool_wf s" "n \<in> set (availableThreads s)"
    "k \<in># image_mset (number_of s) (mset (map fst (listening s) @ terminatedThreads s)) \<or> joining s = Some (i, k)"
  shows "(of_nat n :: u32) \<noteq> of_nat k"
proof -
  have sub: "numbers s \<subseteq># mset [0..<THREADS]" using assms(1) by (simp add: pool_wf_def)
  let ?r = "image_mset (number_of s) (mset (map fst (listening s) @ terminatedThreads s)) +
    (case joining s of None \<Rightarrow> {#} | Some (i, n) \<Rightarrow> {#n#})"
  have "k \<in># ?r" using assms(3) by auto
  then have "{#k#} \<subseteq># ?r" by simp
  moreover have "{#n#} \<subseteq># mset (availableThreads s)" using assms(2) by simp
  ultimately have "{#n#} + {#k#} \<subseteq># mset (availableThreads s) + ?r" by (rule subset_mset.add_mono [rotated])
  also have "\<dots> = numbers s" by (simp add: numbers_def add.assoc)
  finally have two: "{#n, k#} \<subseteq># mset [0..<THREADS]" using sub by (metis add_mset_add_single subset_mset.order_trans union_commute)
  then have "count {#n, k#} n \<le> count (mset [0..<THREADS]) n" by (rule mset_subset_eq_count)
  moreover have "count (mset [0..<THREADS]) n \<le> 1"
    using distinct_count_atmost_1 [of "[0..<THREADS]"] distinct_upt by (simp del: mset_upt)
  ultimately have "n \<noteq> k" by auto
  moreover have "n < THREADS" "k < THREADS" using set_mset_mono [OF two] by auto
  ultimately show ?thesis by (simp add: word_of_nat_eq_iff take_bit_nat_eq_self)
qed

end
