(* ===== verification/PoolSteps.thy ===== *)
theory PoolSteps
  imports PoolRelation
begin

text \<open>Each operation of PoolMemory does on the heap what the operation of Threads does on the pool.\<close>

section \<open>Accepting a client\<close>

lemma nodes_to_Cons [simp]: "nodes_to [] = []" "nodes_to ((a, b) # ya) = (a, Ptr b 0) # nodes_to ya"
  "nodes_to (ya @ yb) = nodes_to ya @ nodes_to yb"
  by (simp_all add: nodes_to_def)

lemma free_thread_none:
  "lists_at H xs h \<Longrightarrow> xs Available = [] \<Longrightarrow> free_thread (list_ptr (H Available)) h = Inr (None, h)"
  by (simp add: free_thread_def isEmpty_at)

lemma free_thread_at:
  assumes "lists_at H xs h" "xs Available = nodes_to ya" "pool_blocks h m ya jb s" "availableThreads s = n # ns" "0 < avail h"
  shows "\<exists>ya' h' c. free_thread (list_ptr (H Available)) h = Inr (Some (Ptr (brk h) 0), h') \<and>
    lists_at H (xs(Available := nodes_to ya')) h' \<and> pool_blocks h' m ya' jb (s\<lparr>availableThreads := ns\<rparr>) \<and>
    brk h' = Suc (brk h) \<and> avail h' = avail h - 1 \<and> set (own_blocks m ya' jb s) \<subseteq> set (own_blocks m ya jb s) \<and>
    cells h' (brk h) = Some (CChunk c) \<and> length c = 8 \<and> un_le32 c = of_nat n \<and>
    (\<forall>b. plain h b \<longrightarrow> b \<notin> set (own_blocks m ya jb s) \<longrightarrow> cells h' b = cells h b)"
proof -
  from assms(3,4) obtain a b ya' where ya: "ya = (a, b) # ya'" "int_block h b n"
    "list_all2 (\<lambda>y n. int_block h (snd y) n) ya' ns" by (auto simp: pool_blocks_def list_all2_Cons2)
  from ya(2) obtain c where c: "cells h b = Some (CChunk c)" "8 \<le> length c" "un_le32 c = of_nat n" by (auto simp: int_block_def)
  have "xs Available = (a, Ptr b 0) # nodes_to ya'" using assms(2) ya(1) by simp
  from remove_first_INT_at [OF assms(1,5) this c(1,2)] obtain h' where
    h': "llist_removefirst_INT (list_ptr (H Available)) h = Inr (Ptr (brk h) 0, h')" "lists_at H (xs(Available := nodes_to ya')) h'"
      "brk h' = Suc (brk h)" "avail h' = avail h - 1" "cells h' (brk h) = Some (CChunk (take 8 c))"
      "\<forall>x. plain h x \<longrightarrow> x \<noteq> b \<longrightarrow> cells h' x = cells h x" by blast
  have own: "own_blocks m ya jb s = b # own_blocks m ya' jb (s\<lparr>availableThreads := ns\<rparr>)" by (simp add: own_blocks_def ya(1))
  have "distinct (own_blocks m ya jb s)" using assms(3) by (simp add: pool_blocks_def)
  have "pool_blocks h m ya' jb (s\<lparr>availableThreads := ns\<rparr>)" using assms(3) ya own by (simp add: pool_blocks_def)
  then have "pool_blocks h' m ya' jb (s\<lparr>availableThreads := ns\<rparr>)"
  proof (rule pool_blocks_frame)
    fix x assume x: "x \<in> set (own_blocks m ya' jb (s\<lparr>availableThreads := ns\<rparr>))"
    then have "x \<noteq> b" using \<open>distinct (own_blocks m ya jb s)\<close> own by auto
    moreover have "plain h x" using pool_blocks_plain [OF assms(3), of x] x own by simp
    ultimately show "cells h' x = cells h x" using h'(6) by blast
  qed (use h'(3) in simp)
  moreover have "free_thread (list_ptr (H Available)) h = Inr (Some (Ptr (brk h) 0), h')"
    using h'(1) isEmpty_at [OF assms(1), of Available] assms(2) ya(1) by (simp add: free_thread_def)
  moreover have "\<forall>x. plain h x \<longrightarrow> x \<notin> set (own_blocks m ya jb s) \<longrightarrow> cells h' x = cells h x" using h'(6) own by simp
  moreover have "set (own_blocks m ya' jb s) \<subseteq> set (own_blocks m ya jb s)" by (auto simp: own_blocks_def ya(1))
  ultimately show ?thesis using h'(2-5) c(2,3) by (intro exI [of _ ya'] exI [of _ h'] exI [of _ "take 8 c"]) simp
qed

lemma start_listener_at:
  assumes "lists_at H xs (mem c)" "2 \<le> avail (mem c)" "cells (mem c) sb = Some (CChunk sc)" "length sc = 8" "un_le32 sc = sock"
    "cells (mem c) tb = Some (CChunk tc)" "length tc = 8"
  shows "\<exists>h'. start_listener (ptrs H) (Ptr sb 0) (Ptr tb 0) c = Inr (c\<lparr>mem := h',
      clientThreads := (clientThreads c)(un_le32 tc := Ptr (brk (mem c)) 0), listeners := (Ptr (brk (mem c)) 0, sock) # listeners c\<rparr>) \<and>
    lists_at H (xs(Clients := xs Clients @ [(Suc (brk (mem c)), Ptr (brk (mem c)) 4)])) h' \<and> brk h' = brk (mem c) + 2 \<and>
    avail h' = avail (mem c) - 2 \<and> (\<exists>b. cells h' (brk (mem c)) = Some (CChunk b) \<and> length b = 8 \<and> un_le32 b = un_le32 tc \<and>
      un_le32 (drop 4 b) = sock) \<and> plain_same (mem c) h'"
proof -
  let ?b = "brk (mem c)"
  from alloc_at [OF assms(1), of "replicate 8 0"] assms(2) obtain h1 where
    h1: "alloc (CChunk (replicate 8 0)) (mem c) = (Ptr ?b 0, h1)" "lists_at H xs h1" "brk h1 = Suc ?b"
      "avail h1 = avail (mem c) - 1" "cells h1 ?b = Some (CChunk (replicate 8 0))" "plain_same (mem c) h1" by auto
  have pl: "plain (mem c) sb" "plain (mem c) tb"
    using assms(1,3,6) by (auto simp: plain_def lists_at_def heap_ok_def not_less [symmetric])
  have ne: "sb \<noteq> ?b" "tb \<noteq> ?b" using pl by (auto simp: plain_def)
  have sb1: "cells h1 sb = Some (CChunk sc)" "cells h1 tb = Some (CChunk tc)" using pl h1(6) assms(3,6) by (auto simp: plain_same_def)
  from write_at [OF h1(2,5), of 4 "take 4 sc"] assms(4) obtain h2 where
    h2: "write_mem (Ptr ?b 4) (take 4 sc) h1 = Inr h2" "lists_at H xs h2" "brk h2 = Suc ?b" "avail h2 = avail (mem c) - 1"
      "cells h2 = (cells h1)(?b \<mapsto> CChunk (replicate 4 0 @ take 4 sc))" using h1(3,4) by auto
  have "cells h2 ?b = Some (CChunk (replicate 4 0 @ take 4 sc))" using h2(5) by simp
  from write_at [OF h2(2) this, of 0 "take 4 tc"] assms(4,7) obtain h3 where
    h3: "write_mem (Ptr ?b 0) (take 4 tc) h2 = Inr h3" "lists_at H xs h3" "brk h3 = Suc ?b" "avail h3 = avail (mem c) - 1"
      "cells h3 = (cells h2)(?b \<mapsto> CChunk (take 4 tc @ take 4 sc))" using h2(3,4) by auto
  from insert_last_at [OF h3(2), of Clients "Ptr ?b 4"] h3(3,4) assms(2) obtain h4 where
    h4: "llist_insertlast (list_ptr (H Clients)) (Ptr ?b 4) h3 = Inr h4"
      "lists_at H (xs(Clients := xs Clients @ [(Suc ?b, Ptr ?b 4)])) h4" "brk h4 = ?b + 2" "avail h4 = avail (mem c) - 2"
      "plain_same h3 h4" by auto
  have "plain h3 ?b" using h3(3,5) by (simp add: plain_def)
  with h4(5) have b4: "cells h4 ?b = Some (CChunk (take 4 tc @ take 4 sc))" using h3(5) by (simp add: plain_same_def)
  have "plain_same (mem c) h4"
    unfolding plain_same_def
  proof (intro allI impI)
    fix a assume a: "plain (mem c) a"
    then have "a \<noteq> ?b" by (auto simp: plain_def)
    with a h1(6) h3(5) h2(5) have "cells h3 a = cells (mem c) a" by (simp add: plain_same_def)
    with a h4(5) h3(3) show "cells h4 a = cells (mem c) a" by (auto simp: plain_same_def plain_def)
  qed
  moreover have "start_listener (ptrs H) (Ptr sb 0) (Ptr tb 0) c = Inr (c\<lparr>mem := h4,
      clientThreads := (clientThreads c)(un_le32 tc := Ptr ?b 0), listeners := (Ptr ?b 0, sock) # listeners c\<rparr>)"
    using h1(1) sb1 h2(1,5) h3(1) h4(1) b4 assms(4,5,7) ne by (simp add: start_listener_def field_def read_int_def)
  ultimately show ?thesis using h4(2-4) b4 assms(4,5,7) by auto
qed

lemma pool_blocks_new:
  assumes "pool_blocks h m ya jb s" "b \<notin> set (own_blocks m ya jb s)" "b < brk h" "info_block h b info"
    "availableThreads s' = availableThreads s" "joining s' = joining s" "next_cti s' = next_cti s + 1"
    "cti s' = (cti s)(next_cti s \<mapsto> info)"
  shows "pool_blocks h (m(next_cti s := b)) ya jb s'"
proof -
  have "map (m(next_cti s := b)) [0..<next_cti s] = map m [0..<next_cti s]" by simp
  then have own: "own_blocks (m(next_cti s := b)) ya jb s' = own_blocks m ya jb s @ [b]" using assms(7) by (simp add: own_blocks_def)
  have "case cti s' i of None \<Rightarrow> cells h ((m(next_cti s := b)) i) = None | Some info \<Rightarrow> info_block h ((m(next_cti s := b)) i) info"
    if "i < next_cti s'" for i
  proof (cases "i = next_cti s")
    case True
    with assms(4,8) show ?thesis by simp
  next
    case False
    with that assms(7) have "i < next_cti s" by simp
    with assms(1) have "case cti s i of None \<Rightarrow> cells h (m i) = None | Some info \<Rightarrow> info_block h (m i) info"
      unfolding pool_blocks_def by blast
    with False assms(8) show ?thesis by (simp split: option.splits)
  qed
  with assms own show ?thesis unfolding pool_blocks_def by auto
qed

lemma map_thread_at_new: "\<forall>t \<in> set ts. fst t < n \<Longrightarrow> map (thread_at (m(n := b))) ts = map (thread_at m) ts"
  by (auto simp: thread_at_def)

lemma map_ids_new: "\<forall>i \<in> set is. i < (n :: nat) \<Longrightarrow> map (\<lambda>i. Ptr ((m(n := b)) i) off) is = map (\<lambda>i. Ptr (m i) off) is"
  by auto

text \<open>A block that belongs to no list is freed; nothing of the pool changes.\<close>

lemma free_other:
  assumes "lists_at H xs h" "pool_blocks h m ya jb s" "cells h a = Some (CChunk c)" "a \<notin> set (own_blocks m ya jb s)"
  shows "\<exists>h'. c_free (Ptr a 0) h = Inr h' \<and> lists_at H xs h' \<and> pool_blocks h' m ya jb s \<and> avail h' = avail h \<and>
    cells h' = (cells h)(a := None)"
proof -
  from free_at [OF assms(1,3)] obtain h' where h': "c_free (Ptr a 0) h = Inr h'" "lists_at H xs h'" "brk h' = brk h"
    "avail h' = avail h" "cells h' = (cells h)(a := None)" by blast
  have "pool_blocks h' m ya jb s"
    by (rule pool_blocks_frame [OF assms(2)]) (use h' assms(4) in auto)
  with h' show ?thesis by blast
qed

lemma pool_threads_cong:
  assumes "pool_threads m jb s c" "listening s' = listening s" "leaving s' = leaving s" "terminatedThreads s' = terminatedThreads s"
    "closeAllClients s' = closeAllClients s" "exitServer s' = exitServer s" "joining s' = joining s" "cti s' = cti s"
    "listeners c' = listeners c" "leavers c' = leavers c" "closes c' = closes c" "exits c' = exits c" "joiner c' = joiner c"
    "clientThreads c' = clientThreads c"
  shows "pool_threads m jb s' c'"
proof -
  have "number_of s' = number_of s" by (simp add: number_of_def [abs_def] assms(8))
  with assms(1) show ?thesis unfolding pool_threads_def assms(2-) by simp
qed

lemma accept_client_at:
  assumes "pool_at H s c" "0 \<le> sint sock" "4 \<le> avail (mem c)"
  shows "\<exists>c'. accept_client (ptrs H) sock c = Inr c' \<and> pool_at H (accept_connection (unat sock) s) c' \<and>
    avail (mem c) \<le> avail (mem c') + 4"
proof -
  from assms(1) obtain xs m ya jb where wf: "pool_wf s" and at: "lists_at H xs (mem c)" "pool_lists m ya xs s"
    "pool_blocks (mem c) m ya jb s" "pool_threads m jb s c" by (auto simp: pool_at_def)
  let ?b = "brk (mem c)" and ?own = "set (own_blocks m ya jb s)"
  have wf': "pool_wf (accept_connection (unat sock) s)" by (rule pool_wf_accept [OF wf unat_small [OF assms(2)]])
  have low: "a < ?b" if "a \<in> ?own" for a using at(3) that by (simp add: pool_blocks_def)
  from alloc_at [OF at(1), of "replicate 8 0"] assms(3) obtain h1 where
    h1: "alloc (CChunk (replicate 8 0)) (mem c) = (Ptr ?b 0, h1)" "lists_at H xs h1" "brk h1 = Suc ?b"
      "avail h1 = avail (mem c) - 1" "cells h1 ?b = Some (CChunk (replicate 8 0))" "plain_same (mem c) h1" by auto
  from write_at [OF h1(2,5), of 0 "le32 sock"] obtain h2 where
    h2: "write_mem (Ptr ?b 0) (le32 sock) h1 = Inr h2" "lists_at H xs h2" "brk h2 = Suc ?b" "avail h2 = avail (mem c) - 1"
      "cells h2 = (cells h1)(?b \<mapsto> CChunk (le32 sock @ replicate 4 0))" using h1(3,4) by auto
  have b2: "cells h2 ?b = Some (CChunk (le32 sock @ replicate 4 0))" using h2(5) by simp
  have pb2: "pool_blocks h2 m ya jb s"
  proof (rule pool_blocks_frame [OF at(3)])
    fix a assume a: "a \<in> ?own"
    with low [OF a] pool_blocks_plain [OF at(3) a] h1(6) h2(5) show "cells h2 a = cells (mem c) a" by (simp add: plain_same_def)
  qed (use h2(3) in simp)
  have start: "accept_client (ptrs H) sock c = bind_r (free_thread (ptrs H Available) h2) (\<lambda>(thread_number, h).
      case thread_number of
        None \<Rightarrow> bind_r (c_free (Ptr ?b 0) h) (\<lambda>h. Inr (c\<lparr>mem := h\<rparr>))
      | Some thread_number \<Rightarrow>
          bind_r (if \<not> closes c then start_listener (ptrs H) (Ptr ?b 0) thread_number (c\<lparr>mem := h\<rparr>) else Inr (c\<lparr>mem := h\<rparr>)) (\<lambda>c.
          bind_r (c_free thread_number (mem c)) (\<lambda>h.
          bind_r (c_free (Ptr ?b 0) h) (\<lambda>h. Inr (c\<lparr>mem := h\<rparr>)))))"
    using h1(1) h2(1) by (simp add: accept_client_def)
  have xa: "xs Available = nodes_to ya" using at(2) by (simp add: pool_lists_def)
  show ?thesis
  proof (cases "availableThreads s")
    case Nil
    then have "ya = []" using at(3) by (simp add: pool_blocks_def)
    then have "free_thread (ptrs H Available) h2 = Inr (None, h2)" using free_thread_none [OF h2(2)] xa by simp
    moreover from free_other [OF h2(2) pb2 b2] low obtain h3 where "c_free (Ptr ?b 0) h2 = Inr h3" "lists_at H xs h3"
      "pool_blocks h3 m ya jb s" "avail h3 = avail h2" by blast
    moreover have "accept_connection (unat sock) s = s" using Nil by (simp add: accept_connection_def find_free_thread_def)
    moreover have "pool_threads m jb s (c\<lparr>mem := h3\<rparr>)" for h3 by (rule pool_threads_cong [OF at(4)]) simp_all
    ultimately show ?thesis using start wf' at(2) h2(4) assms(3) by (auto intro!: pool_atI)
  next
    case (Cons n ns)
    from free_thread_at [where xs = xs, OF h2(2) xa pb2 Cons] h2(4) assms(3) obtain ya' h3 tc where
      h3: "free_thread (ptrs H Available) h2 = Inr (Some (Ptr (Suc ?b) 0), h3)" "lists_at H (xs(Available := nodes_to ya')) h3"
        "pool_blocks h3 m ya' jb (s\<lparr>availableThreads := ns\<rparr>)" "brk h3 = Suc (Suc ?b)" "avail h3 = avail (mem c) - 2"
        "set (own_blocks m ya' jb s) \<subseteq> ?own" "cells h3 (Suc ?b) = Some (CChunk tc)" "length tc = 8" "un_le32 tc = of_nat n"
        "\<forall>b. plain h2 b \<longrightarrow> b \<notin> ?own \<longrightarrow> cells h3 b = cells h2 b"
      unfolding h2(3) by auto
    have b3: "cells h3 ?b = Some (CChunk (le32 sock @ replicate 4 0))"
      using h3(10) b2 low [of ?b] h2(3) by (auto simp: plain_def)
    have own': "own_blocks m ya' jb (s\<lparr>availableThreads := ns\<rparr>) = own_blocks m ya' jb s" by (simp add: own_blocks_def)
    have fresh: "?b \<notin> set (own_blocks m ya' jb s)" "Suc ?b \<notin> set (own_blocks m ya' jb s)" "Suc (Suc ?b) \<notin> set (own_blocks m ya' jb s)"
      using low h3(6) by (meson Suc_lessD less_irrefl subsetD)+
    show ?thesis
    proof (cases "closes c")
      case True
      from free_other [OF h3(2,3,7)] own' fresh obtain h4 where h4: "c_free (Ptr (Suc ?b) 0) h3 = Inr h4"
        "lists_at H (xs(Available := nodes_to ya')) h4" "pool_blocks h4 m ya' jb (s\<lparr>availableThreads := ns\<rparr>)" "avail h4 = avail h3"
        "cells h4 = (cells h3)(Suc ?b := None)" by auto
      have "cells h4 ?b = Some (CChunk (le32 sock @ replicate 4 0))" using h4(5) b3 by simp
      from free_other [OF h4(2,3) this] own' fresh obtain h5 where h5: "c_free (Ptr ?b 0) h4 = Inr h5"
        "lists_at H (xs(Available := nodes_to ya')) h5" "pool_blocks h5 m ya' jb (s\<lparr>availableThreads := ns\<rparr>)" "avail h5 = avail h3"
        using h4(4) by auto
      have cl: "closeAllClients s" using True at(4) by (simp add: pool_threads_def)
      then have s': "accept_connection (unat sock) s = s\<lparr>availableThreads := ns\<rparr>"
        using Cons by (simp add: accept_connection_def find_free_thread_def)
      have "pool_lists m ya' (xs(Available := nodes_to ya')) (s\<lparr>availableThreads := ns\<rparr>)" using at(2) by (simp add: pool_lists_def)
      moreover have "pool_threads m jb (s\<lparr>availableThreads := ns\<rparr>) (c\<lparr>mem := h5\<rparr>)"
        by (rule pool_threads_cong [OF at(4)]) simp_all
      ultimately have "pool_at H (s\<lparr>availableThreads := ns\<rparr>) (c\<lparr>mem := h5\<rparr>)"
        using h5(2,3) wf' unfolding s' by (intro pool_atI) auto
      then show ?thesis using start h3(1,5) h4(1) h5(1,4) True s' assms(3) by (intro exI [of _ "c\<lparr>mem := h5\<rparr>"]) simp
    next
      case False
      let ?d = "Suc (Suc ?b)" and ?i = "next_cti s"
      let ?s = "accept_connection (unat sock) s"
      have "2 \<le> avail h3" using h3(5) assms(3) by simp
      with start_listener_at [where c = "c\<lparr>mem := h3\<rparr>" and sb = ?b and tb = "Suc ?b", simplified, OF h3(2) _ b3 _ _ h3(7,8)]
      obtain h4 ib where h4: "start_listener (ptrs H) (Ptr ?b 0) (Ptr (Suc ?b) 0) (c\<lparr>mem := h3\<rparr>) = Inr (c\<lparr>mem := h4,
          clientThreads := (clientThreads c)(of_nat n := Ptr ?d 0), listeners := (Ptr ?d 0, sock) # listeners c\<rparr>)"
        "lists_at H (xs(Available := nodes_to ya', Clients := xs Clients @ [(Suc ?d, Ptr ?d 4)])) h4" "brk h4 = ?d + 2"
        "avail h4 = avail h3 - 2" "cells h4 ?d = Some (CChunk ib)" "length ib = 8" "un_le32 ib = of_nat n" "un_le32 (drop 4 ib) = sock"
        "plain_same h3 h4" unfolding h3(4,9) by auto
      let ?xs = "xs(Available := nodes_to ya', Clients := xs Clients @ [(Suc ?d, Ptr ?d 4)])"
      have s': "?s = s\<lparr>availableThreads := ns, clients_sockets := clients_sockets s @ [?i],
          cti := (cti s)(?i \<mapsto> \<lparr>thread_num = n, client_sock = unat sock\<rparr>), next_cti := ?i + 1, listening := (?i, unat sock) # listening s\<rparr>"
        using Cons False at(4) by (simp add: accept_connection_def find_free_thread_def pool_threads_def)
      have keep: "cells h4 a = cells h3 a" if "plain h3 a" for a using that h4(9) by (simp add: plain_same_def)
      have c4: "cells h4 (Suc ?b) = Some (CChunk tc)" "cells h4 ?b = Some (CChunk (le32 sock @ replicate 4 0))"
        using keep [of "Suc ?b"] keep [of ?b] h3(4,7) b3 by (simp_all add: plain_def)
      have "pool_blocks h4 m ya' jb (s\<lparr>availableThreads := ns\<rparr>)" using pool_blocks_same [OF h3(3) h4(9)] h3(4) h4(3) by simp
      then have pb4: "pool_blocks h4 (m(?i := ?d)) ya' jb ?s"
        using pool_blocks_new [of h4 m ya' jb "s\<lparr>availableThreads := ns\<rparr>" ?d "\<lparr>thread_num = n, client_sock = unat sock\<rparr>" ?s]
          fresh(3) h4(3,5-8) by (simp add: s' own' info_block_def)
      have out: "?b \<notin> set (own_blocks (m(?i := ?d)) ya' jb ?s)" "Suc ?b \<notin> set (own_blocks (m(?i := ?d)) ya' jb ?s)"
        using fresh by (auto simp: own_blocks_def s')
      from free_other [OF h4(2) pb4 c4(1) out(2)] obtain h5 where h5: "c_free (Ptr (Suc ?b) 0) h4 = Inr h5" "lists_at H ?xs h5"
        "pool_blocks h5 (m(?i := ?d)) ya' jb ?s" "avail h5 = avail h4" "cells h5 = (cells h4)(Suc ?b := None)" by blast
      have "cells h5 ?b = Some (CChunk (le32 sock @ replicate 4 0))" using h5(5) c4(2) by simp
      from free_other [OF h5(2,3) this out(1)] obtain h6 where h6: "c_free (Ptr ?b 0) h5 = Inr h6" "lists_at H ?xs h6"
        "pool_blocks h6 (m(?i := ?d)) ya' jb ?s" "avail h6 = avail h5" by blast
      let ?c = "c\<lparr>mem := h6, clientThreads := (clientThreads c)(of_nat n := Ptr ?d 0), listeners := (Ptr ?d 0, sock) # listeners c\<rparr>"
      have ids: "pool_ids s" using wf by (simp add: pool_wf_def)
      then have new: "?i \<notin> set (terminatedThreads s)" "?i \<notin> set (clients_sockets s)" "?i \<notin> fst ` set (listening s)"
        "\<forall>t \<in> set (listening s). fst t < ?i" "\<forall>t \<in> set (leaving s). fst t < ?i" by (auto simp: pool_ids_def)
      have "pool_lists (m(?i := ?d)) ya' ?xs ?s" using at(2) new(1,2) by (simp add: pool_lists_def s')
      moreover have "pool_threads (m(?i := ?d)) jb ?s ?c"
      proof -
        have n: "n \<in> set (availableThreads s)" using Cons by simp
        have "clientThreads ?c (of_nat (number_of ?s j)) = Ptr ((m(?i := ?d)) j) 0"
          if j: "j \<in> set (map fst (listening ?s) @ terminatedThreads ?s)" for j
        proof (cases "j = ?i")
          case True
          then show ?thesis by (simp add: s' number_of_def)
        next
          case False
          with j have old: "j \<in> set (map fst (listening s) @ terminatedThreads s)" by (auto simp: s')
          moreover from old have "(of_nat n :: u32) \<noteq> of_nat (number_of s j)" by (intro pool_wf_apart [OF wf n]) auto
          moreover have "number_of ?s j = number_of s j" using False by (simp add: s' number_of_def)
          ultimately show ?thesis using at(4) False by (simp add: pool_threads_def)
        qed
        moreover have "joins_at (m(?i := ?d)) jb (joining ?s) (joiner ?c) (clientThreads ?c)"
        proof (cases "joining s")
          case None
          with at(4) show ?thesis by (simp add: pool_threads_def s')
        next
          case (Some jk)
          obtain j k where jk: "jk = (j, k)" by (cases jk)
          have "(of_nat n :: u32) \<noteq> of_nat k" using Some jk by (intro pool_wf_apart [OF wf n]) auto
          moreover have "j \<noteq> ?i" using ids Some jk by (auto simp: pool_ids_def)
          ultimately show ?thesis using at(4) Some jk by (simp add: pool_threads_def s')
        qed
        ultimately show ?thesis
          using at(4) new(4,5) unfolding pool_threads_def
          by (simp add: s' thread_at_def [of _ "(_, _)"] map_thread_at_new del: fun_upd_apply) simp
      qed
      ultimately have "pool_at H ?s ?c" using h6(2,3) wf' by (intro pool_atI) auto
      then show ?thesis using start h3(1,5) h4(1,4) h5(1,4) h6(1,4) False assms(3) by (intro exI [of _ ?c]) simp
    qed
  qed
qed

section \<open>Leaving and closing\<close>

lemma map_remove1_inj: "inj_on f (insert x (set xs)) \<Longrightarrow> map f (remove1 x xs) = remove1 (f x) (map f xs)"
proof (induction xs)
  case (Cons y xs)
  then have "f y = f x \<longleftrightarrow> y = x" by (auto simp: inj_on_def)
  moreover have "inj_on f (insert x (set xs))" by (rule inj_on_subset [OF Cons.prems]) auto
  ultimately show ?case using Cons.IH by auto
qed simp

text \<open>Different threads have different arguments.\<close>

lemma blocks_inj: "pool_blocks h m ya jb s \<Longrightarrow> i < next_cti s \<Longrightarrow> j < next_cti s \<Longrightarrow> m i = m j \<longleftrightarrow> i = j"
  by (auto simp: pool_blocks_def own_blocks_def distinct_map inj_on_def)

lemma thread_at_inj:
  assumes "pool_blocks h m ya jb s" "pool_ids s"
  shows "inj_on (thread_at m) (set (listening s) \<union> set (leaving s))"
proof (rule inj_onI)
  fix t u assume tu: "t \<in> set (listening s) \<union> set (leaving s)" "u \<in> set (listening s) \<union> set (leaving s)" "thread_at m t = thread_at m u"
  then have "fst t < next_cti s" "fst u < next_cti s" "snd t < 2 ^ 31" "snd u < 2 ^ 31" using assms(2) by (auto simp: pool_ids_def)
  moreover from tu(3) have "m (fst t) = m (fst u)" "(of_nat (snd t) :: u32) = of_nat (snd u)" by (simp_all add: thread_at_def)
  ultimately show "t = u" using blocks_inj [OF assms(1)]
    by (simp add: prod_eq_iff word_of_nat_eq_iff take_bit_nat_eq_self)
qed

lemma leave_client_at:
  assumes "pool_at H s c" "t' \<in> set (listeners c)" "1 \<le> avail (mem c)"
  shows "\<exists>t c'. t \<in> set (listening s) \<and> leave_client (ptrs H) t' c = Inr c' \<and> pool_at H (client_gone t s) c' \<and>
    avail (mem c) \<le> avail (mem c') + 1"
proof -
  from assms(1) obtain xs m ya jb where wf: "pool_wf s" and at: "lists_at H xs (mem c)" "pool_lists m ya xs s"
    "pool_blocks (mem c) m ya jb s" "pool_threads m jb s c" by (auto simp: pool_at_def)
  from assms(2) at(4) obtain t where t: "t \<in> set (listening s)" "t' = thread_at m t" by (auto simp: pool_threads_def)
  from insert_first_at [OF at(1), of Terminated "fst t'"] assms(3) obtain h' where
    h': "llist_insertfirst (ptrs H Terminated) (fst t') (mem c) = Inr h'"
      "lists_at H (xs(Terminated := (brk (mem c), fst t') # xs Terminated)) h'" "brk h' = Suc (brk (mem c))"
      "avail h' = avail (mem c) - 1" "plain_same (mem c) h'" by auto
  let ?c = "c\<lparr>mem := h', listeners := remove1 t' (listeners c), leavers := t' # leavers c\<rparr>" and ?s = "client_gone t s"
  have ids: "pool_ids s" using wf by (simp add: pool_wf_def)
  have "pool_blocks h' m ya jb s" using pool_blocks_same [OF at(3) h'(5)] h'(3) by simp
  then have "pool_blocks h' m ya jb ?s" by (simp add: pool_blocks_def own_blocks_def client_gone_def)
  moreover have "pool_lists m ya (xs(Terminated := (brk (mem c), fst t') # xs Terminated)) ?s"
    using at(2) t(2) by (simp add: pool_lists_def client_gone_def thread_at_def)
  moreover have "pool_threads m jb ?s ?c"
  proof -
    have "inj_on (thread_at m) (insert t (set (listening s)))"
      by (rule inj_on_subset [OF thread_at_inj [OF at(3) ids]]) (use t(1) in auto)
    from map_remove1_inj [OF this] at(4) t(2) have "listeners ?c = map (thread_at m) (listening ?s)"
      by (simp add: pool_threads_def client_gone_def)
    moreover have "number_of ?s = number_of s" by (simp add: number_of_def [abs_def] client_gone_def)
    moreover have "set (remove1 t (listening s)) \<subseteq> set (listening s)" by (rule set_remove1_subset)
    ultimately show ?thesis using at(4) t unfolding pool_threads_def by (auto simp: client_gone_def)
  qed
  ultimately have "pool_at H ?s ?c" using h'(2) pool_wf_gone [OF wf t(1)] by (intro pool_atI) auto
  then show ?thesis using t(1) h'(1,4) by (intro exI [of _ t] exI [of _ ?c]) (simp add: leave_client_def)
qed

lemma close_client_loop_at:
  assumes "lists_at H xs h" "xs Clients = ys @ zs" "map snd zs = map (\<lambda>i. Ptr (m i) 4) is"
    "\<And>i. i \<in> set is \<Longrightarrow> case cs i of None \<Rightarrow> cells h (m i) = None | Some info \<Rightarrow> info_block h (m i) info \<and> client_sock info < 2 ^ 31"
    "length (xs Clients) < 2 ^ 31" "k < 2 ^ 31"
  shows "case remove_client cs k is of
      Inl e \<Rightarrow> close_client_loop (ptrs H Clients) (of_nat k) (first_ptr zs Null) (of_nat (length ys)) h = Some (Inl e)
    | Inr is' \<Rightarrow> \<exists>h' zs'. close_client_loop (ptrs H Clients) (of_nat k) (first_ptr zs Null) (of_nat (length ys)) h = Some (Inr h') \<and>
        lists_at H (xs(Clients := ys @ zs')) h' \<and> map snd zs' = map (\<lambda>i. Ptr (m i) 4) is' \<and>
        brk h' = brk h \<and> avail h' = avail h \<and> plain_same h h'"
  using assms(2-4)
proof (induction zs arbitrary: ys "is")
  case Nil
  then have "is = []" by simp
  moreover have "close_client_loop (ptrs H Clients) (of_nat k) Null (of_nat (length ys)) h = Some (Inr h)"
    using length_at [OF assms(1), of Clients] Nil.prems(1) by (subst close_client_loop.simps) simp
  moreover have "xs(Clients := ys) = xs" using Nil.prems(1) by auto
  ultimately show ?case using assms(1) by (auto simp: plain_same_def)
next
  case (Cons z zs)
  from Cons.prems(2) obtain a i is' where i: "z = (a, Ptr (m i) 4)" "is = i # is'" "map snd zs = map (\<lambda>i. Ptr (m i) 4) is'"
    by (cases "is"; cases z) auto
  have n: "sint (of_nat (length ys) :: u32) < sint (of_nat (length (xs Clients)) :: u32)"
    using Cons.prems(1) assms(5) by (subst (1 2) sint_of_nat_small) simp_all
  have mem: "(a, Ptr (m i) 4) \<in> set (xs Clients)" using Cons.prems(1) i(1) by simp
  note step = close_client_loop.simps [of "ptrs H Clients" "of_nat k" "Ptr a 0" "of_nat (length ys)" h]
    length_at [OF assms(1), of Clients] inspect_at [OF assms(1) mem]
  show ?case
  proof (cases "cs i")
    case None
    then have "cells h (m i) = None" using Cons.prems(3) [of i] i(2) by simp
    with step n None show ?thesis by (simp add: i(1,2) read_int_def)
  next
    case (Some info)
    then have info: "info_block h (m i) info" "client_sock info < 2 ^ 31" using Cons.prems(3) [of i] i(2) by simp_all
    have eq: "(of_nat k :: u32) = of_nat (client_sock info) \<longleftrightarrow> k = client_sock info"
      using assms(6) info(2) by (simp add: word_of_nat_eq_iff take_bit_nat_eq_self)
    show ?thesis
    proof (cases "k = client_sock info")
      case True
      from remove_at [where k = Clients, OF assms(1) Cons.prems(1) [unfolded i(1)]] obtain h' where
        h': "llist_remove (ptrs H Clients) (Ptr a 0) h = Inr (first_ptr zs Null, h')" "lists_at H (xs(Clients := ys @ zs)) h'"
          "brk h' = brk h" "avail h' = avail h" "plain_same h h'" by blast
      with step n read_sock_block [OF info(1)] True Some i show ?thesis by (auto simp: i(1))
    next
      case False
      have dl: "dl False h (H Clients) (xs Clients)" using lists_atD(2) [OF assms(1)] .
      then have nx: "llist_next (Ptr a 0) h = Inr (first_ptr zs Null)"
        using Cons.prems(1) i(1) by (cases "H Clients") (simp add: dl.simps llist_next_def nxt_of_def)
      have loop: "close_client_loop (ptrs H Clients) (of_nat k) (first_ptr (z # zs) Null) (of_nat (length ys)) h =
          close_client_loop (ptrs H Clients) (of_nat k) (first_ptr zs Null) (of_nat (length (ys @ [z]))) h"
        using step n read_sock_block [OF info(1)] eq False nx by (simp add: i(1) add.commute)
      have IH: "case remove_client cs k is' of
          Inl e \<Rightarrow> close_client_loop (ptrs H Clients) (of_nat k) (first_ptr zs Null) (of_nat (length (ys @ [z]))) h = Some (Inl e)
        | Inr ks \<Rightarrow> \<exists>h' zs'. close_client_loop (ptrs H Clients) (of_nat k) (first_ptr zs Null) (of_nat (length (ys @ [z]))) h = Some (Inr h') \<and>
            lists_at H (xs(Clients := (ys @ [z]) @ zs')) h' \<and> map snd zs' = map (\<lambda>i. Ptr (m i) 4) ks \<and>
            brk h' = brk h \<and> avail h' = avail h \<and> plain_same h h'"
        by (rule Cons.IH) (use Cons.prems(1,3) i in auto)
      have r: "remove_client cs k is = bind_r (remove_client cs k is') (\<lambda>ks. Inr (i # ks))" using Some False i(2) by simp
      show ?thesis
      proof (cases "remove_client cs k is'")
        case (Inl e)
        with IH r show ?thesis unfolding loop by simp
      next
        case (Inr ks)
        with IH obtain h' zs' where "close_client_loop (ptrs H Clients) (of_nat k) (first_ptr zs Null) (of_nat (length (ys @ [z]))) h = Some (Inr h')"
          "lists_at H (xs(Clients := ys @ z # zs')) h'" "map snd (z # zs') = map (\<lambda>i. Ptr (m i) 4) (i # ks)"
          "brk h' = brk h" "avail h' = avail h" "plain_same h h'" using i(1) by auto
        with Inr r show ?thesis unfolding loop by (simp del: list.map) blast
      qed
    qed
  qed
qed

lemma remove_client_error: "remove_client cs k is = Inl e \<Longrightarrow> e = UseAfterFree"
  by (induction "is") (auto simp: bind_r_eq_Inl split: option.splits if_splits)

lemma info_of_client:
  assumes "pool_blocks h m ya jb s" "pool_ids s" "i < next_cti s"
  shows "case cti s i of None \<Rightarrow> cells h (m i) = None | Some info \<Rightarrow> info_block h (m i) info \<and> client_sock info < 2 ^ 31"
proof -
  have "case cti s i of None \<Rightarrow> cells h (m i) = None | Some info \<Rightarrow> info_block h (m i) info"
    using assms(1,3) unfolding pool_blocks_def by blast
  with assms(2) show ?thesis by (auto simp: pool_ids_def split: option.split)
qed

lemma close_client_at:
  assumes "pool_at H s c" "t' \<in> set (leavers c)" "next_cti s < 2 ^ 31"
  shows "\<exists>t. t \<in> set (leaving s) \<and> (case close_connected_client t s of
      Inl e \<Rightarrow> close_client (ptrs H) t' c = Some (Inl e) \<and> e = UseAfterFree
    | Inr s' \<Rightarrow> \<exists>c'. close_client (ptrs H) t' c = Some (Inr c') \<and> pool_at H s' c' \<and> avail (mem c') = avail (mem c))"
proof -
  from assms(1) obtain xs m ya jb where wf: "pool_wf s" and at: "lists_at H xs (mem c)" "pool_lists m ya xs s"
    "pool_blocks (mem c) m ya jb s" "pool_threads m jb s c" by (auto simp: pool_at_def)
  have ids: "pool_ids s" using wf by (simp add: pool_wf_def)
  from assms(2) at(4) obtain t where t: "t \<in> set (leaving s)" "t' = thread_at m t" by (auto simp: pool_threads_def)
  have first: "llist_first (ptrs H Clients) (mem c) = Inr (first_ptr (xs Clients) Null)" by (rule llist_first_dl [OF lists_atD(2) [OF at(1)]])
  have cl: "map snd (xs Clients) = map (\<lambda>i. Ptr (m i) 4) (clients_sockets s)" using at(2) by (simp add: pool_lists_def)
  have len: "length (xs Clients) < 2 ^ 31"
    using arg_cong [OF cl, of length] ids assms(3) by (simp add: pool_ids_def)
  have cls: "i < next_cti s" if "i \<in> set (clients_sockets s)" for i using ids that by (simp add: pool_ids_def)
  have k: "snd t < 2 ^ 31" using ids t(1) by (simp add: pool_ids_def)
  note loop = close_client_loop_at [where ys = "[]", OF at(1) _ cl info_of_client [OF at(3) ids cls] len k, simplified]
  have sock: "snd t' = of_nat (snd t)" using t(2) by (simp add: thread_at_def)
  show ?thesis
  proof (cases "remove_client (cti s) (snd t) (clients_sockets s)")
    case (Inl e)
    with loop first sock have "close_client (ptrs H) t' c = Some (Inl e)" by (simp add: close_client_def close_connected_def)
    with Inl t(1) remove_client_error [OF Inl] show ?thesis by (intro exI [of _ t]) (simp add: close_connected_client_def)
  next
    case (Inr ks)
    let ?s = "s\<lparr>clients_sockets := ks, leaving := remove1 t (leaving s)\<rparr>"
    have s': "close_connected_client t s = Inr ?s" using Inr by (simp add: close_connected_client_def)
    from Inr loop obtain h' zs' where h': "close_client_loop (ptrs H Clients) (of_nat (snd t)) (first_ptr (xs Clients) Null) 0 (mem c) = Some (Inr h')"
      "lists_at H (xs(Clients := zs')) h'" "map snd zs' = map (\<lambda>i. Ptr (m i) 4) ks" "brk h' = brk (mem c)"
      "avail h' = avail (mem c)" "plain_same (mem c) h'" by auto
    let ?c = "c\<lparr>mem := h', leavers := remove1 t' (leavers c)\<rparr>"
    have "pool_blocks h' m ya jb s" using pool_blocks_same [OF at(3) h'(6)] h'(4) by simp
    then have "pool_blocks h' m ya jb ?s" by (simp add: pool_blocks_def own_blocks_def)
    moreover have "pool_lists m ya (xs(Clients := zs')) ?s" using at(2) h'(3) by (simp add: pool_lists_def)
    moreover have "pool_threads m jb ?s ?c"
    proof -
      have "inj_on (thread_at m) (insert t (set (leaving s)))"
        by (rule inj_on_subset [OF thread_at_inj [OF at(3) ids]]) (use t(1) in auto)
      from map_remove1_inj [OF this] at(4) t(2) have "leavers ?c = map (thread_at m) (leaving ?s)" by (simp add: pool_threads_def)
      moreover have "number_of ?s = number_of s" by (simp add: number_of_def [abs_def])
      ultimately show ?thesis using at(4) unfolding pool_threads_def by simp
    qed
    ultimately have "pool_at H ?s ?c" using h'(2) pool_wf_close [OF wf t(1) s'] by (intro pool_atI) auto
    moreover have "close_client (ptrs H) t' c = Some (Inr ?c)" using first h'(1) sock by (simp add: close_client_def close_connected_def)
    ultimately show ?thesis using t(1) s' h'(5) by (intro exI [of _ t]) auto
  qed
qed

section \<open>Joining\<close>

lemma join_first_at:
  assumes "pool_at H s c" "join_first (ptrs H) c = Some r" "2 \<le> avail (mem c)"
  shows "\<exists>s' c'. join_begin s = Some (Inr s') \<and> r = Inr c' \<and> pool_at H s' c' \<and> avail (mem c) \<le> avail (mem c') + 2"
proof -
  from assms(1) obtain xs m ya jb where wf: "pool_wf s" and at: "lists_at H xs (mem c)" "pool_lists m ya xs s"
    "pool_blocks (mem c) m ya jb s" "pool_threads m jb s c" by (auto simp: pool_at_def)
  let ?b = "brk (mem c)"
  have ids: "pool_ids s" and ok: "pool_ok s" using wf by (simp_all add: pool_wf_def)
  have tl: "map snd (xs Terminated) = map (\<lambda>i. Ptr (m i) 0) (terminatedThreads s)" using at(2) by (simp add: pool_lists_def)
  from assms(2) isEmpty_at [OF at(1), of Terminated] have j0: "joiner c = None" and ne: "xs Terminated \<noteq> []"
    by (cases "joiner c"; auto simp: join_first_def split: if_splits)+
  have "joining s = None" using at(4) j0 by (cases "joining s") (auto simp: pool_threads_def)
  then have jb: "jb = []" using at(4) by (simp add: pool_threads_def)
  from ne tl obtain a i ys ts where x: "xs Terminated = (a, Ptr (m i) 0) # ys" "terminatedThreads s = i # ts"
    "map snd ys = map (\<lambda>i. Ptr (m i) 0) ts" by (cases "xs Terminated"; cases "terminatedThreads s") auto
  from ok x(2) obtain info where info: "cti s i = Some info" by (auto simp: pool_ok_def)
  have i: "i < next_cti s" using ids x(2) by (simp add: pool_ids_def)
  from info_of_client [OF at(3) ids i] info have "info_block (mem c) (m i) info" by simp
  then obtain ib where ib: "cells (mem c) (m i) = Some (CChunk ib)" "length ib = 8" "un_le32 ib = of_nat (thread_num info)"
    by (auto simp: info_block_def)
  let ?s = "s\<lparr>terminatedThreads := ts, cti := (cti s)(i := None), joining := Some (i, thread_num info)\<rparr>"
  have s': "join_begin s = Some (Inr ?s)" using \<open>joining s = None\<close> x(2) info by (simp add: join_begin_def)
  from alloc_at [OF at(1), of "replicate 8 0"] assms(3) obtain h1 where
    h1: "alloc (CChunk (replicate 8 0)) (mem c) = (Ptr ?b 0, h1)" "lists_at H xs h1" "brk h1 = Suc ?b"
      "avail h1 = avail (mem c) - 1" "cells h1 ?b = Some (CChunk (replicate 8 0))" "plain_same (mem c) h1" by auto
  have pm: "plain (mem c) (m i)" using pool_blocks_plain [OF at(3)] i by (simp add: own_blocks_def)
  then have ib1: "cells h1 (m i) = Some (CChunk ib)" using h1(6) ib(1) by (simp add: plain_same_def)
  from remove_first_INT_at [OF h1(2) _ x(1) ib1] h1(3,4) ib(2) assms(3) obtain h2 where
    h2: "llist_removefirst_INT (ptrs H Terminated) h1 = Inr (Ptr (Suc ?b) 0, h2)" "lists_at H (xs(Terminated := ys)) h2"
      "brk h2 = Suc (Suc ?b)" "avail h2 = avail (mem c) - 2" "cells h2 (Suc ?b) = Some (CChunk ib)" "cells h2 (m i) = None"
      "\<forall>b. plain h1 b \<longrightarrow> b \<noteq> m i \<longrightarrow> cells h2 b = cells h1 b" by auto
  have low: "b < ?b" if "b \<in> set (own_blocks m ya jb s)" for b using at(3) that by (simp add: pool_blocks_def)
  have "m i \<in> set (own_blocks m ya jb s)" using i by (simp add: own_blocks_def)
  from low [OF this] have mi: "m i < ?b" .
  have "plain h1 ?b" using h1(3,5) by (simp add: plain_def)
  then have "cells h2 ?b = Some (CChunk (replicate 8 0))" using h2(7) h1(5) mi by simp
  from write_at [OF h2(2) this, of 0 ib] ib(2) obtain h3 where
    h3: "write_mem (Ptr ?b 0) ib h2 = Inr h3" "lists_at H (xs(Terminated := ys)) h3" "brk h3 = Suc (Suc ?b)"
      "avail h3 = avail (mem c) - 2" "cells h3 = (cells h2)(?b \<mapsto> CChunk ib)" using h2(3,4) by auto
  let ?c = "c\<lparr>mem := h3, joiner := Some (Ptr ?b 0, Ptr (Suc ?b) 0)\<rparr>"
  have "r = Inr ?c"
    using assms(2) h1(1) h2(1,5) h3(1) ib(2) j0 ne isEmpty_at [OF at(1), of Terminated] by (simp add: join_first_def)
  have same: "cells h3 b = cells (mem c) b" if "b \<in> set (own_blocks m ya jb s)" "b \<noteq> m i" for b
    using h3(5) h2(7) h1(3,6) pool_blocks_plain [OF at(3) that(1)] that(2) low [OF that(1)]
    by (auto simp: plain_same_def plain_def)
  have "pool_blocks h3 m ya [?b, Suc ?b] ?s"
  proof -
    have "list_all2 (\<lambda>y n. int_block h3 (snd y) n) ya (availableThreads s)"
    proof (rule list.rel_mono_strong)
      show "list_all2 (\<lambda>y n. int_block (mem c) (snd y) n) ya (availableThreads s)" using at(3) by (simp add: pool_blocks_def)
      fix y n assume y: "y \<in> set ya" "int_block (mem c) (snd y) n"
      have "snd y \<noteq> m i" using at(3) y(1) i by (auto simp: pool_blocks_def own_blocks_def)
      with same [of "snd y"] y show "int_block h3 (snd y) n" by (simp add: own_blocks_def int_block_def)
    qed
    moreover have "int_block h3 ?b (thread_num info)" "int_block h3 (Suc ?b) (thread_num info)"
      using h3(5) h2(5) ib(2,3) by (simp_all add: int_block_def)
    moreover have "case cti ?s j of None \<Rightarrow> cells h3 (m j) = None | Some info \<Rightarrow> info_block h3 (m j) info" if j: "j < next_cti s" for j
    proof (cases "j = i")
      case True
      with h3(5) h2(6) mi show ?thesis by simp
    next
      case False
      then have "m j \<noteq> m i" using blocks_inj [OF at(3) j i] by simp
      then have "cells h3 (m j) = cells (mem c) (m j)" using same [of "m j"] j by (simp add: own_blocks_def)
      moreover have "case cti s j of None \<Rightarrow> cells (mem c) (m j) = None | Some info \<Rightarrow> info_block (mem c) (m j) info"
        using at(3) j unfolding pool_blocks_def by blast
      ultimately show ?thesis using False by (simp add: info_block_def split: option.splits)
    qed
    moreover have "distinct (own_blocks m ya [?b, Suc ?b] ?s)"
    proof -
      have "distinct (own_blocks m ya jb s)" using at(3) by (simp add: pool_blocks_def)
      moreover have "?b \<notin> set (own_blocks m ya jb s)" "Suc ?b \<notin> set (own_blocks m ya jb s)" using low by fastforce+
      ultimately show ?thesis by (auto simp: own_blocks_def jb)
    qed
    moreover have "b < brk h3" if "b \<in> set (own_blocks m ya [?b, Suc ?b] ?s)" for b
    proof -
      have "b \<in> {?b, Suc ?b} \<union> set (own_blocks m ya jb s)" using that by (auto simp: own_blocks_def)
      with low h3(3) show ?thesis by fastforce
    qed
    ultimately show ?thesis by (simp add: pool_blocks_def)
  qed
  moreover have "pool_lists m ya (xs(Terminated := ys)) ?s" using at(2) x(3) by (simp add: pool_lists_def)
  moreover have "pool_threads m [?b, Suc ?b] ?s ?c"
  proof -
    have "number_of s i = thread_num info" using info by (simp add: number_of_def)
    moreover have other: "i \<notin> set (map fst (listening s) @ ts)" using ok x(2) by (auto simp: pool_ok_def)
    moreover have "clientThreads ?c (of_nat (number_of ?s j)) = Ptr (m j) 0" if j: "j \<in> set (map fst (listening ?s) @ terminatedThreads ?s)" for j
    proof -
      have "number_of ?s j = number_of s j" using other j by (auto simp: number_of_def)
      moreover have "j \<in> set (map fst (listening s) @ terminatedThreads s)" using j x(2) by auto
      ultimately show ?thesis using at(4) by (simp add: pool_threads_def)
    qed
    ultimately show ?thesis using at(4) x(2) unfolding pool_threads_def by simp
  qed
  ultimately have "pool_at H ?s ?c" using h3(2) pool_wf_join [OF wf s'] by (intro pool_atI) auto
  with s' \<open>r = Inr ?c\<close> h3(4) show ?thesis by auto
qed

lemma join_return_at:
  assumes "pool_at H s c" "join_return (ptrs H) c = Some r" "1 \<le> avail (mem c)"
  shows "\<exists>s' c'. join_end s = Some s' \<and> r = Inr c' \<and> pool_at H s' c' \<and> avail (mem c) \<le> avail (mem c') + 1"
proof -
  from assms(1) obtain xs m ya jb where wf: "pool_wf s" and at: "lists_at H xs (mem c)" "pool_lists m ya xs s"
    "pool_blocks (mem c) m ya jb s" "pool_threads m jb s c" by (auto simp: pool_at_def)
  let ?b = "brk (mem c)"
  have ids: "pool_ids s" using wf by (simp add: pool_wf_def)
  from assms(2) obtain tn' tp' where jo: "joiner c = Some (tn', tp')" by (auto simp: join_return_def split: option.splits)
  with at(4) obtain i n tn tp where j: "joining s = Some (i, n)" "jb = [tn, tp]" "tn' = Ptr tn 0" "tp' = Ptr tp 0"
    "clientThreads c (of_nat n) = Ptr (m i) 0" by (cases "joining s") (auto simp: pool_threads_def)
  have int: "int_block (mem c) tn n" "int_block (mem c) tp n" using at(3) j(1,2) by (auto simp: pool_blocks_def)
  have i: "i < next_cti s" "\<forall>t \<in> set (listening s). fst t \<noteq> i" using ids j(1) by (auto simp: pool_ids_def)
  have "Ptr (m i) 0 \<in> fst ` set (listeners c @ leavers c) \<longleftrightarrow> (\<exists>t \<in> set (listening s @ leaving s). m (fst t) = m i)"
  proof -
    have "set (listeners c @ leavers c) = thread_at m ` set (listening s @ leaving s)" using at(4) by (simp add: pool_threads_def image_Un)
    then show ?thesis unfolding image_image by (simp only:) (simp add: image_image thread_at_def image_iff eq_commute)
  qed
  also have "\<dots> \<longleftrightarrow> (\<exists>t \<in> set (listening s @ leaving s). fst t = i)"
  proof (rule bex_cong [OF refl])
    fix t assume "t \<in> set (listening s @ leaving s)"
    then have "fst t < next_cti s" using ids by (auto simp: pool_ids_def)
    then show "m (fst t) = m i \<longleftrightarrow> fst t = i" using blocks_inj [OF at(3)] i(1) by simp
  qed
  also have "\<dots> \<longleftrightarrow> i \<in> fst ` set (leaving s)" using i(2) by (auto simp: image_iff)
  finally have over: "i \<notin> fst ` set (leaving s)" "clientThreads c (of_nat n) \<notin> fst ` set (listeners c @ leavers c)"
    using assms(2) jo j read_int_block [OF int(2)] by (auto simp: join_return_def split: if_splits)
  let ?s = "s\<lparr>joining := None, availableThreads := availableThreads s @ [n]\<rparr>"
  have s': "join_end s = Some ?s" using j(1) over(1) by (simp add: join_end_def)
  from insert_last_at [OF at(1), of Available tn'] assms(3) obtain h1 where
    h1: "llist_insertlast (ptrs H Available) tn' (mem c) = Inr h1" "lists_at H (xs(Available := xs Available @ [(?b, tn')])) h1"
      "brk h1 = Suc ?b" "avail h1 = avail (mem c) - 1" "plain_same (mem c) h1" by auto
  let ?xs = "xs(Available := xs Available @ [(?b, tn')])"
  have pb1: "pool_blocks h1 m ya jb s" using pool_blocks_same [OF at(3) h1(5)] h1(3) by simp
  then have int1: "int_block h1 tn n" "int_block h1 tp n" using j(1,2) by (auto simp: pool_blocks_def)
  from int1(2) obtain tc where tc: "cells h1 tp = Some (CChunk tc)" by (auto simp: int_block_def)
  have "list_all2 (\<lambda>y n. int_block h1 (snd y) n) (ya @ [(?b, tn)]) (availableThreads s @ [n])"
    using pb1 int1(1) by (intro list_all2_appendI) (simp_all add: pool_blocks_def)
  moreover have own: "mset (own_blocks m ya jb s) = add_mset tp (mset (own_blocks m (ya @ [(?b, tn)]) [] ?s))"
    by (simp add: own_blocks_def j(2))
  then have "set (own_blocks m ya jb s) = insert tp (set (own_blocks m (ya @ [(?b, tn)]) [] ?s))"
    using set_mset_mset by (metis set_mset_add_mset_insert)
  moreover have "distinct (own_blocks m ya jb s)" using pb1 by (simp add: pool_blocks_def)
  with own have "distinct (tp # own_blocks m (ya @ [(?b, tn)]) [] ?s)" by (metis mset.simps(2) mset_eq_imp_distinct_iff)
  ultimately have pb2: "pool_blocks h1 m (ya @ [(?b, tn)]) [] ?s" "tp \<notin> set (own_blocks m (ya @ [(?b, tn)]) [] ?s)"
    using pb1 by (simp_all add: pool_blocks_def)
  from free_other [OF h1(2) pb2(1) tc pb2(2)] obtain h2 where
    h2: "c_free (Ptr tp 0) h1 = Inr h2" "lists_at H ?xs h2" "pool_blocks h2 m (ya @ [(?b, tn)]) [] ?s" "avail h2 = avail h1" by blast
  let ?c = "c\<lparr>mem := h2, joiner := None\<rparr>"
  have "r = Inr ?c"
    using assms(2) jo j over(2) read_int_block [OF int(2)] h1(1) h2(1) by (auto simp: join_return_def)
  moreover have "pool_lists m (ya @ [(?b, tn)]) ?xs ?s" using at(2) j(3) by (simp add: pool_lists_def)
  moreover have "pool_threads m [] ?s ?c"
  proof -
    have "number_of ?s = number_of s" by (simp add: number_of_def [abs_def])
    then show ?thesis using at(4) unfolding pool_threads_def by simp
  qed
  ultimately have "pool_at H ?s ?c" "r = Inr ?c" using h2(2,3) pool_wf_joined [OF wf s'] by (auto intro!: pool_atI)
  with s' h2(4) h1(4) show ?thesis by auto
qed

end
