(* ===== verification/PoolMemoryProps.thy ===== *)
theory PoolMemoryProps
  imports PoolSteps
begin

text \<open>
  The threads of the pool in memory: every run on the heap is a run of the pool of Threads and faults only where
  the pool does.
\<close>

section \<open>Shutting down\<close>

lemma remove_first_freed:
  assumes "lists_at H xs h" "xs k = (a, Ptr b off) # ys" "plain h b" "cells h b = None"
  shows "llist_removefirst (list_ptr (H k)) h = Inl UseAfterFree"
proof -
  have dl: "dl False h (H k) ([] @ (a, Ptr b off) # ys)" using lists_atD(2) [OF assms(1), of k] assms(2) by simp
  from enter_unlink_dl [OF dl] obtain h1 h2 n where
    h: "pthread_mutex_lock (list_ptr (H k)) h = Inr h1" "dl True h1 (H k) ((a, Ptr b off) # ys)"
    "unlink (list_ptr (H k)) (Ptr a 0) h1 = Inr h2" "cells h2 a = Some (CNode n)" "dat n = Ptr b off"
    "same_outside (blocks (H k) ((a, Ptr b off) # ys)) h h2" by auto
  have "cells h2 b = None"
    using same_outsideD [OF h(6)] plain_not_in_list [OF assms(1,3), of k] assms(2,4) by simp
  with h llist_first_dl [OF h(2)] show ?thesis by (simp add: llist_removefirst_def dat_of_def)
qed

lemma close_all_loop_at:
  assumes "lists_at H xs h" "map snd (xs Clients) = map (\<lambda>i. Ptr (m i) 4) is" "\<And>i. i \<in> set is \<Longrightarrow> plain h (m i)"
    "\<And>i. i \<in> set is \<Longrightarrow> case cs i of None \<Rightarrow> cells h (m i) = None | Some info \<Rightarrow> info_block h (m i) info"
  shows "if \<exists>i \<in> set is. cs i = None then close_all_loop (ptrs H Clients) quits h = Some (Inl UseAfterFree)
    else \<exists>h'. close_all_loop (ptrs H Clients) quits h = Some (Inr (quits @ map (\<lambda>i. of_nat (client_sock (the (cs i)))) is, h')) \<and>
      lists_at H (xs(Clients := [])) h' \<and> brk h' = brk h \<and> avail h' = avail h \<and> plain_same h h'"
  using assms
proof (induction "is" arbitrary: h xs quits)
  case Nil
  then have "xs(Clients := []) = xs" by auto
  with Nil isEmpty_at [OF Nil(1), of Clients] show ?case by (simp add: close_all_loop.simps plain_same_def)
next
  case (Cons i "is")
  from Cons.prems(2) obtain a ys where x: "xs Clients = (a, Ptr (m i) 4) # ys" "map snd ys = map (\<lambda>i. Ptr (m i) 4) is" by auto
  note step = close_all_loop.simps [of "ptrs H Clients" quits h] isEmpty_at [OF Cons.prems(1), of Clients]
  show ?case
  proof (cases "cs i")
    case None
    then have "cells h (m i) = None" using Cons.prems(4) [of i] by simp
    with remove_first_freed [OF Cons.prems(1) x(1) Cons.prems(3)] have "llist_removefirst (ptrs H Clients) h = Inl UseAfterFree" by simp
    with step x(1) None show ?thesis by simp
  next
    case (Some info)
    then have info: "info_block h (m i) info" using Cons.prems(4) [of i] by simp
    then obtain b where b: "read_mem (Ptr (m i) 4) 4 h = Inr b" "un_le32 b = of_nat (client_sock info)" by (auto simp: info_block_def)
    from remove_first_at [OF Cons.prems(1) x(1) b(1)] obtain h1 where
      h1: "llist_removefirst (ptrs H Clients) h = Inr (un_le32 b, h1)" "lists_at H (xs(Clients := ys)) h1"
        "brk h1 = brk h" "avail h1 = avail h" "plain_same h h1" by blast
    have same: "cells h1 (m j) = cells h (m j)" if "j \<in> set is" for j
      using Cons.prems(3) [of j] that h1(5) by (simp add: plain_same_def)
    have IH: "if \<exists>i \<in> set is. cs i = None then close_all_loop (ptrs H Clients) (quits @ [un_le32 b]) h1 = Some (Inl UseAfterFree)
      else \<exists>h'. close_all_loop (ptrs H Clients) (quits @ [un_le32 b]) h1 =
          Some (Inr ((quits @ [un_le32 b]) @ map (\<lambda>i. of_nat (client_sock (the (cs i)))) is, h')) \<and>
        lists_at H (xs(Clients := ys, Clients := [])) h' \<and> brk h' = brk h1 \<and> avail h' = avail h1 \<and> plain_same h1 h'"
    proof (rule Cons.IH [OF h1(2)])
      show "plain h1 (m j)" if "j \<in> set is" for j
        using plain_keep [OF Cons.prems(3) h1(5)] that h1(3) by simp
      show "case cs j of None \<Rightarrow> cells h1 (m j) = None | Some info \<Rightarrow> info_block h1 (m j) info" if "j \<in> set is" for j
        using Cons.prems(4) [of j] that same [OF that] by (simp add: info_block_def split: option.splits)
    qed (use x(2) in simp)
    have loop: "close_all_loop (ptrs H Clients) quits h = close_all_loop (ptrs H Clients) (quits @ [un_le32 b]) h1"
      using step x(1) h1(1) by simp
    show ?thesis
    proof (cases "\<exists>i \<in> set is. cs i = None")
      case True
      with IH loop show ?thesis by simp
    next
      case False
      with IH obtain h' where "close_all_loop (ptrs H Clients) (quits @ [un_le32 b]) h1 =
          Some (Inr ((quits @ [un_le32 b]) @ map (\<lambda>i. of_nat (client_sock (the (cs i)))) is, h'))"
        "lists_at H (xs(Clients := [])) h'" "brk h' = brk h1" "avail h' = avail h1" "plain_same h1 h'" by auto
      moreover from this(5) have "plain_same h h'"
        using h1(3,5) plain_keep [OF _ h1(5)] unfolding plain_same_def by (metis le_refl)
      ultimately show ?thesis using False Some b(2) loop h1(3,4) by (auto simp del: fun_upd_apply)
    qed
  qed
qed

lemma close_all_at:
  assumes "pool_at H s c"
  shows "case close_begin s of
      Inl e \<Rightarrow> close_all (ptrs H) c = Some (Inl e) \<and> e = UseAfterFree
    | Inr s' \<Rightarrow> \<exists>c'. close_all (ptrs H) c = Some (Inr c') \<and> pool_at H s' c' \<and> avail (mem c') = avail (mem c)"
proof -
  from assms(1) obtain xs m ya jb where wf: "pool_wf s" and at: "lists_at H xs (mem c)" "pool_lists m ya xs s"
    "pool_blocks (mem c) m ya jb s" "pool_threads m jb s c" by (auto simp: pool_at_def)
  have ids: "i < next_cti s" if "i \<in> set (clients_sockets s)" for i using wf that by (simp add: pool_wf_def pool_ids_def)
  have "map snd (xs Clients) = map (\<lambda>i. Ptr (m i) 4) (clients_sockets s)" using at(2) by (simp add: pool_lists_def)
  note loop = close_all_loop_at [where cs = "cti s" and quits = "[]", OF at(1) this]
  have loop: "if \<exists>i \<in> set (clients_sockets s). cti s i = None then close_all_loop (ptrs H Clients) [] (mem c) = Some (Inl UseAfterFree)
    else \<exists>h'. close_all_loop (ptrs H Clients) [] (mem c) =
        Some (Inr ([] @ map (\<lambda>i. of_nat (client_sock (the (cti s i)))) (clients_sockets s), h')) \<and>
      lists_at H (xs(Clients := [])) h' \<and> brk h' = brk (mem c) \<and> avail h' = avail (mem c) \<and> plain_same (mem c) h'"
  proof (rule loop)
    fix i assume "i \<in> set (clients_sockets s)"
    then have i: "i < next_cti s" by (rule ids)
    then show "plain (mem c) (m i)" using pool_blocks_plain [OF at(3)] by (simp add: own_blocks_def)
    show "case cti s i of None \<Rightarrow> cells (mem c) (m i) = None | Some info \<Rightarrow> info_block (mem c) (m i) info"
      using at(3) i unfolding pool_blocks_def by blast
  qed
  show ?thesis
  proof (cases "\<exists>i \<in> set (clients_sockets s). cti s i = None")
    case True
    with loop show ?thesis by (simp add: close_begin_def close_all_def)
  next
    case False
    let ?s = "s\<lparr>clients_sockets := [], closeAllClients := True\<rparr>"
    have s': "close_begin s = Inr ?s" unfolding close_begin_def if_not_P [OF False] ..
    from loop False obtain q h' where h': "close_all_loop (ptrs H Clients) [] (mem c) = Some (Inr (q, h'))"
      "lists_at H (xs(Clients := [])) h'" "brk h' = brk (mem c)" "avail h' = avail (mem c)" "plain_same (mem c) h'" by auto
    let ?c = "c\<lparr>mem := h', closes := True\<rparr>"
    have "pool_blocks h' m ya jb s" using pool_blocks_same [OF at(3) h'(5)] h'(3) by simp
    then have "pool_blocks h' m ya jb ?s" by (simp add: pool_blocks_def own_blocks_def)
    moreover have "pool_lists m ya (xs(Clients := [])) ?s" using at(2) by (simp add: pool_lists_def)
    moreover have "number_of ?s = number_of s" by (simp add: number_of_def [abs_def])
    then have "pool_threads m jb ?s ?c" using at(4) unfolding pool_threads_def by simp
    ultimately have "pool_at H ?s ?c" using h'(2) pool_wf_shut [OF wf s'] by (intro pool_atI) auto
    moreover have "close_all (ptrs H) c = Some (Inr ?c)" using h'(1) by (simp add: close_all_def)
    ultimately show ?thesis using s' h'(4) by auto
  qed
qed

lemma exit_all_at:
  assumes "pool_at H s c" "exit_all (ptrs H) c = Some r"
  shows "\<exists>s' c'. close_end s = Some s' \<and> r = Inr c' \<and> pool_at H s' c' \<and> avail (mem c') = avail (mem c)"
proof -
  from assms(1) obtain xs m ya jb where wf: "pool_wf s" and at: "lists_at H xs (mem c)" "pool_lists m ya xs s"
    "pool_blocks (mem c) m ya jb s" "pool_threads m jb s c" by (auto simp: pool_at_def)
  have len: "length (xs Available) = length (availableThreads s)"
    using at(2,3) by (auto simp: pool_lists_def pool_blocks_def nodes_to_def list_all2_lengthD)
  have "length (availableThreads s) \<le> size (numbers s)" by (simp add: numbers_def)
  also have "\<dots> \<le> size (mset [0..<THREADS])" using wf by (intro size_mset_mono) (simp add: pool_wf_def)
  finally have "length (availableThreads s) \<le> THREADS" by simp
  then have small: "sint (of_nat (length (availableThreads s)) :: u32) = int (length (availableThreads s))" by (intro sint_of_nat_small) simp
  let ?c = "c\<lparr>mem := mem c, exits := True\<rparr>" and ?s = "s\<lparr>exitServer := True\<rparr>"
  have r: "closes c" "THREADS \<le> length (availableThreads s)" "r = Inr ?c"
    using assms(2) length_at [OF at(1), of Available] small len by (auto simp: exit_all_def split: if_splits)
  have s': "close_end s = Some ?s" using r(1,2) at(4) by (simp add: close_end_def pool_threads_def)
  have "number_of ?s = number_of s" by (simp add: number_of_def [abs_def])
  then have "pool_threads m jb ?s ?c" using at(4) unfolding pool_threads_def by simp
  moreover have "pool_blocks (mem c) m ya jb ?s" using at(3) by (simp add: pool_blocks_def own_blocks_def)
  moreover have "pool_lists m ya xs ?s" using at(2) by (simp add: pool_lists_def)
  ultimately have "pool_at H ?s ?c" using at(1) pool_wf_exit [OF wf s'] by (intro pool_atI) auto
  with s' r(3) show ?thesis by auto
qed


section \<open>Starting\<close>

lemma fill_available_at:
  assumes "lists_at H xs h" "xs Available = nodes_to ya" "list_all2 (\<lambda>y n. int_block h (snd y) n) ya ns"
    "distinct (map snd ya)" "\<forall>b \<in> snd ` set ya. b < brk h" "2 * length js \<le> avail h"
  shows "\<exists>h' ya'. fill_available adj (ptrs H Available) js h = Inr h' \<and> lists_at H (xs(Available := nodes_to ya')) h' \<and>
    list_all2 (\<lambda>y n. int_block h' (snd y) n) ya' (ns @ js) \<and> distinct (map snd ya') \<and> (\<forall>b \<in> snd ` set ya'. b < brk h') \<and>
    avail h' = avail h - 2 * length js"
  using assms
proof (induction js arbitrary: h xs ya ns)
  case Nil
  then have "xs(Available := nodes_to ya) = xs" by auto
  with Nil show ?case by (intro exI [of _ h] exI [of _ ya]) simp
next
  case (Cons j js)
  let ?b = "brk h"
  from alloc_at [OF Cons.prems(1), of "replicate 8 0"] Cons.prems(6) obtain h1 where
    h1: "alloc (CChunk (replicate 8 0)) h = (Ptr ?b 0, h1)" "lists_at H xs h1" "brk h1 = Suc ?b"
      "avail h1 = avail h - 1" "cells h1 ?b = Some (CChunk (replicate 8 0))" "plain_same h h1" by auto
  from write_at [OF h1(2,5), of 0 "le32 (of_nat j) @ le32 (adj j)"] obtain h2 where
    h2: "write_mem (Ptr ?b 0) (le32 (of_nat j) @ le32 (adj j)) h1 = Inr h2" "lists_at H xs h2" "brk h2 = Suc ?b"
      "avail h2 = avail h - 1" "cells h2 = (cells h1)(?b \<mapsto> CChunk (le32 (of_nat j) @ le32 (adj j)))" using h1(3,4) by auto
  from insert_last_at [OF h2(2), of Available "Ptr ?b 0"] h2(3,4) Cons.prems(6) obtain h3 where
    h3: "llist_insertlast (ptrs H Available) (Ptr ?b 0) h2 = Inr h3" "lists_at H (xs(Available := xs Available @ [(Suc ?b, Ptr ?b 0)])) h3"
      "brk h3 = Suc (Suc ?b)" "avail h3 = avail h - 2" "plain_same h2 h3" by auto
  have same: "cells h3 a = cells h2 a" if "plain h2 a" for a using h3(5) that by (simp add: plain_same_def)
  have "int_block h3 ?b j" using same [of ?b] h2(3,5) by (simp add: plain_def int_block_def)
  moreover have "list_all2 (\<lambda>y n. int_block h3 (snd y) n) ya ns"
  proof (rule list.rel_mono_strong [OF Cons.prems(3)])
    fix y n assume y: "y \<in> set ya" "int_block h (snd y) n"
    then have "plain h (snd y)" using Cons.prems(5) by (auto simp: plain_def int_block_def)
    moreover from this have "snd y \<noteq> ?b" by (auto simp: plain_def)
    ultimately have "cells h2 (snd y) = cells h (snd y)" using h1(6) h2(5) by (simp add: plain_same_def)
    moreover from this \<open>plain h (snd y)\<close> h2(3) have "plain h2 (snd y)" by (simp add: plain_def)
    ultimately show "int_block h3 (snd y) n" using same [of "snd y"] y(2) by (simp add: int_block_def)
  qed
  ultimately have "list_all2 (\<lambda>y n. int_block h3 (snd y) n) (ya @ [(Suc ?b, ?b)]) (ns @ [j])"
    by (intro list_all2_appendI) simp_all
  moreover have "?b \<notin> snd ` set ya" using Cons.prems(5) by blast
  then have "distinct (map snd (ya @ [(Suc ?b, ?b)]))" using Cons.prems(4) by simp
  moreover have "\<forall>b \<in> snd ` set (ya @ [(Suc ?b, ?b)]). b < brk h3" using Cons.prems(5) h3(3) by (auto dest: less_SucI)
  moreover have "(xs(Available := xs Available @ [(Suc ?b, Ptr ?b 0)])) Available = nodes_to (ya @ [(Suc ?b, ?b)])"
    using Cons.prems(2) by simp
  moreover have "2 * length js \<le> avail h3" using h3(4) Cons.prems(6) by simp
  ultimately obtain h' ya' where "fill_available adj (ptrs H Available) js h3 = Inr h'"
    "lists_at H (xs(Available := nodes_to ya')) h'"
    "list_all2 (\<lambda>y n. int_block h' (snd y) n) ya' (ns @ j # js)" "distinct (map snd ya')" "\<forall>b \<in> snd ` set ya'. b < brk h'"
    "avail h' = avail h3 - 2 * length js"
    using Cons.IH [of "xs(Available := xs Available @ [(Suc ?b, Ptr ?b 0)])" h3 "ya @ [(Suc ?b, ?b)]" "ns @ [j]"] h3(2)
    by (auto simp del: fun_upd_apply)
  moreover have "fill_available adj (ptrs H Available) (j # js) h = fill_available adj (ptrs H Available) js h3"
    using h1(1) h2(1) h3(1) by (simp add: make_thread_number_def)
  ultimately show ?case using h3(4) by (intro exI [of _ h'] exI [of _ ya']) (simp del: fun_upd_apply)
qed

text \<open>A list made by \<open>llist_empty\<close> has the three blocks from \<open>b\<close> on.\<close>

definition new_handle :: "nat \<Rightarrow> handle" where
  "new_handle b = (b, Suc b, Suc (Suc b))"

lemma new_handle_blocks: "blocks (new_handle b) [] = {b ..< b + 3}"
  by (auto simp: new_handle_def blocks.simps)

lemma new_list:
  assumes "heap_ok h" "3 \<le> avail h"
  shows "\<exists>h'. llist_empty h = Inr (list_ptr (new_handle (brk h)), h') \<and> dl False h' (new_handle (brk h)) [] \<and> heap_ok h' \<and>
    brk h' = brk h + 3 \<and> avail h' = avail h - 3 \<and> (\<forall>b. b + 3 \<le> brk h \<longrightarrow> dl False h (new_handle b) [] \<longrightarrow> dl False h' (new_handle b) [])"
proof -
  from llist_empty_dl [OF assms(1)] assms(2) obtain h' where
    h': "llist_empty h = Inr (list_ptr (new_handle (brk h)), h')" "dl False h' (new_handle (brk h)) []" "heap_ok h'"
      "brk h' = brk h + 3" "avail h' = avail h - 3" "same_outside {brk h, Suc (brk h), Suc (Suc (brk h))} h h'"
    by (auto simp: new_handle_def)
  have "dl False h' (new_handle b) []" if "b + 3 \<le> brk h" "dl False h (new_handle b) []" for b
    by (rule dl_frame [OF that(2)]) (use h'(6) that(1) in \<open>auto simp: new_handle_blocks same_outside_def\<close>)
  with h' show ?thesis by blast
qed

text \<open>The start; memory is needed for twelve blocks of lists and two for each number.\<close>

lemma server_lists_at:
  assumes "heap_ok h" "12 + 2 * THREADS \<le> avail h"
  shows "\<exists>H c. server_lists adj h = Inr (ptrs H, c) \<and> pool_at H started c \<and> avail h \<le> avail (mem c) + (12 + 2 * THREADS)"
proof -
  let ?b = "brk h"
  from new_list [OF assms(1)] assms(2) obtain h1 where h1: "llist_empty h = Inr (list_ptr (new_handle ?b), h1)"
    "dl False h1 (new_handle ?b) []" "heap_ok h1" "brk h1 = ?b + 3" "avail h1 = avail h - 3" by auto
  have "3 \<le> avail h1" using h1(5) assms(2) by simp
  from new_list [OF h1(3) this] h1(4,5) assms(2) obtain h2 where h2: "llist_empty h1 = Inr (list_ptr (new_handle (?b + 3)), h2)"
    "heap_ok h2" "brk h2 = ?b + 6" "avail h2 = avail h - 6" "dl False h2 (new_handle ?b) []" using h1(2) by (auto simp: add.commute)
  have "3 \<le> avail h2" using h2(4) assms(2) by simp
  from new_list [OF h2(2) this] h2(3,4) assms(2) obtain h3 where h3: "llist_empty h2 = Inr (list_ptr (new_handle (?b + 6)), h3)"
    "dl False h3 (new_handle (?b + 6)) []" "heap_ok h3" "brk h3 = ?b + 9" "avail h3 = avail h - 9" "dl False h3 (new_handle ?b) []"
    using h2(5) by (auto simp: add.commute)
  have "3 \<le> avail h3" using h3(5) assms(2) by simp
  from new_list [OF h3(3) this] h3(4,5) assms(2) obtain h4 where h4: "llist_empty h3 = Inr (list_ptr (new_handle (?b + 9)), h4)"
    "dl False h4 (new_handle (?b + 9)) []" "heap_ok h4" "brk h4 = ?b + 12" "avail h4 = avail h - 12" "dl False h4 (new_handle ?b) []"
    "dl False h4 (new_handle (?b + 6)) []" using h3(2,6) by (auto simp: add.commute)
  let ?H = "case_server_list (new_handle (?b + 6)) (new_handle (?b + 9)) (new_handle ?b)"
  have at: "lists_at ?H (\<lambda>_. []) h4"
    unfolding lists_at_def
  proof (intro conjI allI impI)
    show "heap_ok h4" by (rule h4(3))
    show "dl False h4 (?H k) []" for k using h4(2,6,7) by (cases k) auto
    show "blocks (?H j) [] \<inter> blocks (?H k) [] = {}" if "j \<noteq> k" for j k using that by (cases j; cases k) (auto simp: new_handle_blocks)
  qed
  have "2 * length [0..<THREADS] \<le> avail h4" using h4(5) assms(2) by simp
  from fill_available_at [OF at, of "[]" "[]" "[0..<THREADS]" adj] this obtain h' ya where
    h': "fill_available adj (ptrs ?H Available) [0..<THREADS] h4 = Inr h'" "lists_at ?H ((\<lambda>_. [])(Available := nodes_to ya)) h'"
      "list_all2 (\<lambda>y n. int_block h' (snd y) n) ya [0..<THREADS]" "distinct (map snd ya)" "\<forall>b \<in> snd ` set ya. b < brk h'"
      "avail h' = avail h4 - 2 * length [0..<THREADS]" by (auto simp del: fun_upd_apply upt_rec_numeral)
  let ?c = "\<lparr>mem = h', clientThreads = (\<lambda>_. Junk), listeners = [], leavers = [], joiner = None, closes = False, exits = False\<rparr>"
  have "server_lists adj h = Inr (case_server_list (list_ptr (new_handle (?b + 6))) (list_ptr (new_handle (?b + 9))) (list_ptr (new_handle ?b)), ?c)"
    using h1(1) h2(1) h3(1) h4(1) h'(1) by (simp add: server_lists_def del: upt_rec_numeral)
  moreover have "case_server_list (list_ptr (new_handle (?b + 6))) (list_ptr (new_handle (?b + 9))) (list_ptr (new_handle ?b)) = ptrs ?H"
    by (rule ext) (simp split: server_list.split)
  moreover have "pool_at ?H started ?c"
  proof (rule pool_atI)
    show "pool_wf started" using started_ok by (simp add: pool_wf_def pool_ids_def) (simp add: started_def)
    show "lists_at ?H ((\<lambda>_. [])(Available := nodes_to ya)) (mem ?c)" using h'(2) by simp
    show "pool_lists id ya ((\<lambda>_. [])(Available := nodes_to ya)) started" by (simp add: pool_lists_def started_def)
    show "pool_blocks (mem ?c) id ya [] started" using h'(3-5) by (simp add: pool_blocks_def started_def own_blocks_def del: upt_rec_numeral)
    show "pool_threads id [] started ?c" by (simp add: pool_threads_def started_def)
  qed
  ultimately show ?thesis using h'(6) h4(5) by (intro exI [of _ ?H] exI [of _ ?c]) simp
qed

section \<open>Runs\<close>

lemma memory_step_at:
  assumes "memory_step (ptrs H) c r" "pool_at H s c" "4 \<le> avail (mem c)" "next_cti s < 2 ^ 31"
  shows "case r of
      Inl e \<Rightarrow> e = UseAfterFree \<and> pool_faults s
    | Inr c' \<Rightarrow> \<exists>s'. pool_step s s' \<and> pool_at H s' c' \<and> avail (mem c) \<le> avail (mem c') + 4 \<and> next_cti s' \<le> next_cti s + 1"
  using assms(1)
proof (cases rule: memory_step.cases)
  case (m_accept sock)
  from accept_client_at [OF assms(2) m_accept(2) assms(3)] obtain c' where
    "accept_client (ptrs H) sock c = Inr c'" "pool_at H (accept_connection (unat sock) s) c'" "avail (mem c) \<le> avail (mem c') + 4" by blast
  moreover have "next_cti (accept_connection (unat sock) s) \<le> next_cti s + 1"
    by (simp add: accept_connection_def find_free_thread_def split: list.split)
  ultimately show ?thesis using m_accept(1) pool_step.accepting [of s "unat sock"] by auto
next
  case (m_leave t')
  from leave_client_at [OF assms(2) m_leave(2)] assms(3) obtain t c' where
    "t \<in> set (listening s)" "leave_client (ptrs H) t' c = Inr c'" "pool_at H (client_gone t s) c'" "avail (mem c) \<le> avail (mem c') + 1" by auto
  then show ?thesis using m_leave(1) pool_step.going [of t s] by (auto simp: client_gone_def intro!: exI [of _ "client_gone t s"])
next
  case (m_close t')
  from close_client_at [OF assms(2) m_close(1) assms(4)] obtain t where t: "t \<in> set (leaving s)" "case close_connected_client t s of
      Inl e \<Rightarrow> close_client (ptrs H) t' c = Some (Inl e) \<and> e = UseAfterFree
    | Inr s' \<Rightarrow> \<exists>c'. close_client (ptrs H) t' c = Some (Inr c') \<and> pool_at H s' c' \<and> avail (mem c') = avail (mem c)" by blast
  show ?thesis
  proof (cases "close_connected_client t s")
    case (Inl e)
    with t m_close(2) show ?thesis by (auto simp: pool_faults_def)
  next
    case (Inr s')
    with t m_close(2) obtain c' where "r = Inr c'" "pool_at H s' c'" "avail (mem c') = avail (mem c)" by auto
    moreover have "next_cti s' = next_cti s" using Inr by (auto simp: close_connected_client_def bind_r_eq_Inr)
    ultimately show ?thesis using pool_step.closing [OF t(1) Inr] by auto
  qed
next
  case m_join
  from join_first_at [OF assms(2) m_join] assms(3) obtain s' c' where
    j: "join_begin s = Some (Inr s')" "r = Inr c'" "pool_at H s' c'" "avail (mem c) \<le> avail (mem c') + 2" by auto
  moreover have "next_cti s' = next_cti s" using j(1) by (auto simp: join_begin_def split: option.splits list.splits)
  ultimately show ?thesis using pool_step.joining [OF j(1)] by auto
next
  case m_joined
  from join_return_at [OF assms(2) m_joined] assms(3) obtain s' c' where
    j: "join_end s = Some s'" "r = Inr c'" "pool_at H s' c'" "avail (mem c) \<le> avail (mem c') + 1" by auto
  moreover have "next_cti s' = next_cti s" using j(1) by (auto simp: join_end_def split: option.splits if_splits)
  ultimately show ?thesis using pool_step.joined [OF j(1)] by auto
next
  case m_shut
  show ?thesis
  proof (cases "close_begin s")
    case (Inl e)
    with close_all_at [OF assms(2)] m_shut show ?thesis by (auto simp: pool_faults_def)
  next
    case (Inr s')
    with close_all_at [OF assms(2)] m_shut obtain c' where "r = Inr c'" "pool_at H s' c'" "avail (mem c') = avail (mem c)" by auto
    moreover have "next_cti s' = next_cti s" using Inr by (auto simp: close_begin_def split: if_splits)
    ultimately show ?thesis using pool_step.shutting [OF Inr] by auto
  qed
next
  case m_exit
  from exit_all_at [OF assms(2) m_exit] obtain s' c' where
    j: "close_end s = Some s'" "r = Inr c'" "pool_at H s' c'" "avail (mem c') = avail (mem c)" by auto
  moreover have "next_cti s' = next_cti s" using j(1) by (auto simp: close_end_def split: if_splits)
  ultimately show ?thesis using pool_step.shut [OF j(1)] by auto
qed

lemma memory_run_at:
  assumes "memory_run (ptrs H) c0 n c" "pool_at H started c0" "4 * n \<le> avail (mem c0)" "n < 2 ^ 31"
  shows "\<exists>s. pool_steps started s \<and> pool_at H s c \<and> avail (mem c0) \<le> avail (mem c) + 4 * n \<and> next_cti s \<le> n"
  using assms(1,3,4)
proof (induction rule: memory_run.induct)
  case m_start
  then show ?case using assms(2) by (intro exI [of _ started]) (simp add: started_def)
next
  case (m_then n c c')
  then obtain s where s: "pool_steps started s" "pool_at H s c" "avail (mem c0) \<le> avail (mem c) + 4 * n" "next_cti s \<le> n" by auto
  have "4 \<le> avail (mem c)" using s(3) m_then.prems(1) by simp
  from memory_step_at [OF m_then.hyps(2) s(2) this] s(4) m_then.prems(2) obtain s' where
    s': "pool_step s s'" "pool_at H s' c'" "avail (mem c) \<le> avail (mem c') + 4" "next_cti s' \<le> next_cti s + 1" by auto
  have "pool_steps started s'" using s(1) s'(1) by simp
  with s s' show ?case by (intro exI [of _ s']) auto
qed

section \<open>Properties\<close>

text \<open>The first operations after a start.\<close>

lemma start_60:
  "\<exists>H c0. server_lists (\<lambda>_. 0) (empty_heap 60) = Inr (ptrs H, c0) \<and> pool_at H started c0 \<and> 28 \<le> avail (mem c0)"
  using server_lists_at [OF heap_ok_empty, of 60 "\<lambda>_. 0"] by (fastforce simp: empty_heap_def)

lemma first_client:
  assumes "pool_at H started c0" "4 \<le> avail (mem c0)" "n < 2 ^ 31"
  shows "\<exists>c. memory_run (ptrs H) c0 1 c \<and> pool_at H (one_client n) c \<and> avail (mem c0) \<le> avail (mem c) + 4"
proof -
  have n: "sint (of_nat n :: u32) = int n" "unat (of_nat n :: u32) = n"
    using assms(3) by (simp_all add: sint_of_nat_small unat_of_nat take_bit_nat_eq_self)
  then have "0 \<le> sint (of_nat n :: u32)" by simp
  from accept_client_at [OF assms(1) this assms(2)] n(2) accept_started [of n] obtain c where
    c: "accept_client (ptrs H) (of_nat n) c0 = Inr c" "pool_at H (one_client n) c" "avail (mem c0) \<le> avail (mem c) + 4" by auto
  have "memory_step (ptrs H) c0 (Inr c)" using memory_step.m_accept [of "of_nat n" "ptrs H" c0] n(1) c(1) by simp
  then have "memory_run (ptrs H) c0 (Suc 0) c" by (rule m_then [OF m_start])
  with c show ?thesis by auto
qed

text \<open>
  C24. A client that connects and leaves is enough for an access to freed memory: its thread publishes its number,
  \<open>join_threads\<close> takes it and frees the block of the thread, and \<open>close_connected_client\<close> reads the socket in that block.
\<close>

theorem leaving_client_faults:
  assumes "n < 2 ^ 31"
  shows "\<exists>H c0 c t. server_lists (\<lambda>_. 0) (empty_heap 60) = Inr (ptrs H, c0) \<and> memory_run (ptrs H) c0 3 c \<and> leavers c = [t] \<and>
    snd t = of_nat n \<and> close_client (ptrs H) t c = Some (Inl UseAfterFree) \<and> close_all (ptrs H) c = Some (Inl UseAfterFree)"
proof -
  from start_60 obtain H c0 where c0: "server_lists (\<lambda>_. 0) (empty_heap 60) = Inr (ptrs H, c0)" "pool_at H started c0"
    "28 \<le> avail (mem c0)" by blast
  from first_client [OF c0(2) _ assms] c0(3) obtain c1 where
    c1: "memory_run (ptrs H) c0 1 c1" "pool_at H (one_client n) c1" "24 \<le> avail (mem c1)" by fastforce
  have "listening (one_client n) = [(0, n)]" by (simp add: one_client_def)
  then obtain t where t: "listeners c1 = [t]" "snd t = of_nat n" using c1(2) by (auto simp: pool_at_def pool_threads_def thread_at_def)
  then have "t \<in> set (listeners c1)" by simp
  note leave = leave_client_at [OF c1(2) this]
  let ?s2 = "client_gone (0, n) (one_client n)"
  from leave c1(3) \<open>listening (one_client n) = [(0, n)]\<close> obtain c2 where
    c2: "leave_client (ptrs H) t c1 = Inr c2" "pool_at H ?s2 c2" "23 \<le> avail (mem c2)" by fastforce
  have run2: "memory_run (ptrs H) c0 2 c2"
    using m_then [OF c1(1), of c2] memory_step.m_leave [OF \<open>t \<in> set (listeners c1)\<close>, of "ptrs H"] c2(1) by (simp add: numeral_2_eq_2)
  have s2: "joining ?s2 = None" "terminatedThreads ?s2 = [0]" "leaving ?s2 = [(0, n)]"
    by (simp_all add: client_gone_def one_client_def started_def)
  obtain r where r: "join_first (ptrs H) c2 = Some r"
  proof -
    from c2(2) s2 obtain xs m ya jb where "lists_at H xs (mem c2)" "pool_lists m ya xs ?s2" "pool_threads m jb ?s2 c2"
      by (auto simp: pool_at_def)
    with s2 isEmpty_at [of H xs "mem c2" Terminated] that show ?thesis by (auto simp: join_first_def pool_lists_def pool_threads_def)
  qed
  let ?s3 = "?s2\<lparr>terminatedThreads := [], cti := (cti ?s2)(0 := None), joining := Some (0, 0)\<rparr>"
  have "join_begin ?s2 = Some (Inr ?s3)" by (simp add: join_begin_def client_gone_def one_client_def started_def)
  with join_first_at [OF c2(2) r] c2(3) obtain c3 where c3: "r = Inr c3" "pool_at H ?s3 c3" by auto
  have run3: "memory_run (ptrs H) c0 3 c3"
    using m_then [OF run2, of c3] memory_step.m_join [OF r] c3(1) by (simp add: numeral_3_eq_3 numeral_2_eq_2)
  have fault: "close_connected_client (0, n) ?s3 = Inl UseAfterFree" "close_begin ?s3 = Inl UseAfterFree"
    by (simp_all add: client_gone_def one_client_def close_connected_client_def close_begin_def started_def)
  from c3(2) s2(3) obtain u where u: "leavers c3 = [u]" "snd u = of_nat n"
    by (auto simp: pool_at_def pool_threads_def thread_at_def)
  have "next_cti ?s3 < 2 ^ 31" by (simp add: client_gone_def one_client_def)
  with close_client_at [OF c3(2), of u] u(1) s2(3) fault(1) have "close_client (ptrs H) u c3 = Some (Inl UseAfterFree)" by auto
  moreover have "close_all (ptrs H) c3 = Some (Inl UseAfterFree)" using close_all_at [OF c3(2)] fault(2) by simp
  ultimately show ?thesis using c0(1) run3 u by blast
qed

text \<open>With the descriptor 5.\<close>

theorem leaving_client_faults_witness:
  "\<exists>H c0 c t. server_lists (\<lambda>_. 0) (empty_heap 60) = Inr (ptrs H, c0) \<and> memory_run (ptrs H) c0 3 c \<and> leavers c = [t] \<and>
    snd t = 5 \<and> close_client (ptrs H) t c = Some (Inl UseAfterFree)"
  using leaving_client_faults [of 5] by auto

text \<open>
  C8. The thread pool works in memory as the abstract pool does, as long as its operations do not overlap: after the start, whatever
  the threads do in any order, one whole operation after the other (a round of \<open>accept_connections\<close>, the publishing of a
  number, \<open>close_connected_client\<close>, half a round of \<open>join_threads\<close>, the loop of \<open>close_server\<close>), the three
  lists, the \<open>clientThreadInfo\<close> blocks and the slots of \<open>clientThreads\<close> represent a reachable
  state of the pool; at most ten threads listen, every loop over a list ends, and the next operation either
  is a step of the pool or accesses a freed block in a state in which the pool does so too. The code does not keep the
  operations apart; \<open>two_clients_leave\<close> and \<open>answers_while_clients_leave\<close> are about the loops that are interrupted.
\<close>

theorem pool_in_memory:
  assumes "heap_ok h" "12 + 2 * THREADS + 4 * N \<le> avail h" "N \<le> 2 ^ 31"
  shows "\<exists>H c0. server_lists adj h = Inr (ptrs H, c0) \<and>
    (\<forall>n c. memory_run (ptrs H) c0 n c \<longrightarrow> n < N \<longrightarrow>
      (\<exists>s. pool_steps started s \<and> pool_at H s c \<and> length (listeners c) \<le> THREADS \<and>
        (\<forall>t \<in> set (leavers c). close_client (ptrs H) t c \<noteq> None) \<and> close_all (ptrs H) c \<noteq> None \<and>
        (\<forall>r. memory_step (ptrs H) c r \<longrightarrow>
          (case r of Inl e \<Rightarrow> e = UseAfterFree \<and> pool_faults s | Inr c' \<Rightarrow> \<exists>s'. pool_step s s' \<and> pool_at H s' c'))))"
proof -
  have "12 + 2 * THREADS \<le> avail h" using assms(2) by simp
  from server_lists_at [OF assms(1) this, of adj] obtain H c0 where
    c0: "server_lists adj h = Inr (ptrs H, c0)" "pool_at H started c0" "avail h \<le> avail (mem c0) + (12 + 2 * THREADS)" by blast
  have "\<exists>s. pool_steps started s \<and> pool_at H s c \<and> length (listeners c) \<le> THREADS \<and>
      (\<forall>t \<in> set (leavers c). close_client (ptrs H) t c \<noteq> None) \<and> close_all (ptrs H) c \<noteq> None \<and>
      (\<forall>r. memory_step (ptrs H) c r \<longrightarrow>
        (case r of Inl e \<Rightarrow> e = UseAfterFree \<and> pool_faults s | Inr c' \<Rightarrow> \<exists>s'. pool_step s s' \<and> pool_at H s' c'))"
    if run: "memory_run (ptrs H) c0 n c" "n < N" for n c
  proof -
    have n: "4 * n \<le> avail (mem c0)" "n < 2 ^ 31" using run(2) c0(3) assms(2,3) by simp_all
    from memory_run_at [OF run(1) c0(2) n] obtain s where
      s: "pool_steps started s" "pool_at H s c" "avail (mem c0) \<le> avail (mem c) + 4 * n" "next_cti s \<le> n" by blast
    have m: "4 \<le> avail (mem c)" "next_cti s < 2 ^ 31" using s(3,4) n(2) run(2) c0(3) assms(2) by simp_all
    have wf: "pool_wf s" "length (listeners c) = length (listening s)" using s(2) by (auto simp: pool_at_def pool_threads_def)
    have "length (listening s) \<le> size (numbers s)" by (simp add: numbers_def)
    also have "\<dots> \<le> size (mset [0..<THREADS])" using wf(1) by (intro size_mset_mono) (simp add: pool_wf_def)
    finally have "length (listeners c) \<le> THREADS" using wf(2) by simp
    moreover have "close_client (ptrs H) t c \<noteq> None" if "t \<in> set (leavers c)" for t
    proof -
      from close_client_at [OF s(2) that m(2)] obtain u where "case close_connected_client u s of
          Inl e \<Rightarrow> close_client (ptrs H) t c = Some (Inl e) \<and> e = UseAfterFree
        | Inr s' \<Rightarrow> \<exists>c'. close_client (ptrs H) t c = Some (Inr c') \<and> pool_at H s' c' \<and> avail (mem c') = avail (mem c)" by blast
      then show ?thesis by (cases "close_connected_client u s") auto
    qed
    moreover have "close_all (ptrs H) c \<noteq> None" using close_all_at [OF s(2)] by (auto split: sum.splits)
    moreover have "case r of Inl e \<Rightarrow> e = UseAfterFree \<and> pool_faults s | Inr c' \<Rightarrow> \<exists>s'. pool_step s s' \<and> pool_at H s' c'"
      if "memory_step (ptrs H) c r" for r
      using memory_step_at [OF that s(2) m] by (auto split: sum.splits)
    ultimately show ?thesis using s(1,2) by blast
  qed
  with c0(1) show ?thesis by blast
qed

text \<open>Accepting a first client on a heap of its own.\<close>

theorem pool_in_memory_witness:
  "\<exists>H c0 c. server_lists (\<lambda>_. 0) (empty_heap 60) = Inr (ptrs H, c0) \<and> memory_run (ptrs H) c0 1 c \<and>
    listeners c \<noteq> [] \<and> length (listeners c) \<le> THREADS"
proof -
  have "12 + 2 * THREADS + 4 * 2 \<le> avail (empty_heap 60)" "(2 :: nat) \<le> 2 ^ 31" by (simp_all add: empty_heap_def)
  from pool_in_memory [OF heap_ok_empty this, of "\<lambda>_. 0"] obtain H c0 where
    c0: "server_lists (\<lambda>_. 0) (empty_heap 60) = Inr (ptrs H, c0)"
    and run: "\<And>n c. memory_run (ptrs H) c0 n c \<Longrightarrow> n < 2 \<Longrightarrow> length (listeners c) \<le> THREADS" by blast
  from start_60 c0 obtain H' where c: "pool_at H' started c0" "28 \<le> avail (mem c0)" "ptrs H' = ptrs H" by auto
  from first_client [OF c(1), of 5] c(2) obtain c1 where c1: "memory_run (ptrs H) c0 1 c1" "pool_at H' (one_client 5) c1" unfolding c(3) by auto
  then have "listeners c1 \<noteq> []" by (auto simp: pool_at_def pool_threads_def one_client_def)
  with c0 c1(1) run [OF c1(1)] show ?thesis by auto
qed

end
