(* ===== verification/Broadcast.thy ===== *)
theory Broadcast
  imports PoolMemoryProps Server
begin

text \<open>
  The loop of \<open>kernel_communication\<close> (OU4/User/server.c) that sends an answer to every client: it walks
  through the list \<open>clients_sockets\<close> in memory without holding a lock, while clients come and go.
\<close>

section \<open>The loop\<close>

text \<open>One look at the list: the socket behind the position \<open>p\<close>, and the next position.\<close>

definition send_at :: "ptr \<Rightarrow> byte list PDU_struct \<Rightarrow> ptr \<Rightarrow> heap \<Rightarrow> 'h system \<Rightarrow> (ptr \<times> heap \<times> 'h system) res" where
  "send_at l pdu p h s =
     bind_r (llist_inspect p l h) (\<lambda>(d, h).
     bind_r (read_int d h) (\<lambda>temp_socket.
     bind_r (send_pdu temp_socket pdu s) (\<lambda>s.
     bind_r (llist_next p h) (\<lambda>p. Inr (p, h, s)))))"

partial_function (option) send_loop ::
  "ptr \<Rightarrow> byte list PDU_struct \<Rightarrow> ptr \<Rightarrow> u32 \<Rightarrow> heap \<Rightarrow> 'h system \<Rightarrow> (heap \<times> 'h system) res option" where
  "send_loop l pdu p i h s =
     (case list_length l h of
        None \<Rightarrow> None
      | Some (Inl e) \<Rightarrow> Some (Inl e)
      | Some (Inr (n, h)) \<Rightarrow>
          if \<not> sint i < sint n then Some (Inr (h, s))
          else (case send_at l pdu p h s of
                  Inl e \<Rightarrow> Some (Inl e)
                | Inr (p, h, s) \<Rightarrow> send_loop l pdu p (i + 1) h s))"

definition send_clients :: "ptr \<Rightarrow> byte list PDU_struct \<Rightarrow> heap \<Rightarrow> 'h system \<Rightarrow> (heap \<times> 'h system) res option" where
  "send_clients l pdu h s =
     (case llist_first l h of
        Inl e \<Rightarrow> Some (Inl e)
      | Inr p \<Rightarrow> send_loop l pdu p 0 h s)"

section \<open>Sockets in a list\<close>

text \<open>The items of the list \<open>Clients\<close> point to these sockets.\<close>

definition sockets_at :: "(server_list \<Rightarrow> handle) \<Rightarrow> (server_list \<Rightarrow> (nat \<times> ptr) list) \<Rightarrow> heap \<Rightarrow> u32 list \<Rightarrow> bool" where
  "sockets_at H xs h vs \<longleftrightarrow> lists_at H xs h \<and> list_all2 (\<lambda>z v. read_int (snd z) h = Inr v) (xs Clients) vs \<and>
     length vs < 2 ^ 31"

definition sent_to :: "u32 list \<Rightarrow> byte list PDU_struct \<Rightarrow> heap \<Rightarrow> 'h system \<Rightarrow> (heap \<times> 'h system) res option" where
  "sent_to vs pdu h s = Some (bind_r (send_all vs pdu s) (\<lambda>s. Inr (h, s)))"

lemma llist_next_at:
  assumes "lists_at H xs h" "xs k = ys @ (a, d) # zs"
  shows "llist_next (Ptr a 0) h = Inr (first_ptr zs Null)"
  using lists_atD(2) [OF assms(1), of k] assms(2) by (cases "H k") (simp add: dl.simps llist_next_def nxt_of_def)

lemma send_loop_at:
  assumes "lists_at H xs h" "xs Clients = ys @ zs" "list_all2 (\<lambda>z v. read_int (snd z) h = Inr v) zs vs" "length ys \<le> k"
    "length (xs Clients) < 2 ^ 31" "k < 2 ^ 31"
  shows "send_loop (ptrs H Clients) pdu (first_ptr zs Null) (of_nat k) h s = sent_to (take (length (xs Clients) - k) vs) pdu h s"
  using assms(2-4,6)
proof (induction zs arbitrary: ys vs k s)
  case Nil
  then show ?case using length_at [OF assms(1), of Clients] assms(5)
    by (subst send_loop.simps) (simp add: sint_of_nat_small sent_to_def)
next
  case (Cons z zs)
  obtain a d where z: "z = (a, d)" by (cases z)
  from Cons.prems(2) obtain v vs' where v: "vs = v # vs'" "read_int d h = Inr v" "list_all2 (\<lambda>z v. read_int (snd z) h = Inr v) zs vs'"
    by (auto simp: list_all2_Cons1 z)
  have n: "sint (of_nat (length (xs Clients)) :: u32) = int (length (xs Clients))" "sint (of_nat k :: u32) = int k"
    using assms(5) Cons.prems(4) by (intro sint_of_nat_small; simp)+
  note step = send_loop.simps [of "ptrs H Clients" pdu "Ptr a 0" "of_nat k" h s] length_at [OF assms(1), of Clients]
  show ?case
  proof (cases "k < length (xs Clients)")
    case False
    with step n show ?thesis by (simp add: z sent_to_def)
  next
    case True
    have ins: "llist_inspect (Ptr a 0) (ptrs H Clients) h = Inr (d, h)"
      using inspect_at [OF assms(1), of a d Clients] Cons.prems(1) z by simp
    have nx: "llist_next (Ptr a 0) h = Inr (first_ptr zs Null)" by (rule llist_next_at [OF assms(1)]) (use Cons.prems(1) z in simp)
    have tk: "take (length (xs Clients) - k) vs = v # take (length (xs Clients) - (k + 1)) vs'"
      using True v(1) by (simp add: take_Cons' Suc_diff_Suc)
    have "k + 1 < 2 ^ 31" using True assms(5) by simp
    have IH: "send_loop (ptrs H Clients) pdu (first_ptr zs Null) (of_nat (k + 1)) h s' =
        sent_to (take (length (xs Clients) - (k + 1)) vs') pdu h s'" for s' :: "'a system"
      by (rule Cons.IH [of "ys @ [z]"]) (use Cons.prems v(3) \<open>k + 1 < 2 ^ 31\<close> in auto)
    show ?thesis
    proof (cases "send_pdu v pdu s")
      case (Inl e)
      with step n True ins v(2) tk show ?thesis by (simp add: z send_at_def sent_to_def)
    next
      case (Inr s')
      with step n True ins v(2) tk nx IH [of s'] show ?thesis by (simp add: z send_at_def sent_to_def add.commute)
    qed
  qed
qed

lemma read_int_plain:
  assumes "heap_ok h" "read_int d h = Inr v" "plain_same h h'"
  shows "read_int d h' = Inr v"
proof -
  from assms(2) obtain bs where "read_mem d 4 h = Inr bs" "v = un_le32 bs" by (auto simp: read_int_def bind_r_eq_Inr)
  moreover from this(1) obtain a off c where "d = Ptr a off" "cells h a = Some (CChunk c)" by (rule read_mem_InrE)
  moreover from this(2) assms(1,3) have "cells h' a = cells h a"
    unfolding plain_same_def plain_def heap_ok_def by (metis not_less option.simps(3))
  ultimately show ?thesis by (simp add: read_int_def) (metis addr_of_def ptr.simps(9) read_mem_cong bind_r_Inr)
qed

lemma sockets_plain:
  "list_all2 (\<lambda>z v. read_int (snd z) h = Inr v) zs vs \<Longrightarrow> heap_ok h \<Longrightarrow> plain_same h h' \<Longrightarrow>
   list_all2 (\<lambda>z v. read_int (snd z) h' = Inr v) zs vs"
  by (erule list_all2_mono) (rule read_int_plain)


section \<open>Clients that leave during the loop\<close>

lemma close_loop_finds:
  assumes "lists_at H xs h" "xs Clients = ys @ zs @ (a, d) # ws" "list_all2 (\<lambda>z v. read_int (snd z) h = Inr v) zs us"
    "read_int d h = Inr w" "w \<notin> set us" "length (xs Clients) < 2 ^ 31"
  shows "close_client_loop (ptrs H Clients) w (first_ptr (zs @ (a, d) # ws) Null) (of_nat (length ys)) h =
    Some (bind_r (llist_remove (ptrs H Clients) (Ptr a 0) h) (\<lambda>(q, h). Inr h))"
  using assms(2,3,5)
proof (induction zs arbitrary: ys us)
  case Nil
  have n: "sint (of_nat (length ys) :: u32) < sint (of_nat (length (xs Clients)) :: u32)"
    using Nil.prems(1) assms(6) by (subst (1 2) sint_of_nat_small) simp_all
  have "llist_inspect (Ptr a 0) (ptrs H Clients) h = Inr (d, h)" using inspect_at [OF assms(1), of a d Clients] Nil.prems(1) by simp
  with n length_at [OF assms(1), of Clients] assms(4) show ?case by (subst close_client_loop.simps) simp
next
  case (Cons z zs)
  obtain b e where z: "z = (b, e)" by (cases z)
  from Cons.prems(2) obtain u us' where u: "us = u # us'" "read_int e h = Inr u" "list_all2 (\<lambda>z v. read_int (snd z) h = Inr v) zs us'"
    by (auto simp: list_all2_Cons1 z)
  have n: "sint (of_nat (length ys) :: u32) < sint (of_nat (length (xs Clients)) :: u32)"
    using Cons.prems(1) assms(6) by (subst (1 2) sint_of_nat_small) simp_all
  have "llist_inspect (Ptr b 0) (ptrs H Clients) h = Inr (e, h)" using inspect_at [OF assms(1), of b e Clients] Cons.prems(1) z by simp
  moreover have "llist_next (Ptr b 0) h = Inr (first_ptr (zs @ (a, d) # ws) Null)"
    by (rule llist_next_at [OF assms(1)]) (use Cons.prems(1) z in simp)
  moreover have "w \<noteq> u" using Cons.prems(3) u(1) by auto
  moreover have "close_client_loop (ptrs H Clients) w (first_ptr (zs @ (a, d) # ws) Null) (of_nat (length (ys @ [z]))) h =
      Some (bind_r (llist_remove (ptrs H Clients) (Ptr a 0) h) (\<lambda>(q, h). Inr h))"
    by (rule Cons.IH) (use Cons.prems u in auto)
  ultimately show ?case using n length_at [OF assms(1), of Clients] u(2)
    by (subst close_client_loop.simps) (simp add: z add.commute)
qed

text \<open>\<open>close_connected_client\<close> takes the first client with the socket out of the list.\<close>

lemma close_connected_at:
  assumes "sockets_at H xs h (us @ w # vs)" "w \<notin> set us" "xs Clients = ys @ (a, d) # zs" "length ys = length us"
  shows "\<exists>h'. close_connected (ptrs H Clients) w h = Some (Inr h') \<and> lists_at H (xs(Clients := ys @ zs)) h' \<and> cells h' a = None \<and>
    plain_same h h'"
proof -
  have at: "lists_at H xs h" "length (xs Clients) < 2 ^ 31" "list_all2 (\<lambda>z v. read_int (snd z) h = Inr v) ys us" "read_int d h = Inr w"
    using assms(1,3,4) list_all2_lengthD by (fastforce simp: sockets_at_def list_all2_append)+
  from remove_at [where k = Clients, OF at(1) assms(3)] obtain h' where
    h': "llist_remove (ptrs H Clients) (Ptr a 0) h = Inr (first_ptr zs Null, h')" "lists_at H (xs(Clients := ys @ zs)) h'"
      "cells h' a = None" "plain_same h h'" by blast
  have "llist_first (ptrs H Clients) h = Inr (first_ptr (xs Clients) Null)" by (rule llist_first_dl [OF lists_atD(2) [OF at(1)]])
  with close_loop_finds [OF at(1) _ at(3,4) assms(2) at(2), of "[]" a zs] assms(3) h'(1)
  have "close_connected (ptrs H Clients) w h = Some (Inr h')" by (simp add: close_connected_def)
  with h' show ?thesis by blast
qed

lemma inspect_freed:
  assumes "lists_at H xs h" "xs k \<noteq> []" "cells h a = None"
  shows "llist_inspect (Ptr a 0) (list_ptr (H k)) h = Inl UseAfterFree"
proof -
  have dl: "dl False h (H k) (xs k)" by (rule lists_atD(2) [OF assms(1)])
  from lock_unlock_id [OF dl] obtain h1 where h1: "pthread_mutex_lock (list_ptr (H k)) h = Inr h1" "dl True h1 (H k) (xs k)"
    "pthread_mutex_unlock (list_ptr (H k)) h1 = Inr h" by blast
  with llist_isEmpty_dl [OF h1(2)] assms(2,3) show ?thesis by (simp add: llist_inspect_def dat_of_def)
qed

text \<open>The pool in memory has such a list, as long as no client in it has lost its block.\<close>

lemma pool_sockets:
  assumes "pool_at H s c" "\<forall>i \<in> set (pool.clients_sockets s). cti s i \<noteq> None" "next_cti s < 2 ^ 31"
  shows "\<exists>xs. sockets_at H xs (mem c) (map (\<lambda>i. of_nat (client_sock (the (cti s i)))) (pool.clients_sockets s))"
proof -
  from assms(1) obtain xs m ya jb where wf: "pool_wf s" and at: "lists_at H xs (mem c)" "pool_lists m ya xs s"
    "pool_blocks (mem c) m ya jb s" by (auto simp: pool_at_def)
  have ids: "pool_ids s" using wf by (simp add: pool_wf_def)
  have cl: "map snd (xs Clients) = map (\<lambda>i. Ptr (m i) 4) (pool.clients_sockets s)" using at(2) by (simp add: pool_lists_def)
  have "read_int (Ptr (m i) 4) (mem c) = Inr (of_nat (client_sock (the (cti s i))))" if "i \<in> set (pool.clients_sockets s)" for i
  proof -
    have "i < next_cti s" using ids that by (simp add: pool_ids_def)
    from info_of_client [OF at(3) ids this] assms(2) that obtain info where "cti s i = Some info" "info_block (mem c) (m i) info"
      by (cases "cti s i") auto
    with read_sock_block show ?thesis by simp
  qed
  then have "list_all2 (\<lambda>d v. read_int d (mem c) = Inr v) (map snd (xs Clients)) (map (\<lambda>i. of_nat (client_sock (the (cti s i)))) (pool.clients_sockets s))"
    unfolding cl by (simp add: list_all2_conv_all_nth)
  then have "list_all2 (\<lambda>z v. read_int (snd z) (mem c) = Inr v) (xs Clients) (map (\<lambda>i. of_nat (client_sock (the (cti s i)))) (pool.clients_sockets s))"
    by (simp add: list_all2_map1)
  moreover have "length (pool.clients_sockets s) < 2 ^ 31" using ids assms(3) by (simp add: pool_ids_def)
  ultimately show ?thesis using at(1) by (auto simp: sockets_at_def)
qed

text \<open>
  C10. The loop that sends an answer to the clients. With nobody leaving, it sends to all of them, in order. A client that
  leaves (\<open>close_connected_client\<close> in its own thread) while the loop is at the position of \<open>v\<close>: if it is one that has its
  answer already, the counter runs ahead of the shorter list and the last client gets no answer; if it is \<open>v\<close> itself, the loop goes on
  from a freed node, except at the end of the list; if it is a later one, all others get the answer.
\<close>

theorem answers_while_clients_leave:
  assumes "sockets_at H xs h (us @ v # vs)" "distinct (us @ v # vs)" "xs Clients = ys @ (a, d) # zs" "length ys = length us"
    "w \<in> set (us @ v # vs)"
  shows "send_clients (ptrs H Clients) pdu h s = sent_to (us @ v # vs) pdu h s \<and>
    (\<exists>h'. close_connected (ptrs H Clients) w h = Some (Inr h') \<and>
      send_loop (ptrs H Clients) pdu (Ptr a 0) (of_nat (length us)) h' s =
        (if w \<in> set us then sent_to (butlast (v # vs)) pdu h' s
         else if w = v then (if vs = [] then sent_to [] pdu h' s else Some (Inl UseAfterFree))
         else sent_to (v # remove1 w vs) pdu h' s))"
proof
  have at: "lists_at H xs h" "list_all2 (\<lambda>z v. read_int (snd z) h = Inr v) (xs Clients) (us @ v # vs)" "length (xs Clients) < 2 ^ 31"
    using assms(1) list_all2_lengthD by (fastforce simp: sockets_at_def)+
  have all2: "list_all2 (\<lambda>z v. read_int (snd z) h = Inr v) ys us" "read_int d h = Inr v"
    "list_all2 (\<lambda>z v. read_int (snd z) h = Inr v) zs vs" using at(2) assms(3,4) by (simp_all add: list_all2_append)
  have len: "length zs = length vs" "length (xs Clients) = length us + 1 + length vs"
    using list_all2_lengthD [OF all2(3)] assms(3,4) by simp_all
  have ok: "heap_ok h" using lists_atD(1) [OF at(1)] .
  show "send_clients (ptrs H Clients) pdu h s = sent_to (us @ v # vs) pdu h s"
    using send_loop_at [OF at(1) _ at(2), of "[]" 0 pdu s] at(3) list_all2_lengthD [OF at(2)] llist_first_dl [OF lists_atD(2) [OF at(1)], of Clients]
    by (simp add: send_clients_def)
  let ?l = "ptrs H Clients"
  let ?result = "\<lambda>h'. if w \<in> set us then sent_to (butlast (v # vs)) pdu h' s
    else if w = v then (if vs = [] then sent_to [] pdu h' s else Some (Inl UseAfterFree)) else sent_to (v # remove1 w vs) pdu h' s"
  have read: "list_all2 (\<lambda>z v. read_int (snd z) h' = Inr v) zs' vs'"
    if "list_all2 (\<lambda>z v. read_int (snd z) h = Inr v) zs' vs'" "plain_same h h'" for zs' vs' h'
    by (rule sockets_plain [OF that(1) ok that(2)])
  consider "w \<in> set us" | "w = v" | "w \<in> set vs" using assms(5) by auto
  then show "\<exists>h'. close_connected ?l w h = Some (Inr h') \<and> send_loop ?l pdu (Ptr a 0) (of_nat (length us)) h' s = ?result h'"
  proof cases
    case 1
    then obtain us1 us2 where us: "us = us1 @ w # us2" "w \<notin> set us1" by (meson split_list_first)
    with all2(1) obtain ys1 y ys2 where ys: "ys = ys1 @ y # ys2" "length ys1 = length us1" "length ys2 = length us2"
      by (auto simp: list_all2_append2 list_all2_Cons2 dest: list_all2_lengthD)
    obtain b e where y: "y = (b, e)" by (cases y)
    from close_connected_at [of H xs h us1 w "us2 @ v # vs" ys1 b e "ys2 @ (a, d) # zs"] assms(1,3) us ys y obtain h' where
      h': "close_connected ?l w h = Some (Inr h')" "lists_at H (xs(Clients := ys1 @ ys2 @ (a, d) # zs)) h'" "plain_same h h'" by auto
    have "send_loop ?l pdu (first_ptr ((a, d) # zs) Null) (of_nat (length us)) h' s =
        sent_to (take (length ((xs(Clients := ys1 @ ys2 @ (a, d) # zs)) Clients) - length us) (v # vs)) pdu h' s"
      by (rule send_loop_at [OF h'(2), of "ys1 @ ys2"]) (use us ys all2 read [OF _ h'(3), of "(a, d) # zs" "v # vs"] at(3) len in auto)
    moreover have "take (length ((xs(Clients := ys1 @ ys2 @ (a, d) # zs)) Clients) - length us) (v # vs) = butlast (v # vs)"
      using us ys len(1) by (simp add: butlast_conv_take del: butlast.simps)
    ultimately show ?thesis using h'(1) 1 by (simp del: butlast.simps)
  next
    case 2
    then have w: "w \<notin> set us" using assms(2) by auto
    from close_connected_at [OF assms(1) [folded 2] w assms(3,4)] obtain h' where
      h': "close_connected ?l w h = Some (Inr h')" "lists_at H (xs(Clients := ys @ zs)) h'" "cells h' a = None" by blast
    have n: "sint (of_nat (length us) :: u32) = int (length us)" "sint (of_nat (length (ys @ zs)) :: u32) = int (length us + length vs)"
      using len at(3) assms(4) sint_of_nat_small [of "length us"] sint_of_nat_small [of "length us + length vs"] by simp_all
    note step = send_loop.simps [of ?l pdu "Ptr a 0" "of_nat (length us)" h' s] length_at [OF h'(2), of Clients]
    show ?thesis
    proof (cases "vs = []")
      case True
      with step n have "send_loop ?l pdu (Ptr a 0) (of_nat (length us)) h' s = sent_to [] pdu h' s" by (simp add: sent_to_def)
      with h'(1) True 2 w show ?thesis by simp
    next
      case False
      then have "(xs(Clients := ys @ zs)) Clients \<noteq> []" using len(1) by auto
      from inspect_freed [OF h'(2) this h'(3)] step n False
      have "send_loop ?l pdu (Ptr a 0) (of_nat (length us)) h' s = Some (Inl UseAfterFree)" by (simp add: send_at_def)
      with h'(1) False 2 w show ?thesis by simp
    qed
  next
    case 3
    then obtain vs1 vs2 where vs: "vs = vs1 @ w # vs2" "w \<notin> set vs1" by (meson split_list_first)
    with all2(3) obtain zs1 z zs2 where zs: "zs = zs1 @ z # zs2" "length zs1 = length vs1" "length zs2 = length vs2"
      "list_all2 (\<lambda>z v. read_int (snd z) h = Inr v) zs1 vs1" "list_all2 (\<lambda>z v. read_int (snd z) h = Inr v) zs2 vs2"
      by (auto simp: list_all2_append2 list_all2_Cons2 dest: list_all2_lengthD)
    obtain b e where z: "z = (b, e)" by (cases z)
    have w: "w \<notin> set us" "w \<noteq> v" using assms(2) 3 by auto
    from close_connected_at [of H xs h "us @ v # vs1" w vs2 "ys @ (a, d) # zs1" b e zs2] assms(1,3,4) vs zs z w obtain h' where
      h': "close_connected ?l w h = Some (Inr h')" "lists_at H (xs(Clients := ys @ (a, d) # zs1 @ zs2)) h'" "plain_same h h'" by auto
    have "send_loop ?l pdu (first_ptr ((a, d) # zs1 @ zs2) Null) (of_nat (length us)) h' s =
        sent_to (take (length ((xs(Clients := ys @ (a, d) # zs1 @ zs2)) Clients) - length us) (v # vs1 @ vs2)) pdu h' s"
      by (rule send_loop_at [OF h'(2), of ys]) (use vs zs all2 assms(4) list_all2_appendI [OF zs(4,5)] read [OF _ h'(3), of "(a, d) # zs1 @ zs2" "v # vs1 @ vs2"] at(3) len in auto)
    moreover have "take (length ((xs(Clients := ys @ (a, d) # zs1 @ zs2)) Clients) - length us) (v # vs1 @ vs2) = v # remove1 w vs"
      using vs zs assms(4) by (simp add: remove1_append)
    ultimately show ?thesis using h'(1) w by simp
  qed
qed


text \<open>Two clients that have just been accepted.\<close>

lemma two_sockets: "\<exists>H xs h. sockets_at H xs h [5, 6]"
proof -
  from start_60 obtain H c0 where c0: "pool_at H started c0" "28 \<le> avail (mem c0)" by blast
  from first_client [OF c0(1), of 5] c0(2) obtain c1 where c1: "pool_at H (one_client 5) c1" "24 \<le> avail (mem c1)" by fastforce
  let ?s = "accept_connection 6 (one_client 5)"
  have sock: "0 \<le> sint (6 :: u32)" "unat (6 :: u32) = 6" by simp_all
  have "4 \<le> avail (mem c1)" using c1(2) by simp
  from accept_client_at [OF c1(1) sock(1) this] sock(2) obtain c2 where c2: "pool_at H ?s c2" by auto
  have u: "[Suc 0..<THREADS] = Suc 0 # [Suc (Suc 0)..<THREADS]" by (rule upt_conv_Cons) simp
  have s2: "pool.clients_sockets ?s = [0, 1]" "client_sock (the (cti ?s 0)) = 5" "client_sock (the (cti ?s 1)) = 6"
    "\<forall>i \<in> set (pool.clients_sockets ?s). cti ?s i \<noteq> None" "next_cti ?s < 2 ^ 31"
    by (simp_all add: accept_connection_def find_free_thread_def one_client_def started_def u)
  from pool_sockets [OF c2 s2(4,5)] s2(1-3) obtain xs where "sockets_at H xs (mem c2) [5, 6]" by auto
  then show ?thesis by blast
qed

text \<open>The first of two clients leaves while the loop is at it.\<close>

theorem answers_while_clients_leave_witness:
  "\<exists>H h h' p. close_connected (ptrs H Clients) 5 h = Some (Inr h') \<and>
    (\<forall>pdu (s :: unit system). send_clients (ptrs H Clients) pdu h s = sent_to [5, 6] pdu h s \<and>
      send_loop (ptrs H Clients) pdu p 0 h' s = Some (Inl UseAfterFree))"
proof -
  from two_sockets obtain H xs h where xs: "sockets_at H xs h ([] @ 5 # [6])" by auto
  then obtain a d zs where z: "xs Clients = [] @ (a, d) # zs" by (cases "xs Clients") (auto simp: sockets_at_def)
  have "distinct ([] @ 5 # [6 :: u32])" "(5 :: u32) \<in> set ([] @ 5 # [6])" by simp_all
  note run = answers_while_clients_leave [OF xs this(1) z _ this(2), simplified]
  from run obtain h' where "close_connected (ptrs H Clients) 5 h = Some (Inr h')" by blast
  moreover from this run have "send_clients (ptrs H Clients) pdu h s = sent_to [5, 6] pdu h s"
    "send_loop (ptrs H Clients) pdu (Ptr a 0) 0 h' s = Some (Inl UseAfterFree)" for pdu and s :: "unit system" by auto
  ultimately show ?thesis by blast
qed

end
