(* ===== verification/Leavers.thy ===== *)
theory Leavers
  imports Broadcast
begin

text \<open>
  Two threads at the list \<open>clients_sockets\<close> at once: \<open>close_connected_client\<close> (OU4/User/server.c) walks through
  it without a lock, while the thread of another client, or \<open>close_server\<close>, takes out a node.
\<close>

section \<open>The walk\<close>

lemma sockets_removed:
  assumes "sockets_at H xs h (us @ u # vs)" "xs Clients = ys @ z # zs" "length ys = length us"
    "lists_at H (xs(Clients := ys @ zs)) h'" "plain_same h h'"
  shows "sockets_at H (xs(Clients := ys @ zs)) h' (us @ vs)"
proof -
  have "lists_at H xs h" "list_all2 (\<lambda>z v. read_int (snd z) h = Inr v) (ys @ zs) (us @ vs)"
    using assms(1-3) by (auto simp: sockets_at_def list_all2_append)
  with sockets_plain [OF this(2) lists_atD(1) [OF this(1)] assms(5)] assms(1,4) show ?thesis by (simp add: sockets_at_def)
qed

text \<open>A walk from any position with any counter.\<close>

lemma walk_at:
  assumes "sockets_at H xs h (us @ vs)" "xs Clients = ys @ zs" "length ys = length us" "length us \<le> k" "k < 2 ^ 31"
  shows "if w \<in> set (take (length us + length vs - k) vs)
    then \<exists>xs' h'. close_client_loop (ptrs H Clients) w (first_ptr zs Null) (of_nat k) h = Some (Inr h') \<and>
      sockets_at H xs' h' (us @ remove1 w vs)
    else close_client_loop (ptrs H Clients) w (first_ptr zs Null) (of_nat k) h = Some (Inr h)"
  using assms
proof (induction zs arbitrary: us vs ys k)
  case Nil
  have "lists_at H xs h" "length (ys @ []) = length (us @ vs)" using Nil.prems(1,2) by (auto simp: sockets_at_def dest: list_all2_lengthD)
  then have "lists_at H xs h" "vs = []" using Nil.prems(3) by simp_all
  with length_at [OF this(1), of Clients] Nil.prems(2-5) sint_of_nat_small [of k] sint_of_nat_small [of "length us"] show ?case
    by (subst close_client_loop.simps) (simp add: sockets_at_def)
next
  case (Cons z zs)
  obtain a d where z: "z = (a, d)" by (cases z)
  have at: "lists_at H xs h" using Cons.prems(1) by (simp add: sockets_at_def)
  obtain v vs' where v: "vs = v # vs'" "read_int d h = Inr v" "length zs = length vs'"
    using Cons.prems(1-3) by (auto simp: sockets_at_def list_all2_append list_all2_Cons1 z dest: list_all2_lengthD)
  have n: "sint (of_nat (length (xs Clients)) :: u32) = int (length us + length vs)" "sint (of_nat k :: u32) = int k"
    using Cons.prems v(1,3) sint_of_nat_small [of k] sint_of_nat_small [of "length us + length vs"] by (simp_all add: sockets_at_def)
  note step = close_client_loop.simps [of "ptrs H Clients" w "Ptr a 0" "of_nat k" h] length_at [OF at, of Clients] n
  have ins: "llist_inspect (Ptr a 0) (ptrs H Clients) h = Inr (d, h)"
    using inspect_at [OF at, of a d Clients] Cons.prems(2) z by simp
  show ?case
  proof (cases "k < length us + length vs")
    case False
    with step show ?thesis by (simp add: z)
  next
    case True
    show ?thesis
    proof (cases "w = v")
      case w: True
      from remove_at [where k = Clients, OF at, of ys a d zs] Cons.prems(2) z obtain h' where
        h': "llist_remove (ptrs H Clients) (Ptr a 0) h = Inr (first_ptr zs Null, h')" "lists_at H (xs(Clients := ys @ zs)) h'"
          "plain_same h h'" by auto
      have "sockets_at H (xs(Clients := ys @ zs)) h' (us @ vs')"
        by (rule sockets_removed [OF Cons.prems(1) [unfolded v(1)] Cons.prems(2,3) h'(2,3)])
      moreover have "v \<in> set (take (length us + length vs - k) vs)" using True v(1) by (simp add: take_Cons')
      ultimately show ?thesis using step True ins v h'(1) w by (auto simp: z)
    next
      case False
      have nx: "llist_next (Ptr a 0) h = Inr (first_ptr zs Null)" by (rule llist_next_at [OF at]) (use Cons.prems(2) z in simp)
      have "if w \<in> set (take (length (us @ [v]) + length vs' - (k + 1)) vs')
        then \<exists>xs' h'. close_client_loop (ptrs H Clients) w (first_ptr zs Null) (of_nat (k + 1)) h = Some (Inr h') \<and>
          sockets_at H xs' h' ((us @ [v]) @ remove1 w vs')
        else close_client_loop (ptrs H Clients) w (first_ptr zs Null) (of_nat (k + 1)) h = Some (Inr h)"
        by (rule Cons.IH [of "us @ [v]" vs' "ys @ [z]"]) (use Cons.prems v(1) True in \<open>simp_all add: sockets_at_def\<close>)
      moreover have "length (us @ [v]) + length vs' - (k + 1) = length us + length vs' - k" by simp
      moreover have "close_client_loop (ptrs H Clients) w (Ptr a 0) (of_nat k) h =
          close_client_loop (ptrs H Clients) w (first_ptr zs Null) (of_nat (k + 1)) h"
        using step True ins v nx False by (simp add: add.commute)
      moreover have "take (length us + length vs - k) vs = v # take (length us + length vs' - k) vs'"
        using True v(1) Cons.prems(4) by (simp add: take_Cons' Suc_diff_le)
      ultimately show ?thesis using False v(1) unfolding z
        by (cases "w \<in> set (take (length us + length vs' - k) vs')") (simp_all add: add.commute)
    qed
  qed
qed

text \<open>A node is taken out by the thread of its client, or by \<open>close_server\<close> at the front.\<close>

definition taking_out :: "ptr \<Rightarrow> u32 \<Rightarrow> u32 list \<Rightarrow> heap \<Rightarrow> heap res option set" where
  "taking_out l u vs h = {close_connected l u h} \<union>
     (if u = hd vs then {Some (bind_r (llist_removefirst l h) (\<lambda>(temp_socket, h). Inr h))} else {})"

lemma taken_out:
  assumes "sockets_at H xs h (us @ u # vs)" "u \<notin> set us" "xs Clients = ys @ (a, d) # zs" "length ys = length us"
    "r \<in> taking_out (ptrs H Clients) u (us @ u # vs) h"
  shows "\<exists>h'. r = Some (Inr h') \<and> sockets_at H (xs(Clients := ys @ zs)) h' (us @ vs) \<and> cells h' a = None"
proof -
  have "\<exists>h'. r = Some (Inr h') \<and> lists_at H (xs(Clients := ys @ zs)) h' \<and> cells h' a = None \<and> plain_same h h'"
  proof (cases "r = close_connected (ptrs H Clients) u h")
    case True
    with close_connected_at [OF assms(1-4)] show ?thesis by blast
  next
    case False
    with assms(5) have r: "r = Some (bind_r (llist_removefirst (ptrs H Clients) h) (\<lambda>(temp_socket, h). Inr h))"
      and "u = hd (us @ u # vs)" by (auto simp: taking_out_def split: if_splits)
    with assms(2,4) have us: "us = []" "ys = []" by (cases us; simp)+
    have at: "lists_at H xs h" "read_int d h = Inr u" using assms(1,3) us by (auto simp: sockets_at_def)
    then obtain bs where "read_mem d 4 h = Inr bs" by (auto simp: read_int_def bind_r_eq_Inr)
    from remove_first_at [OF at(1) assms(3) [unfolded us append_Nil] this] r show ?thesis using us by auto
  qed
  with sockets_removed [OF assms(1,3,4)] show ?thesis by blast
qed

text \<open>The walk of \<open>w\<close> is at \<open>v\<close> when the node of \<open>u\<close> is taken out, in one of three places.\<close>

lemma walk_behind:
  assumes "sockets_at H xs h ((p @ u # q) @ v # vs)" "distinct ((p @ u # q) @ v # vs)" "xs Clients = ys @ (a, d) # zs"
    "length ys = length (p @ u # q)" "w \<in> set (v # vs)" "r \<in> taking_out (ptrs H Clients) u ((p @ u # q) @ v # vs) h"
  shows "\<exists>h' xs'' h''. r = Some (Inr h') \<and>
    close_client_loop (ptrs H Clients) w (Ptr a 0) (of_nat (length (p @ u # q))) h' = Some (Inr h'') \<and>
    sockets_at H xs'' h'' (p @ q @ (if w = last (v # vs) then v # vs else remove1 w (v # vs)))"
proof -
  have split: "\<exists>yp b e yq. ys = yp @ (b, e) # yq \<and> length yp = length p \<and> length yq = length q"
    using id_take_nth_drop [of "length p" ys] assms(4)
    by (intro exI [of _ "take (length p) ys"] exI [of _ "fst (ys ! length p)"] exI [of _ "snd (ys ! length p)"]
      exI [of _ "drop (Suc (length p)) ys"]) simp
  then obtain yp b e yq where y: "ys = yp @ (b, e) # yq" "length yp = length p" "length yq = length q" by blast
  have L: "sockets_at H xs h (p @ u # q @ v # vs)" "u \<notin> set p" "xs Clients = yp @ (b, e) # yq @ (a, d) # zs"
    "r \<in> taking_out (ptrs H Clients) u (p @ u # q @ v # vs) h" using assms(1-3,6) y(1) by simp_all
  from taken_out [OF L(1-3) y(2) L(4)] obtain h' where
    h': "r = Some (Inr h')" "sockets_at H (xs(Clients := yp @ yq @ (a, d) # zs)) h' ((p @ q) @ v # vs)" by auto
  let ?k = "length (p @ u # q)"
  have k: "?k < 2 ^ 31" using L(1) by (simp add: sockets_at_def)
  have t: "take (length (p @ q) + length (v # vs) - ?k) (v # vs) = butlast (v # vs)" by (simp add: butlast_conv_take)
  have last: "w \<in> set (butlast (v # vs)) \<longleftrightarrow> w \<noteq> last (v # vs)"
  proof (cases "v # vs" rule: rev_cases)
    case (snoc bs x)
    moreover have "distinct (v # vs)" using assms(2) by simp
    ultimately show ?thesis using assms(5) by auto
  qed simp
  have "if w \<in> set (take (length (p @ q) + length (v # vs) - ?k) (v # vs))
    then \<exists>xs' h''. close_client_loop (ptrs H Clients) w (first_ptr ((a, d) # zs) Null) (of_nat ?k) h' = Some (Inr h'') \<and>
      sockets_at H xs' h'' ((p @ q) @ remove1 w (v # vs))
    else close_client_loop (ptrs H Clients) w (first_ptr ((a, d) # zs) Null) (of_nat ?k) h' = Some (Inr h')"
    by (rule walk_at [OF h'(2), of "yp @ yq"]) (use y k in simp_all)
  with h' show ?thesis unfolding t last by (auto split: if_splits simp del: remove1.simps)
qed

lemma walk_there:
  assumes "sockets_at H xs h (us @ v # vs)" "distinct (us @ v # vs)" "xs Clients = ys @ (a, d) # zs"
    "length ys = length us" "vs \<noteq> []" "r \<in> taking_out (ptrs H Clients) v (us @ v # vs) h"
  shows "\<exists>h'. r = Some (Inr h') \<and> close_client_loop (ptrs H Clients) w (Ptr a 0) (of_nat (length us)) h' = Some (Inl UseAfterFree)"
proof -
  have "v \<notin> set us" using assms(2) by simp
  from taken_out [OF assms(1) this assms(3,4,6)] obtain h' where
    h': "r = Some (Inr h')" "sockets_at H (xs(Clients := ys @ zs)) h' (us @ vs)" "cells h' a = None" by blast
  have at: "lists_at H (xs(Clients := ys @ zs)) h'" "length (ys @ zs) = length us + length vs" "length us + length vs < 2 ^ 31"
    using h'(2) by (auto simp: sockets_at_def dest: list_all2_lengthD)
  then have "sint (of_nat (length us) :: u32) < sint (of_nat (length (ys @ zs)) :: u32)"
    using assms(5) by (subst (1 2) sint_of_nat_small) auto
  moreover have "(xs(Clients := ys @ zs)) Clients \<noteq> []" using at(2) assms(5) by auto
  ultimately show ?thesis
    using h'(1) inspect_freed [OF at(1) _ h'(3)] length_at [OF at(1), of Clients] by (subst close_client_loop.simps) simp
qed

lemma walk_ahead:
  assumes "sockets_at H xs h (us @ v # p @ u # q)" "distinct (us @ v # p @ u # q)" "xs Clients = ys @ (a, d) # zs"
    "length ys = length us" "w \<in> set (v # p @ q)" "r \<in> taking_out (ptrs H Clients) u (us @ v # p @ u # q) h"
  shows "\<exists>h' xs'' h''. r = Some (Inr h') \<and> close_client_loop (ptrs H Clients) w (Ptr a 0) (of_nat (length us)) h' = Some (Inr h'') \<and>
    sockets_at H xs'' h'' (us @ remove1 w (v # p @ q))"
proof -
  have z: "length zs = length p + Suc (length q)"
    using assms(1,3,4) by (auto simp: sockets_at_def dest: list_all2_lengthD)
  have "\<exists>zp b e zq. zs = zp @ (b, e) # zq \<and> length zp = length p \<and> length zq = length q"
    using id_take_nth_drop [of "length p" zs] z
    by (intro exI [of _ "take (length p) zs"] exI [of _ "fst (zs ! length p)"] exI [of _ "snd (zs ! length p)"]
      exI [of _ "drop (Suc (length p)) zs"]) simp
  then obtain zp b e zq where y: "zs = zp @ (b, e) # zq" "length zp = length p" "length zq = length q" by blast
  have L: "sockets_at H xs h ((us @ v # p) @ u # q)" "u \<notin> set (us @ v # p)" "xs Clients = (ys @ (a, d) # zp) @ (b, e) # zq"
    "length (ys @ (a, d) # zp) = length (us @ v # p)" "r \<in> taking_out (ptrs H Clients) u ((us @ v # p) @ u # q) h"
    using assms(1-4,6) y by auto
  from taken_out [OF L] obtain h' where
    h': "r = Some (Inr h')" "sockets_at H (xs(Clients := ys @ (a, d) # zp @ zq)) h' (us @ v # p @ q)" by auto
  have "length us < 2 ^ 31" using L(1) by (simp add: sockets_at_def)
  have "if w \<in> set (take (length us + length (v # p @ q) - length us) (v # p @ q))
    then \<exists>xs' h''. close_client_loop (ptrs H Clients) w (first_ptr ((a, d) # zp @ zq) Null) (of_nat (length us)) h' = Some (Inr h'') \<and>
      sockets_at H xs' h'' (us @ remove1 w (v # p @ q))
    else close_client_loop (ptrs H Clients) w (first_ptr ((a, d) # zp @ zq) Null) (of_nat (length us)) h' = Some (Inr h')"
    by (rule walk_at [OF h'(2), of ys]) (use assms(4) \<open>length us < 2 ^ 31\<close> in simp_all)
  with h'(1) assms(5) show ?thesis by (auto simp del: remove1.simps)
qed

text \<open>
  C13. Two clients leave at once. \<open>close_connected_client\<close> of the client \<open>w\<close> stands at the position of \<open>v\<close> when the node
  of another client \<open>u\<close> is taken out, by its own thread or, at the front of the list, by \<open>close_server\<close>. If the walk is past
  \<open>u\<close>, its counter runs ahead of the shorter list: a client \<open>w\<close> at the end of the list is not taken out, and its socket
  stays in the list. If it is at \<open>u\<close>, it goes on from a freed node. If \<open>u\<close> is ahead, both clients are taken out.
\<close>

theorem two_clients_leave:
  assumes "sockets_at H xs h (us @ v # vs)" "distinct (us @ v # vs)" "xs Clients = ys @ (a, d) # zs" "length ys = length us"
    "w \<in> set (v # vs)" "u \<in> set (us @ v # vs)" "u \<noteq> w" "r \<in> taking_out (ptrs H Clients) u (us @ v # vs) h"
  shows "\<exists>h'. r = Some (Inr h') \<and>
    (if u = v then close_client_loop (ptrs H Clients) w (Ptr a 0) (of_nat (length us)) h' = Some (Inl UseAfterFree)
     else \<exists>xs'' h''. close_client_loop (ptrs H Clients) w (Ptr a 0) (of_nat (length us)) h' = Some (Inr h'') \<and>
       sockets_at H xs'' h'' (if u \<in> set us \<and> w = last (v # vs) then remove1 u (us @ v # vs)
         else remove1 w (remove1 u (us @ v # vs))))"
proof -
  consider "u = v" | "u \<in> set us" | "u \<in> set vs" using assms(6) by auto
  then show ?thesis
  proof cases
    case 1
    with assms(5,7) have "vs \<noteq> []" by auto
    from walk_there [OF assms(1-4) this assms(8) [unfolded 1], of w] obtain h' where "r = Some (Inr h')"
      "close_client_loop (ptrs H Clients) w (Ptr a 0) (of_nat (length us)) h' = Some (Inl UseAfterFree)" by blast
    then show ?thesis unfolding if_P [OF 1] by blast
  next
    case 2
    then obtain p q where p: "us = p @ u # q" by (meson split_list)
    have r: "remove1 u (us @ v # vs) = p @ q @ v # vs" and u: "u \<noteq> v"
      using p assms(2) by (simp_all add: remove1_append)
    have "w \<notin> set p" "w \<notin> set q" using p assms(2,5) by auto
    then have rw: "remove1 w (p @ q @ v # vs) = p @ q @ remove1 w (v # vs)" by (simp add: remove1_append)
    from walk_behind [OF assms(1-5,8) [unfolded p]] obtain h' xs'' h'' where h': "r = Some (Inr h')"
      "close_client_loop (ptrs H Clients) w (Ptr a 0) (of_nat (length us)) h' = Some (Inr h'')"
      "sockets_at H xs'' h'' (p @ q @ (if w = last (v # vs) then v # vs else remove1 w (v # vs)))" unfolding p [symmetric] by blast
    have "p @ q @ (if w = last (v # vs) then v # vs else remove1 w (v # vs)) =
        (if u \<in> set us \<and> w = last (v # vs) then remove1 u (us @ v # vs) else remove1 w (remove1 u (us @ v # vs)))"
      unfolding r rw using 2 by presburger
    with h' show ?thesis unfolding if_not_P [OF u] by (simp only: ex_simps) blast
  next
    case 3
    then obtain p q where p: "vs = p @ u # q" by (meson split_list)
    have u: "u \<noteq> v" "u \<notin> set us" "u \<notin> set p" and w: "w \<in> set (v # p @ q)" "w \<notin> set us" using p assms(2,5,7) by auto
    then have r: "remove1 u (us @ v # vs) = us @ v # p @ q" using p by (simp add: remove1_append)
    have rw: "remove1 w (us @ v # p @ q) = us @ remove1 w (v # p @ q)" using w(2) by (simp add: remove1_append)
    from walk_ahead [OF assms(1-4) [unfolded p] w(1) assms(8) [unfolded p]] obtain h' xs'' h'' where h': "r = Some (Inr h')"
      "close_client_loop (ptrs H Clients) w (Ptr a 0) (of_nat (length us)) h' = Some (Inr h'')"
      "sockets_at H xs'' h'' (us @ remove1 w (v # p @ q))" by blast
    then show ?thesis using u(2) unfolding if_not_P [OF u(1)] r rw by (simp del: remove1.simps) blast
  qed
qed

text \<open>Two clients, 5 and 6: the walk of the second is at the first node when that is taken out.\<close>

theorem two_clients_leave_witness:
  "\<exists>H h h' p. close_connected (ptrs H Clients) 5 h = Some (Inr h') \<and>
    close_client_loop (ptrs H Clients) 6 p 0 h' = Some (Inl UseAfterFree)"
proof -
  from two_sockets obtain H xs h where xs: "sockets_at H xs h ([] @ 5 # [6])" by auto
  then obtain a d zs where z: "xs Clients = [] @ (a, d) # zs" by (cases "xs Clients") (auto simp: sockets_at_def)
  have "distinct ([] @ 5 # [6 :: u32])" "(6 :: u32) \<in> set (5 # [6])" "(5 :: u32) \<in> set ([] @ 5 # [6])" "(5 :: u32) \<noteq> 6" by simp_all
  from two_clients_leave [OF xs this(1) z _ this(2-4), of "close_connected (ptrs H Clients) 5 h"]
  show ?thesis by (auto simp: taking_out_def)
qed

end
