(* ===== verification/ClientThreads.thy ===== *)
theory ClientThreads
  imports DriversProps Interleave
begin

text \<open>
  The two threads of OU4/Client/client.c during a throughput test: the main thread in the loop of
  \<open>end_2_end_test_1\<close> or \<open>end_2_end_test_2\<close>, and \<open>client_listen\<close>, which counts the answers and compares its counter with
  that of the other thread without a lock. The answers of the server come in at any time after their requests, and
  mixed with them the answers to requests of other clients, which the server sends to everybody.
\<close>

section \<open>Turns\<close>

text \<open>
  A pass of the loop has two turns, \<open>send_pdu\<close> and \<open>num_send++\<close>; a pass of the listening thread has two, up
  to \<open>num_receive++\<close> and from the comparison on. \<open>printed\<close> counts the calls of \<open>print_test_time\<close>; \<open>asked\<close>
  counts the requests of this client, \<open>answered\<close> the answers that have arrived, \<open>others\<close> those among them to requests
  of other clients. There are \<open>foreign\<close> of these; \<open>as k\<close> is the answer that arrives as number \<open>k\<close>.
\<close>

datatype main_place = Sending nat | Counting nat
datatype listener_place = Receives | Compares | Ended

record client_threads = test_run +
  conn :: sock
  main_at :: main_place
  listener_at :: listener_place
  asked :: nat
  answered :: nat
  others :: nat
  printed :: nat

definition end_2_end_message :: "byte list \<Rightarrow> byte list \<Rightarrow> nat \<Rightarrow> byte list res" where
  "end_2_end_message key_array data_array i =
     bind_r (end_2_end_pass key_array data_array i \<lparr>written = [], num_send = 0, num_receive = 0\<rparr>) (\<lambda>t. Inr (written t))"

inductive client_turn ::
  "byte list \<Rightarrow> byte list \<Rightarrow> byte list \<Rightarrow> u32 \<Rightarrow> byte \<Rightarrow> (nat \<Rightarrow> byte list) \<Rightarrow> nat \<Rightarrow> nat \<Rightarrow> client_threads \<Rightarrow> client_threads res \<Rightarrow> bool"
  for key_array data_array stack sock junk as foreign hi where
  t_send: "main_at w = Sending i \<Longrightarrow> i < hi \<Longrightarrow> client_turn key_array data_array stack sock junk as foreign hi w
      (bind_r (end_2_end_message key_array data_array i) (\<lambda>d.
       Inr (w\<lparr>written := written w @ d, asked := asked w + 1, main_at := Counting i\<rparr>)))"
| t_count: "main_at w = Counting i \<Longrightarrow> client_turn key_array data_array stack sock junk as foreign hi w
      (Inr (w\<lparr>num_send := num_send w + 1, main_at := Sending (i + 1)\<rparr>))"
| t_answer: "answered w < asked w + others w \<Longrightarrow> client_turn key_array data_array stack sock junk as foreign hi w
      (Inr (w\<lparr>conn := (conn w)\<lparr>inbuf := inbuf (conn w) @ reply junk (as (answered w))\<rparr>, answered := answered w + 1\<rparr>))"
| t_other: "others w < foreign \<Longrightarrow> client_turn key_array data_array stack sock junk as foreign hi w
      (Inr (w\<lparr>conn := (conn w)\<lparr>inbuf := inbuf (conn w) @ reply junk (as (answered w))\<rparr>, answered := answered w + 1,
        others := others w + 1\<rparr>))"
| t_receive: "listener_at w = Receives \<Longrightarrow> receive_pdu stack sock (conn w) = Some (PDU_struct_recieve, c) \<Longrightarrow>
    client_turn key_array data_array stack sock junk as foreign hi w
      (bind_r (stops_client PDU_struct_recieve) (\<lambda>stop.
       Inr (if stop then w\<lparr>conn := c, listener_at := Ended\<rparr>
            else w\<lparr>conn := c, num_receive := num_receive w + 1, listener_at := Compares\<rparr>)))"
| t_compare: "listener_at w = Compares \<Longrightarrow> client_turn key_array data_array stack sock junk as foreign hi w
      (Inr (w\<lparr>printed := printed w + (if num_send w = num_receive w then 1 else 0), listener_at := Receives\<rparr>))"

text \<open>The start of a test with both counters at 0; \<open>lo\<close> is the first number.\<close>

definition test_start :: "nat \<Rightarrow> client_threads" where
  "test_start lo = \<lparr>written = [], num_send = 0, num_receive = 0, conn = \<lparr>inbuf = [], segs = [], fin = Open\<rparr>,
     main_at = Sending lo, listener_at = Receives, asked = 0, answered = 0, others = 0, printed = 0\<rparr>"

inductive threads_run ::
  "byte list \<Rightarrow> byte list \<Rightarrow> byte list \<Rightarrow> u32 \<Rightarrow> byte \<Rightarrow> (nat \<Rightarrow> byte list) \<Rightarrow> nat \<Rightarrow> nat \<Rightarrow> nat \<Rightarrow> nat \<Rightarrow> client_threads \<Rightarrow> bool"
  for key_array data_array stack sock junk as foreign lo hi where
  c_start: "threads_run key_array data_array stack sock junk as foreign lo hi 0 (test_start lo)"
| c_turn: "threads_run key_array data_array stack sock junk as foreign lo hi n w \<Longrightarrow>
    client_turn key_array data_array stack sock junk as foreign hi w (Inr w') \<Longrightarrow>
    threads_run key_array data_array stack sock junk as foreign lo hi (Suc n) w'"

text \<open>All requests are sent and counted, and all answers received and compared.\<close>

definition test_over :: "nat \<Rightarrow> nat \<Rightarrow> nat \<Rightarrow> client_threads \<Rightarrow> bool" where
  "test_over foreign lo hi w \<longleftrightarrow> main_at w = Sending hi \<and> listener_at w = Receives \<and> others w = foreign \<and> answered w = asked w + foreign \<and>
     num_receive w = int (answered w)"

section \<open>The invariant\<close>

fun pass_of :: "main_place \<Rightarrow> nat" where
  "pass_of (Sending i) = i"
| "pass_of (Counting i) = i"

fun asked_at :: "main_place \<Rightarrow> nat" where
  "asked_at (Sending i) = i"
| "asked_at (Counting i) = Suc i"

lemma pass_of_le: "pass_of p \<le> asked_at p"
  by (cases p) auto

definition threads_ok :: "byte \<Rightarrow> (nat \<Rightarrow> byte list) \<Rightarrow> nat \<Rightarrow> nat \<Rightarrow> nat \<Rightarrow> nat \<Rightarrow> client_threads \<Rightarrow> bool" where
  "threads_ok junk as foreign lo hi n w \<longleftrightarrow> (\<exists>r.
     lo \<le> pass_of (main_at w) \<and> asked_at (main_at w) \<le> hi \<and> lo + asked w = asked_at (main_at w) \<and>
     num_send w = int (pass_of (main_at w)) - int lo \<and> num_receive w = int r \<and> r \<le> answered w \<and> answered w \<le> asked w + others w \<and> others w \<le> answered w \<and> others w \<le> foreign \<and>
     buffered (conn w) (concat (map (\<lambda>k. reply junk (as k)) [r..<answered w])) [] \<and> fin (conn w) = Open \<and>
     written w = concat (map (\<lambda>i. encode (numbered i)) [lo..<lo + asked w]) \<and>
     listener_at w \<noteq> Ended \<and> (listener_at w = Compares \<longrightarrow> 0 < r) \<and>
     printed w + (if listener_at w = Compares then 1 else 0) \<le> r \<and> printed w \<le> asked w \<and>
     n + lo + (if listener_at w = Compares then 1 else 0) = asked w + pass_of (main_at w) + answered w + r + r)"

lemma buffered_arrives:
  assumes "buffered c msg []"
  shows "buffered (c\<lparr>inbuf := inbuf c @ d\<rparr>) (msg @ d) []"
proof -
  from assms have "concat (segs c) = []" "inbuf c = msg" by (auto simp: buffered_def stream_def append_eq_append_conv_if split: if_splits)
  then show ?thesis by (simp add: buffered_def stream_def)
qed

lemma message_of_pass:
  assumes "KEY_SIZE \<le> length key_array" "6 < length data_array" "i < 1000000"
  shows "end_2_end_message key_array data_array i = Inr (encode (numbered i))"
  using end_2_end_pass_ok [OF assms] by (simp add: end_2_end_message_def)

lemma threads_ok_start: "lo \<le> hi \<Longrightarrow> threads_ok junk as foreign lo hi 0 (test_start lo)"
  by (auto simp: threads_ok_def test_start_def buffered_def stream_def intro!: exI [of _ 0])

locale client_test =
  fixes key_array data_array stack :: "byte list" and sock :: u32 and junk :: byte and as :: "nat \<Rightarrow> byte list" and foreign lo hi :: nat
  assumes arrays: "KEY_SIZE \<le> length key_array" "6 < length data_array" "length stack = HEADERSIZE"
    and numbers: "lo \<le> hi" "hi \<le> 1000000"
    and answers: "\<And>k. length (as k) < 2 ^ 16" "\<And>k. as k \<noteq> [] \<Longrightarrow> hd (as k) \<noteq> QUIT"
begin

abbreviation "turn \<equiv> client_turn key_array data_array stack sock junk as foreign hi"

lemma answer_received:
  assumes "threads_ok junk as foreign lo hi n w" "num_receive w < int (answered w)"
  shows "\<exists>c r. num_receive w = int r \<and> receive_pdu stack sock (conn w) = Some (answer_pdu (as r), c) \<and>
    stops_client (answer_pdu (as r)) = Inr False \<and>
    buffered c (concat (map (\<lambda>k. reply junk (as k)) [Suc r..<answered w])) [] \<and> fin c = fin (conn w)"
proof -
  from assms obtain r where r: "num_receive w = int r" "r < answered w"
    "buffered (conn w) (concat (map (\<lambda>k. reply junk (as k)) [r..<answered w])) []" by (auto simp: threads_ok_def)
  then have "buffered (conn w) (reply junk (as r) @ concat (map (\<lambda>k. reply junk (as k)) [Suc r..<answered w])) []"
    by (simp add: upt_conv_Cons)
  from receive_reply [OF this answers(1) arrays(3), of sock] obtain c where
    "receive_pdu stack sock (conn w) = Some (answer_pdu (as r), c)"
    "buffered c (concat (map (\<lambda>k. reply junk (as k)) [Suc r..<answered w])) []" "fin c = fin (conn w)" by blast
  moreover have "stops_client (answer_pdu (as r)) = Inr False" using answers(2) [of r] by (auto simp: stops_client_answer)
  ultimately show ?thesis using r(1) by blast
qed

lemma turn_ok:
  assumes "turn w x" "threads_ok junk as foreign lo hi n w"
  shows "\<exists>w'. x = Inr w' \<and> threads_ok junk as foreign lo hi (Suc n) w'"
  using assms(1)
proof (cases rule: client_turn.cases)
  case (t_send i)
  have "end_2_end_message key_array data_array i = Inr (encode (numbered i))"
    using t_send(3) numbers by (intro message_of_pass arrays(1,2)) simp
  with t_send assms(2) show ?thesis by (auto simp: threads_ok_def)
next
  case (t_count i)
  with assms(2) show ?thesis by (auto simp: threads_ok_def)
next
  case t_answer
  from assms(2) obtain r where r: "num_receive w = int r" "r \<le> answered w"
    "buffered (conn w) (concat (map (\<lambda>k. reply junk (as k)) [r..<answered w])) []" by (auto simp: threads_ok_def)
  from buffered_arrives [OF r(3), of "reply junk (as (answered w))"] r(2)
  have "buffered ((conn w)\<lparr>inbuf := inbuf (conn w) @ reply junk (as (answered w))\<rparr>)
      (concat (map (\<lambda>k. reply junk (as k)) [r..<Suc (answered w)])) []" by simp
  with t_answer assms(2) r(1) show ?thesis by (auto simp: threads_ok_def)
next
  case t_other
  from assms(2) obtain r where r: "num_receive w = int r" "r \<le> answered w"
    "buffered (conn w) (concat (map (\<lambda>k. reply junk (as k)) [r..<answered w])) []" by (auto simp: threads_ok_def)
  from buffered_arrives [OF r(3), of "reply junk (as (answered w))"] r(2)
  have "buffered ((conn w)\<lparr>inbuf := inbuf (conn w) @ reply junk (as (answered w))\<rparr>)
      (concat (map (\<lambda>k. reply junk (as k)) [r..<Suc (answered w)])) []" by simp
  with t_other assms(2) r(1) show ?thesis by (auto simp: threads_ok_def)
next
  case (t_receive PDU_struct_recieve c)
  show ?thesis
  proof (cases "num_receive w < int (answered w)")
    case True
    from answer_received [OF assms(2) True] obtain c' r where
      c': "num_receive w = int r" "receive_pdu stack sock (conn w) = Some (answer_pdu (as r), c')"
        "stops_client (answer_pdu (as r)) = Inr False"
        "buffered c' (concat (map (\<lambda>k. reply junk (as k)) [Suc r..<answered w])) []" "fin c' = fin (conn w)" by blast
    let ?w = "w\<lparr>conn := c', num_receive := num_receive w + 1, listener_at := Compares\<rparr>"
    have "threads_ok junk as foreign lo hi (Suc n) ?w"
      using assms(2) c' True t_receive(2) unfolding threads_ok_def by (intro exI [of _ "Suc r"]) auto
    moreover have "x = Inr ?w" using t_receive(1,3) c'(2,3) by simp
    ultimately show ?thesis by blast
  next
    case False
    with assms(2) have "stream (conn w) = []" "fin (conn w) = Open" by (auto simp: threads_ok_def buffered_def)
    from silent_client_blocks [OF this] t_receive(3) show ?thesis by simp
  qed
next
  case t_compare
  with assms(2) pass_of_le [of "main_at w"] show ?thesis by (auto simp: threads_ok_def)
qed

abbreviation "runs \<equiv> threads_run key_array data_array stack sock junk as foreign lo hi"

lemma run_ok_at: "runs n w \<Longrightarrow> threads_ok junk as foreign lo hi n w"
proof (induction rule: threads_run.induct)
  case c_start
  show ?case by (rule threads_ok_start [OF numbers(1)])
next
  case (c_turn n w w')
  from turn_ok [OF c_turn.hyps(2) c_turn.IH] show ?case by auto
qed

lemma send_turn:
  assumes "main_at w = Sending i" "i < hi"
  shows "turn w (Inr (w\<lparr>written := written w @ encode (numbered i), asked := asked w + 1, main_at := Counting i\<rparr>))"
proof -
  have "end_2_end_message key_array data_array i = Inr (encode (numbered i))"
    using assms(2) numbers by (intro message_of_pass arrays(1,2)) simp
  with client_turn.t_send [OF assms, of key_array data_array stack sock junk as foreign] show ?thesis by simp
qed

lemma receive_turn:
  assumes "threads_ok junk as foreign lo hi n w" "num_receive w < int (answered w)" "listener_at w = Receives"
  shows "\<exists>c. turn w (Inr (w\<lparr>conn := c, num_receive := num_receive w + 1, listener_at := Compares\<rparr>))"
proof -
  from answer_received [OF assms(1,2)] obtain c r where
    c: "receive_pdu stack sock (conn w) = Some (answer_pdu (as r), c)" "stops_client (answer_pdu (as r)) = Inr False" by blast
  with client_turn.t_receive [OF assms(3) c(1), of key_array data_array junk as foreign hi] show ?thesis by auto
qed

lemma turn_left:
  assumes "threads_ok junk as foreign lo hi n w" "\<not> test_over foreign lo hi w"
  shows "\<exists>w'. turn w (Inr w')"
proof (cases "main_at w")
  case (Counting i)
  with client_turn.t_count show ?thesis by blast
next
  case (Sending i)
  show ?thesis
  proof (cases "i < hi")
    case True
    from send_turn [OF Sending True] show ?thesis by blast
  next
    case False
    with Sending assms(1) have i: "main_at w = Sending hi" by (auto simp: threads_ok_def)
    consider "answered w < asked w + others w" | "others w < foreign" | "listener_at w = Compares" | "num_receive w < int (answered w)" "listener_at w = Receives"
    proof (cases "listener_at w = Compares \<or> answered w < asked w + others w \<or> others w < foreign")
      case True
      then show thesis using that(1-3) by blast
    next
      case False
      with assms i have "num_receive w \<noteq> int (answered w)" "listener_at w = Receives" "num_receive w \<le> int (answered w)"
        by (cases "listener_at w"; auto simp: threads_ok_def test_over_def)+
      then show thesis using that(4) by linarith
    qed
    then show ?thesis
    proof cases
      case 1
      with client_turn.t_answer show ?thesis by blast
    next
      case 2
      with client_turn.t_other show ?thesis by blast
    next
      case 3
      with client_turn.t_compare show ?thesis by blast
    next
      case 4
      from receive_turn [OF assms(1) this] show ?thesis by blast
    qed
  qed
qed

lemma turns_bound:
  assumes "threads_ok junk as foreign lo hi n w"
  shows "n \<le> 5 * (hi - lo) + 3 * foreign" "n = 5 * (hi - lo) + 3 * foreign \<longleftrightarrow> test_over foreign lo hi w"
proof -
  from assms obtain r where r: "lo \<le> pass_of (main_at w)" "asked_at (main_at w) \<le> hi" "lo + asked w = asked_at (main_at w)"
    "num_receive w = int r" "r \<le> answered w" "answered w \<le> asked w + others w" "others w \<le> foreign" "listener_at w \<noteq> Ended" "listener_at w = Compares \<longrightarrow> 0 < r"
    "n + lo + (if listener_at w = Compares then 1 else 0) = asked w + pass_of (main_at w) + answered w + r + r"
    by (auto simp: threads_ok_def)
  note p = pass_of_le [of "main_at w"]
  show "n \<le> 5 * (hi - lo) + 3 * foreign" using r p by (auto split: if_splits)
  show "n = 5 * (hi - lo) + 3 * foreign \<longleftrightarrow> test_over foreign lo hi w"
  proof
    assume "n = 5 * (hi - lo) + 3 * foreign"
    with r p have e: "asked w = hi - lo" "pass_of (main_at w) = hi" "others w = foreign" "answered w = hi - lo + foreign"
      "r = hi - lo + foreign" "listener_at w \<noteq> Compares"
      by (auto split: if_splits)
    then show "test_over foreign lo hi w"
      using r by (cases "main_at w"; cases "listener_at w") (auto simp: test_over_def)
  next
    assume "test_over foreign lo hi w"
    with r show "n = 5 * (hi - lo) + 3 * foreign" by (auto simp: test_over_def)
  qed
qed

text \<open>A pass in which the listening thread compares after \<open>num_send++\<close>, or before.\<close>

definition even_at :: "nat \<Rightarrow> nat \<Rightarrow> client_threads \<Rightarrow> bool" where
  "even_at i p w \<longleftrightarrow> main_at w = Sending i \<and> listener_at w = Receives \<and> answered w = asked w \<and> others w = 0 \<and>
     num_receive w = int (asked w) \<and> printed w = p \<and> (\<exists>n. runs n w)"

lemma even_pass:
  assumes "even_at i p w" "i < hi"
  shows "\<exists>w'. even_at (Suc i) (p + (if b then 1 else 0)) w'"
proof -
  from assms(1) obtain n where n: "runs n w" and w: "main_at w = Sending i" "listener_at w = Receives" "answered w = asked w"
    "num_receive w = int (asked w)" "printed w = p" "others w = 0" by (auto simp: even_at_def)
  have s: "num_send w = int (asked w)" using run_ok_at [OF n] w(1) by (auto simp: threads_ok_def)
  let ?w1 = "w\<lparr>written := written w @ encode (numbered i), asked := asked w + 1, main_at := Counting i\<rparr>"
  have n1: "runs (Suc n) ?w1" by (rule c_turn [OF n send_turn [OF w(1) assms(2)]])
  show ?thesis
  proof (cases b)
    case True
    have n2: "runs (Suc (Suc n)) (?w1\<lparr>num_send := num_send w + 1, main_at := Sending (i + 1)\<rparr>)" (is "runs _ ?w2")
      using c_turn [OF n1 client_turn.t_count [of ?w1 i]] by simp
    have "answered ?w2 < asked ?w2 + others ?w2" using w(3) by simp
    from c_turn [OF n2 client_turn.t_answer [OF this]] obtain w3 where w3: "runs (Suc (Suc (Suc n))) w3"
      "w3 = ?w2\<lparr>conn := (conn w)\<lparr>inbuf := inbuf (conn w) @ reply junk (as (answered w))\<rparr>, answered := answered w + 1\<rparr>" by simp
    have "num_receive w3 < int (answered w3)" "listener_at w3 = Receives" using w w3(2) by simp_all
    from receive_turn [OF run_ok_at [OF w3(1)] this] obtain c where
      "turn w3 (Inr (w3\<lparr>conn := c, num_receive := num_receive w3 + 1, listener_at := Compares\<rparr>))" by blast
    from c_turn [OF w3(1) this] obtain w4 where w4: "runs (Suc (Suc (Suc (Suc n)))) w4"
      "w4 = w3\<lparr>conn := c, num_receive := num_receive w3 + 1, listener_at := Compares\<rparr>" by simp
    have "listener_at w4 = Compares" using w4(2) by simp
    from c_turn [OF w4(1) client_turn.t_compare [OF this]] obtain w5 where w5: "runs (Suc (Suc (Suc (Suc (Suc n))))) w5"
      "w5 = w4\<lparr>printed := p + 1, listener_at := Receives\<rparr>" using w w3(2) w4(2) s by simp
    have "even_at (Suc i) (p + 1) w5" using w w3(2) w4(2) w5 by (simp add: even_at_def) blast
    with True show ?thesis by auto
  next
    case False
    have "answered ?w1 < asked ?w1 + others ?w1" using w(3) by simp
    from c_turn [OF n1 client_turn.t_answer [OF this]] obtain w3 where w3: "runs (Suc (Suc n)) w3"
      "w3 = ?w1\<lparr>conn := (conn w)\<lparr>inbuf := inbuf (conn w) @ reply junk (as (answered w))\<rparr>, answered := answered w + 1\<rparr>" by simp
    have "num_receive w3 < int (answered w3)" "listener_at w3 = Receives" using w w3(2) by simp_all
    from receive_turn [OF run_ok_at [OF w3(1)] this] obtain c where
      "turn w3 (Inr (w3\<lparr>conn := c, num_receive := num_receive w3 + 1, listener_at := Compares\<rparr>))" by blast
    from c_turn [OF w3(1) this] obtain w4 where w4: "runs (Suc (Suc (Suc n))) w4"
      "w4 = w3\<lparr>conn := c, num_receive := num_receive w3 + 1, listener_at := Compares\<rparr>" by simp
    have "listener_at w4 = Compares" using w4(2) by simp
    from c_turn [OF w4(1) client_turn.t_compare [OF this]] obtain w5 where w5: "runs (Suc (Suc (Suc (Suc n)))) w5"
      "w5 = w4\<lparr>printed := p, listener_at := Receives\<rparr>" using w w3(2) w4(2) s by simp
    have "main_at w5 = Counting i" using w3(2) w4(2) w5(2) by simp
    from c_turn [OF w5(1) client_turn.t_count [OF this]] obtain w6 where w6: "runs (Suc (Suc (Suc (Suc (Suc n))))) w6"
      "w6 = w5\<lparr>num_send := num_send w5 + 1, main_at := Sending (i + 1)\<rparr>" by simp
    have "even_at (Suc i) p w6" using w w3(2) w4(2) w5(2) w6 by (simp add: even_at_def) blast
    with False show ?thesis by auto
  qed
qed

lemma even_passes: "p \<le> k \<Longrightarrow> lo + k \<le> hi \<Longrightarrow> \<exists>w. even_at (lo + k) p w"
proof (induction k arbitrary: p)
  case 0
  then have "even_at (lo + 0) p (test_start lo)" using c_start [of key_array data_array stack sock junk as foreign lo hi]
    by (auto simp: even_at_def test_start_def)
  then show ?case by blast
next
  case (Suc k)
  show ?case
  proof (cases "p \<le> k")
    case True
    with Suc obtain w where "even_at (lo + k) p w" by fastforce
    from even_pass [OF this, of False] Suc.prems(2) show ?thesis by simp
  next
    case False
    with Suc.prems have "p = k + 1" by simp
    moreover from Suc obtain w where "even_at (lo + k) k w" by fastforce
    from even_pass [OF this, of True] Suc.prems(2) have "\<exists>w. even_at (Suc (lo + k)) (k + 1) w" by simp
    ultimately show ?thesis by simp
  qed
qed

text \<open>The answers for other clients after the last pass: the counters differ.\<close>

definition foreign_at :: "nat \<Rightarrow> nat \<Rightarrow> client_threads \<Rightarrow> bool" where
  "foreign_at j p w \<longleftrightarrow> main_at w = Sending hi \<and> listener_at w = Receives \<and> answered w = asked w + j \<and> others w = j \<and>
     num_receive w = int (answered w) \<and> printed w = p \<and> (\<exists>n. runs n w)"

lemma foreign_pass:
  assumes "foreign_at j p w" "j < foreign"
  shows "\<exists>w'. foreign_at (Suc j) p w'"
proof -
  from assms(1) obtain n where n: "runs n w" and w: "main_at w = Sending hi" "listener_at w = Receives" "answered w = asked w + j"
    "others w = j" "num_receive w = int (answered w)" "printed w = p" by (auto simp: foreign_at_def)
  have s: "num_send w = int (asked w)" using run_ok_at [OF n] w(1) by (auto simp: threads_ok_def)
  from c_turn [OF n client_turn.t_other [of w foreign]] w(4) assms(2) obtain w1 where w1: "runs (Suc n) w1"
    "w1 = w\<lparr>conn := (conn w)\<lparr>inbuf := inbuf (conn w) @ reply junk (as (answered w))\<rparr>, answered := answered w + 1,
      others := others w + 1\<rparr>" by simp
  have "num_receive w1 < int (answered w1)" "listener_at w1 = Receives" using w w1(2) by simp_all
  from receive_turn [OF run_ok_at [OF w1(1)] this] obtain c where
    "turn w1 (Inr (w1\<lparr>conn := c, num_receive := num_receive w1 + 1, listener_at := Compares\<rparr>))" by blast
  from c_turn [OF w1(1) this] obtain w2 where w2: "runs (Suc (Suc n)) w2"
    "w2 = w1\<lparr>conn := c, num_receive := num_receive w1 + 1, listener_at := Compares\<rparr>" by simp
  have "listener_at w2 = Compares" using w2(2) by simp
  from c_turn [OF w2(1) client_turn.t_compare [OF this]] obtain w3 where w3: "runs (Suc (Suc (Suc n))) w3"
    "w3 = w2\<lparr>printed := p, listener_at := Receives\<rparr>" using w w1(2) w2(2) s by simp
  have "foreign_at (Suc j) p w3" using w w1(2) w2(2) w3 by (simp add: foreign_at_def) blast
  then show ?thesis by blast
qed

lemma foreign_passes: "even_at hi p w \<Longrightarrow> j \<le> foreign \<Longrightarrow> \<exists>w'. foreign_at j p w'"
proof (induction j)
  case 0
  then have "foreign_at 0 p w" by (simp add: even_at_def foreign_at_def)
  then show ?case by blast
next
  case (Suc j)
  then obtain w' where "foreign_at j p w'" by auto
  from foreign_pass [OF this] Suc.prems(2) show ?case by simp
qed

lemma over_counts:
  assumes "threads_ok junk as foreign lo hi n w" "test_over foreign lo hi w"
  shows "num_send w = int (hi - lo)" "num_receive w = int (hi - lo + foreign)" "printed w \<le> hi - lo"
  using assms numbers(1) by (auto simp: threads_ok_def test_over_def of_nat_diff)

lemma no_fault: "runs n w \<Longrightarrow> \<not> turn w (Inl e)"
  using turn_ok run_ok_at by blast

lemma listens: "runs n w \<Longrightarrow> listener_at w \<noteq> Ended"
  using run_ok_at [of n w] by (auto simp: threads_ok_def)

lemma turns_at_most: "runs n w \<Longrightarrow> n \<le> 5 * (hi - lo) + 3 * foreign"
  using turns_bound(1) run_ok_at by blast

lemma ends_or_goes_on:
  assumes "runs n w"
  shows "if n = 5 * (hi - lo) + 3 * foreign then test_over foreign lo hi w \<and> num_send w = int (hi - lo) \<and> num_receive w = int (hi - lo + foreign)
    else \<exists>w'. turn w (Inr w')"
  using turns_bound(2) [OF run_ok_at [OF assms]] over_counts(1,2) [OF run_ok_at [OF assms]] turn_left [OF run_ok_at [OF assms]]
  by auto

lemma times_printed: "{printed w |n w. runs n w \<and> test_over foreign lo hi w} = {0..hi - lo}"
proof (intro set_eqI iffI)
  fix p
  assume "p \<in> {printed w |n w. runs n w \<and> test_over foreign lo hi w}"
  with over_counts(3) [OF run_ok_at] show "p \<in> {0..hi - lo}" by auto
next
  fix p
  assume "p \<in> {0..hi - lo}"
  with even_passes [of p "hi - lo"] numbers(1) obtain w where "even_at hi p w" by auto
  from foreign_passes [OF this order_refl] obtain w' where "foreign_at foreign p w'" by blast
  then obtain n where "runs n w'" "test_over foreign lo hi w'" "printed w' = p" by (auto simp: foreign_at_def test_over_def)
  then show "p \<in> {printed w |n w. runs n w \<and> test_over foreign lo hi w}" by blast
qed

end

interpretation end_2_end_2: client_test "replicate 64 0" "replicate 64 0" "[0, 0, 0, 0]" s 0 "\<lambda>_. [86, 0]" foreign 10000 20000 for s foreign
  by unfold_locales auto

text \<open>
  C23. The time of a throughput test may be printed any number of times, from never to once per request. The
  main thread of the client sends requests \<open>lo\<close> to \<open>hi - 1\<close> while \<open>client_listen\<close> counts the answers; the server
  answers each request in order and sends, in between, \<open>foreign\<close> answers to requests of other clients; the turns come in
  any order. The key array has the 64 bytes that the constructor copies, not the ten of the code, with which the first
  pass reads past it; no answer begins with the byte of QUIT, and each has fewer than 65536 bytes. Then no turn faults and the listening thread
  does not end; as long as a run has had fewer than \<open>5 * (hi - lo) + 3 * foreign\<close> turns, some turn is possible, and
  after exactly that many the test is over, with the foreign answers counted too. But the comparison of the counters is not
  made together with either increment: over the complete runs, the numbers of times that \<open>print_test_time\<close> is
  called are exactly 0 to \<open>hi - lo\<close>.
\<close>

theorem test_time_prints:
  assumes "KEY_SIZE \<le> length key_array" "6 < length data_array" "length stack = HEADERSIZE"
    and "lo \<le> hi" "hi \<le> 1000000"
    and "\<And>k. length (as k) < 2 ^ 16" "\<And>k. as k \<noteq> [] \<Longrightarrow> hd (as k) \<noteq> QUIT"
  shows "(\<forall>n w. threads_run key_array data_array stack sock junk as foreign lo hi n w \<longrightarrow>
       (\<forall>e. \<not> client_turn key_array data_array stack sock junk as foreign hi w (Inl e)) \<and>
       listener_at w \<noteq> Ended \<and> n \<le> 5 * (hi - lo) + 3 * foreign \<and>
       (if n = 5 * (hi - lo) + 3 * foreign then test_over foreign lo hi w \<and> num_send w = int (hi - lo) \<and> num_receive w = int (hi - lo + foreign)
        else \<exists>w'. client_turn key_array data_array stack sock junk as foreign hi w (Inr w'))) \<and>
    {printed w |n w. threads_run key_array data_array stack sock junk as foreign lo hi n w \<and> test_over foreign lo hi w} = {0..hi - lo}"
    (is "?turns \<and> ?times")
proof (rule conjI)
  have t: "client_test key_array data_array stack as lo hi" using assms by (rule client_test.intro)
  show ?turns
    by (intro allI impI conjI client_test.no_fault [OF t] client_test.listens [OF t] client_test.turns_at_most [OF t]
      client_test.ends_or_goes_on [OF t])
  show ?times by (rule client_test.times_printed [OF t])
qed

text \<open>The range of \<open>end_2_end_test_1\<close> with arrays of zeros, the answer ''V'' each time, seven of them for other clients.\<close>

theorem test_time_prints_witness:
  "{printed w |n w. threads_run (replicate 64 0) (replicate 64 0) [0, 0, 0, 0] 5 0 (\<lambda>_. [86, 0]) 7 0 1000000 n w \<and>
      test_over 7 0 1000000 w} = {0..1000000}"
  using test_time_prints [of "replicate 64 0" "replicate 64 0" "[0, 0, 0, 0]" 0 1000000 "\<lambda>_. [86, 0]" 5 0 7] by simp

end
