(* ===== verification/QueueMemory.thy ===== *)
theory QueueMemory
  imports ListQueue Pdu
begin

text \<open>
  The memory of \<open>sender_list\<close>: \<open>free_struct\<close> (OU4/Resources/PDU_user.c), and the blocks that are
  alive while a listening thread appends received PDUs and \<open>kernel_communication\<close> takes, sends
  and frees them.
\<close>

section \<open>Freeing structs\<close>

definition get_insert :: "ptr \<Rightarrow> heap \<Rightarrow> ptr res" where
  "get_insert p h =
     bind_r (deref p h) (\<lambda>(a, off, c).
       case c of CInsert d \<Rightarrow> if off = 0 then Inr d else Inl WrongCell | _ \<Rightarrow> Inl WrongCell)"

definition get_join :: "ptr \<Rightarrow> heap \<Rightarrow> ptr res" where
  "get_join p h =
     bind_r (deref p h) (\<lambda>(a, off, c).
       case c of CJoin d \<Rightarrow> if off = 0 then Inr d else Inl WrongCell | _ \<Rightarrow> Inl WrongCell)"

definition free_struct :: "u8 \<Rightarrow> ptr \<Rightarrow> heap \<Rightarrow> heap res" where
  "free_struct op p h =
     (if op = INIT then c_free p h
      else if op = INSERT then
        bind_r (get_insert p h) (\<lambda>d.
        bind_r (c_free d h) (\<lambda>h. c_free p h))
      else if op = GET then c_free p h
      else if op = DELETE then c_free p h
      else if op = KERNEL \<or> op = USER \<or> op = QUIT then
        bind_r (get_pdu p h) (\<lambda>temp_struct.
        bind_r (c_free (c_data temp_struct) h) (\<lambda>h. c_free p h))
      else if op = JOIN then
        bind_r (get_pdu p h) (\<lambda>temp_struct.
        bind_r (get_join (c_data temp_struct) h) (\<lambda>client_ID.
        bind_r (c_free client_ID h) (\<lambda>h.
        bind_r (c_free (c_data temp_struct) h) (\<lambda>h. c_free p h))))
      else Inr h)"

section \<open>Live blocks\<close>

definition live :: "heap \<Rightarrow> nat set" where
  "live h = {a. cells h a \<noteq> None}"

definition item_blocks :: "(nat \<times> nat list) list \<Rightarrow> nat set" where
  "item_blocks ys = \<Union> (set ` snd ` set ys)"

text \<open>Apart from the blocks \<open>B\<close> of the rest of the program, the heap holds the queue and nothing else.\<close>

definition only_queue :: "nat set \<Rightarrow> heap \<Rightarrow> handle \<Rightarrow> (nat \<times> nat list) list \<Rightarrow> (u8 \<times> byte list) list \<Rightarrow> bool" where
  "only_queue B h H ys vs \<longleftrightarrow> queue_at pdu_item h H ys vs \<and>
     live h = B \<union> (blocks H (nodes_of ys) \<union> item_blocks ys) \<and> B \<inter> (blocks H (nodes_of ys) \<union> item_blocks ys) = {}"

lemma live_same_outside: "same_outside A h h' \<Longrightarrow> live h' - A = live h - A"
  by (auto simp: same_outside_def live_def)

lemma live_below: "heap_ok h \<Longrightarrow> a \<in> live h \<Longrightarrow> a < brk h"
  by (auto simp: heap_ok_def live_def not_less [symmetric])

lemma item_blocks_simps [simp]:
  "item_blocks [] = {}" "item_blocks ((a, bs) # ys) = set bs \<union> item_blocks ys"
  "item_blocks (ys @ zs) = item_blocks ys \<union> item_blocks zs"
  by (auto simp: item_blocks_def)

lemma blocks_snoc: "blocks H (xs @ [x]) = insert (fst x) (blocks H xs)"
  by (cases H) (auto simp: blocks.simps)

lemma only_queue_receive:
  assumes q: "only_queue B h H ys vs" and mem: "3 \<le> avail h" and v: "length (snd v) < 2 ^ 16"
  shows "\<exists>p h1 h2 ys'. make_pdu v h = Inr (p, h1) \<and> llist_insertlast (list_ptr H) p h1 = Inr h2 \<and>
    only_queue B h2 H ys' (vs @ [v]) \<and> avail h2 = avail h - 3"
proof -
  have qa: "queue_at pdu_item h H ys vs" and lv: "live h = B \<union> (blocks H (nodes_of ys) \<union> item_blocks ys)"
    and dj: "B \<inter> (blocks H (nodes_of ys) \<union> item_blocks ys) = {}" and ok: "heap_ok h"
    using q by (auto simp: only_queue_def queue_at_def)
  from make_pdu_ok [OF ok _ v] mem obtain h1 where h1: "make_pdu v h = Inr (Ptr (brk h) 0, h1)" "heap_ok h1"
    "pdu_item h1 [brk h, Suc (brk h)] v" "same_outside {brk h, Suc (brk h)} h h1" "avail h1 = avail h - 2" by auto
  have fresh: "a < brk h" if "a \<in> blocks H (nodes_of ys) \<union> item_blocks ys" for a
    using live_below [OF ok, of a] that lv by blast
  have q1: "queue_at pdu_item h1 H ys vs"
  proof (rule pdu.queue_frame [OF qa h1(2)])
    fix a assume "a \<in> blocks H (nodes_of ys) \<union> \<Union> (set ` snd ` set ys)"
    then have "a < brk h" by (intro fresh) (simp add: item_blocks_def)
    then show "cells h1 a = cells h a" using h1(4) by (auto simp: same_outside_def)
  qed
  have d1: "dl False h1 H (nodes_of ys)" using q1 by (simp add: queue_at_def)
  from llist_insertlast_dl [OF d1 h1(2), of "Ptr (brk h) 0"] h1(5) mem obtain h2 where
    h2: "llist_insertlast (list_ptr H) (Ptr (brk h) 0) h1 = Inr h2"
    "dl False h2 H (nodes_of ys @ [(brk h1, Ptr (brk h) 0)])" "heap_ok h2" "avail h2 = avail h - 3"
    "same_outside (insert (brk h1) (blocks H (nodes_of ys))) h1 h2" by auto
  let ?ys = "ys @ [(brk h1, [brk h, Suc (brk h)])]"
  have lv1: "live h1 = live h \<union> {brk h, Suc (brk h)}"
    using live_same_outside [OF h1(4)] h1(3) by (auto simp: live_def pdu_item_def)
  have up: "a < brk h1" if "a \<in> live h1" for a using live_below [OF h1(2) that] .
  have "list_all2 (\<lambda>y v. pdu_item h2 (snd y) v) ys vs"
  proof (rule pdu.items_cong)
    show "list_all2 (\<lambda>y v. pdu_item h1 (snd y) v) ys vs" using q1 by (simp add: queue_at_def)
    fix a assume a: "a \<in> \<Union> (set ` snd ` set ys)"
    have "a \<notin> blocks H (nodes_of ys)" using pdu.items_not_blocks [OF _ d1 a] q1 by (auto simp: queue_at_def)
    moreover have "a < brk h1" using a lv lv1 by (intro up) (auto simp: item_blocks_def)
    ultimately show "cells h2 a = cells h1 a" using h2(5) by (auto simp: same_outside_def)
  qed
  moreover have "pdu_item h2 [brk h, Suc (brk h)] v"
  proof (rule pdu.item_cong [OF h1(3)])
    fix a assume a: "a \<in> set [brk h, Suc (brk h)]"
    then have "a \<notin> blocks H (nodes_of ys)" "a < brk h1" using fresh [of a] up [of a] lv1 by auto
    then show "cells h2 a = cells h1 a" using h2(5) by (auto simp: same_outside_def)
  qed
  moreover have "distinct (concat (map snd ?ys))"
    using q1 fresh by (fastforce simp: queue_at_def item_blocks_def)
  ultimately have q2: "queue_at pdu_item h2 H ?ys (vs @ [v])"
    using h2(2,3) by (simp add: queue_at_def list_all2_appendI)
  have "blocks H (nodes_of ?ys) \<subseteq> live h2" using h2(2) by (auto simp: live_def dest: dl_alive)
  moreover have "blocks H (nodes_of ys) \<subseteq> live h1" using d1 by (auto simp: live_def dest: dl_alive)
  moreover have bl: "blocks H (nodes_of ?ys) = insert (brk h1) (blocks H (nodes_of ys))" by (simp add: blocks_snoc)
  ultimately have "live h2 = live h1 \<union> {brk h1}" using live_same_outside [OF h2(5)] by blast
  then have "live h2 = B \<union> (blocks H (nodes_of ?ys) \<union> item_blocks ?ys)" using lv lv1 bl by auto
  moreover have "B \<inter> (blocks H (nodes_of ?ys) \<union> item_blocks ?ys) = {}"
  proof -
    have "a < brk h" "a < brk h1" if "a \<in> B" for a using that live_below [OF ok, of a] up [of a] lv lv1 by auto
    then show ?thesis using dj bl by fastforce
  qed
  ultimately show ?thesis using q2 h1(1) h2(1,4) unfolding only_queue_def by blast
qed

lemma free_struct_pdu:
  assumes "cells h p = Some (CPdu P)" "c_data P = Ptr b 0" "cells h b = Some (CChunk c)" "op \<in> {KERNEL, USER, QUIT}"
  shows "free_struct op (Ptr p 0) h = Inr (h\<lparr>cells := (cells h)(b := None, p := None)\<rparr>)"
proof -
  have "p \<noteq> b" using assms(1,3) by auto
  with assms show ?thesis by (auto simp: free_struct_def)
qed

lemma only_queue_serve:
  assumes q: "only_queue B h H ys (v # vs)" and mem: "2 \<le> avail h"
  shows "\<exists>p h1 h2 ys'. llist_removefirst_PDU (list_ptr H) h = Inr (p, h1) \<and> read_pdu p h1 = Inr v \<and>
    free_struct USER p h1 = Inr h2 \<and> only_queue B h2 H ys' vs \<and> avail h2 = avail h - 2"
proof -
  from q obtain a bs ys' where ys: "ys = (a, bs) # ys'"
    by (auto simp: only_queue_def queue_at_def list_all2_Cons2)
  with q have qa: "queue_at pdu_item h H ((a, bs) # ys') (v # vs)" and
    lv: "live h = B \<union> (insert a (blocks H (nodes_of ys')) \<union> (set bs \<union> item_blocks ys'))" and
    dj: "B \<inter> (insert a (blocks H (nodes_of ys')) \<union> (set bs \<union> item_blocks ys')) = {}"
    by (auto simp: only_queue_def)
  then obtain d b P c where i: "bs = [d, b]" "cells h d = Some (CPdu P)" "c_data P = Ptr b 0"
    "cells h b = Some (CChunk c)" "unat (c_bytes P) \<le> length c" "v = (c_op P, take (unat (c_bytes P)) c)"
    by (auto simp: queue_at_def pdu_item_def)
  have ok: "heap_ok h" and dl: "dl False h H ((a, Ptr d 0) # nodes_of ys')" and
    ap: "set bs \<inter> item_blocks ys' = {}" using qa i by (auto simp: queue_at_def item_blocks_def)
  from llist_removefirst_PDU_dl [OF dl ok _ i(2,3,4,5)] mem obtain h1 where
    h1: "llist_removefirst_PDU (list_ptr H) h = Inr (Ptr (Suc (brk h)) 0, h1)" "dl False h1 H (nodes_of ys')"
    "heap_ok h1" "avail h1 = avail h - 2" "cells h1 (Suc (brk h)) = Some (CPdu (P\<lparr>c_data := Ptr (brk h) 0\<rparr>))"
    "cells h1 (brk h) = Some (CChunk (take (unat (c_bytes P)) c @ [0]))"
    "cells h1 a = None" "cells h1 d = None" "cells h1 b = None"
    "same_outside ({brk h, Suc (brk h), d, b} \<union> blocks H ((a, Ptr d 0) # nodes_of ys')) h h1" by auto
  have rd: "read_pdu (Ptr (Suc (brk h)) 0) h1 = Inr v" using h1(5,6) i(5,6) by (simp add: read_pdu_def)
  let ?A = "{brk h, Suc (brk h)}"
  have same: "same_outside (?A \<union> (set bs \<union> blocks H (nodes_of ((a, bs) # ys')))) h h1"
    by (rule same_outside_mono [OF h1(10)]) (use i(1) in auto)
  have le: "brk h \<le> x" if "x \<in> ?A" for x using that by auto
  have q1: "queue_at pdu_item h1 H ys' vs" by (rule pdu.queue_rest(1) [OF qa h1(2,3) same le])
  have out: "x \<notin> item_blocks ys'" if "x \<in> ?A" for x
    using pdu.queue_rest(2) [OF qa h1(2,3) same le that] by (simp add: item_blocks_def)
  have nb: "x \<notin> blocks H (nodes_of ys')" if "x \<in> ?A" for x
    using live_below [OF ok, of x] lv that by auto
  let ?h2 = "h1\<lparr>cells := (cells h1)(brk h := None, Suc (brk h) := None)\<rparr>"
  have fr: "free_struct USER (Ptr (Suc (brk h)) 0) h1 = Inr ?h2"
    using free_struct_pdu [OF h1(5) _ h1(6), of USER] by simp
  have q2: "queue_at pdu_item ?h2 H ys' vs"
  proof (rule pdu.queue_frame [OF q1])
    show "heap_ok ?h2" using h1(3) by (simp add: heap_ok_def)
    fix x assume "x \<in> blocks H (nodes_of ys') \<union> \<Union> (set ` snd ` set ys')"
    then have "x \<notin> ?A" using out nb by (auto simp: item_blocks_def)
    then show "cells ?h2 x = cells h1 x" by simp
  qed
  have "a \<notin> blocks H (nodes_of ys')" using dl_removed_fresh [of False h H "[]"] dl by simp
  moreover have "d \<notin> blocks H (nodes_of ys')" "b \<notin> blocks H (nodes_of ys')" "a \<noteq> d" "a \<noteq> b" "a \<notin> item_blocks ys'"
    using chunk_not_in_blocks(2) [OF dl i(2)] chunk_not_in_blocks(1) [OF dl i(4)]
      pdu.items_not_blocks [OF _ dl, of ys' vs a] qa by (auto simp: queue_at_def item_blocks_def)
  moreover have "live ?h2 = live h - {a, d, b}"
  proof -
    have "brk h \<notin> live h" "Suc (brk h) \<notin> live h" using live_below [OF ok] by fastforce+
    moreover have "blocks H (nodes_of ys') \<subseteq> live h1" "blocks H (nodes_of ys') \<subseteq> live h"
      using h1(2) dl by (auto simp: live_def dest: dl_alive)
    moreover have "live ?h2 = live h1 - ?A" by (auto simp: live_def)
    ultimately show ?thesis using live_same_outside [OF h1(10)] h1(7-9) by (auto simp: live_def)
  qed
  ultimately have "only_queue B ?h2 H ys' vs" using lv dj q2 ap i(1) by (auto simp: only_queue_def)
  then show ?thesis using h1(1,4) rd fr by (intro exI) auto
qed

section \<open>Whole runs\<close>

text \<open>
  A listening thread appends a PDU (\<open>Enq\<close>); \<open>kernel_communication\<close> takes the first one, works
  with it and frees it (\<open>Deq\<close>).
\<close>

fun run_sender :: "ptr \<Rightarrow> (u8 \<times> byte list) qop list \<Rightarrow> heap \<Rightarrow> ((u8 \<times> byte list) list \<times> heap) res" where
  "run_sender l [] h = Inr ([], h)"
| "run_sender l (Enq v # ops) h =
     bind_r (make_pdu v h) (\<lambda>(p, h).
     bind_r (llist_insertlast l p h) (\<lambda>h. run_sender l ops h))"
| "run_sender l (Deq # ops) h =
     bind_r (llist_removefirst_PDU l h) (\<lambda>(p, h).
     bind_r (read_pdu p h) (\<lambda>v.
     bind_r (free_struct USER p h) (\<lambda>h.
     bind_r (run_sender l ops h) (\<lambda>(vs, h). Inr (v # vs, h)))))"

lemma run_sender_only_queue:
  "only_queue B h H ys q \<Longrightarrow> run_fifo ops q = Inr (vs, q') \<Longrightarrow> \<forall>v \<in> set (enqueued ops). length (snd v) < 2 ^ 16 \<Longrightarrow>
   3 * length ops \<le> avail h \<Longrightarrow>
   \<exists>h' ys'. run_sender (list_ptr H) ops h = Inr (vs, h') \<and> only_queue B h' H ys' q'"
proof (induction ops q arbitrary: h ys vs rule: run_fifo.induct)
  case (2 v ops q)
  have m: "3 \<le> avail h" and v: "length (snd v) < 2 ^ 16" using "2.prems" by simp_all
  from only_queue_receive [OF "2.prems"(1) m v] obtain p h1 h2 ys2 where
    o: "make_pdu v h = Inr (p, h1)" "llist_insertlast (list_ptr H) p h1 = Inr h2"
    "only_queue B h2 H ys2 (q @ [v])" "avail h2 = avail h - 3" by blast
  from "2.IH" [OF o(3)] o(4) "2.prems"(2-4) o(1,2) show ?case by auto
next
  case (4 ops v q)
  have m: "2 \<le> avail h" using "4.prems"(4) by simp
  from only_queue_serve [OF "4.prems"(1) m] obtain p h1 h2 ys2 where
    o: "llist_removefirst_PDU (list_ptr H) h = Inr (p, h1)" "read_pdu p h1 = Inr v" "free_struct USER p h1 = Inr h2"
    "only_queue B h2 H ys2 q" "avail h2 = avail h - 2" by blast
  from "4.prems"(2) obtain vs' where f: "run_fifo ops q = Inr (vs', q')" "vs = v # vs'"
    by (auto simp: bind_r_eq_Inr)
  have "3 * length ops \<le> avail h2" using "4.prems"(4) o(5) by simp
  with "4.IH" [OF o(4) f(1)] "4.prems"(3) obtain h' ys' where
    "run_sender (list_ptr H) ops h2 = Inr (vs', h')" "only_queue B h' H ys' q'" by auto
  with o(1-3) f(2) show ?case by auto
qed auto

lemma card_blocks: "dl b h H xs \<Longrightarrow> card (blocks H xs) = 3 + length xs"
  by (cases H) (auto simp: dl.simps blocks.simps card_insert_if distinct_card simp flip: set_map)

lemma card_items:
  assumes "list_all2 (\<lambda>y v. pdu_item h (snd y) v) ys vs" "distinct (concat (map snd ys))"
  shows "card (item_blocks ys) = 2 * length vs"
proof -
  have "length (concat (map snd ys)) = 2 * length vs" using assms(1)
    by (induction rule: list_all2_induct) (auto simp: pdu_item_def)
  moreover have "set (concat (map snd ys)) = item_blocks ys" by (auto simp: item_blocks_def)
  ultimately show ?thesis using distinct_card [OF assms(2)] by simp
qed

lemma card_only_queue:
  assumes "only_queue B h H ys vs" "finite B"
  shows "card (live h) = card B + 3 + 3 * length vs"
proof -
  have q: "dl False h H (nodes_of ys)" "list_all2 (\<lambda>y v. pdu_item h (snd y) v) ys vs" "distinct (concat (map snd ys))"
    and l: "live h = B \<union> (blocks H (nodes_of ys) \<union> item_blocks ys)" "B \<inter> (blocks H (nodes_of ys) \<union> item_blocks ys) = {}"
    using assms(1) by (auto simp: only_queue_def queue_at_def)
  have f: "finite (blocks H (nodes_of ys))" "finite (item_blocks ys)"
    by (cases H) (auto simp: blocks.simps item_blocks_def)
  have n: "length (nodes_of ys) = length vs" using list_all2_lengthD [OF q(2)] by (simp add: nodes_of_def)
  have "blocks H (nodes_of ys) \<inter> item_blocks ys = {}"
    using pdu.items_not_blocks [OF q(2,1)] by (auto simp: item_blocks_def)
  then have "card (blocks H (nodes_of ys) \<union> item_blocks ys) = 3 + 3 * length vs"
    using f card_blocks [OF q(1)] card_items [OF q(2,3)] n by (simp add: card_Un_disjoint)
  then show ?thesis unfolding l(1) using f assms(2) l(2) by (simp add: card_Un_disjoint)
qed

lemma finite_live: "heap_ok h \<Longrightarrow> finite (live h)"
  by (rule finite_subset [of _ "{..<brk h}"]) (auto dest: live_below)

text \<open>
  C9. The queue between the listening threads and the kernel thread leaks nothing and frees nothing
  twice: over any run in which received PDUs are appended and served ones taken, read and freed,
  the PDUs come out as from a queue, and at its end exactly three blocks (a node, a PDU and its
  data) are alive for each PDU that still waits, besides the list's own three and those of the rest
  of the program.
\<close>

theorem sender_list_memory:
  assumes "heap_ok h" "3 + 3 * length ops \<le> avail h" "\<forall>v \<in> set (enqueued ops). length (snd v) < 2 ^ 16"
    "run_fifo ops [] = Inr (vs, q)"
  shows "\<exists>l h1 h2. llist_empty h = Inr (l, h1) \<and> run_sender l ops h1 = Inr (vs, h2) \<and>
    card (live h2) = card (live h) + 3 + 3 * length q"
proof -
  define H where "H = (brk h, Suc (brk h), Suc (Suc (brk h)))"
  have b: "blocks H [] = {brk h, Suc (brk h), Suc (Suc (brk h))}" by (simp add: H_def blocks.simps)
  from llist_empty_dl [OF assms(1)] assms(2) obtain h1 where h1: "llist_empty h = Inr (list_ptr H, h1)"
    "dl False h1 H []" "heap_ok h1" "avail h1 = avail h - 3" "same_outside (blocks H []) h h1"
    unfolding b by (auto simp: H_def)
  have "blocks H [] \<subseteq> live h1" using h1(2) by (auto simp: live_def dest: dl_alive)
  moreover have d: "live h \<inter> blocks H [] = {}" using live_below [OF assms(1)] b by fastforce
  ultimately have "live h1 = live h \<union> blocks H []" using live_same_outside [OF h1(5)] by blast
  then have "only_queue (live h) h1 H [] []"
    using h1(2,3) d by (simp add: only_queue_def queue_at_def)
  moreover have "3 * length ops \<le> avail h1" using h1(4) assms(2) by linarith
  ultimately obtain h2 ys where
    "run_sender (list_ptr H) ops h1 = Inr (vs, h2)" "only_queue (live h) h2 H ys q"
    using run_sender_only_queue [OF _ assms(4,3)] by blast
  with h1(1) card_only_queue [OF _ finite_live [OF assms(1)]] show ?thesis by blast
qed

theorem sender_list_memory_witness:
  "\<exists>l h1 h2. llist_empty (empty_heap 20) = Inr (l, h1) \<and>
    run_sender l [Enq (12, [1, 2, 3]), Enq (13, [7]), Deq, Enq (14, []), Deq] h1 = Inr ([(12, [1, 2, 3]), (13, [7])], h2) \<and>
    card (live h2) = card (live (empty_heap 20)) + 3 + 3 * length [(14 :: u8, [] :: byte list)]"
  by (rule sender_list_memory) (simp_all add: empty_heap_def heap_ok_def)

end
