(* ===== verification/Latt.thy ===== *)
theory Latt
  imports Complex_Main CPrelude
begin

text \<open>
  The latency tester OU1/latt.c: the running statistics, time stamps, the pseudo-random buffer,
  the options and the command line, the process-shared semaphore, and the measuring rounds of the
  parent with the replies of its children. A \<open>double\<close> is a real number (rounding is left out), a
  \<open>long\<close> is a 64-bit word. What the kernel returns from \<open>read\<close>, \<open>write\<close>, \<open>poll\<close>,
  \<open>clock_gettime\<close> and \<open>waitpid\<close> is an input of the round.
\<close>

type_synonym u64 = "64 word"

section \<open>Statistics\<close>

record stats =
  st_n :: real
  st_mean :: real
  st_M2 :: real
  st_max :: real
  st_max_client :: real

definition no_samples :: stats where
  "no_samples = \<lparr>st_n = 0, st_mean = 0, st_M2 = 0, st_max = 0, st_max_client = 0\<rparr>"

definition update_stats :: "stats \<Rightarrow> u64 \<Rightarrow> stats" where
  "update_stats stats val =
     (let x = real (unat val);
          n = st_n stats + 1;
          delta = x - st_mean stats;
          mean = st_mean stats + delta / n
      in stats\<lparr>st_n := n, st_mean := mean, st_M2 := st_M2 stats + delta * (x - mean),
               st_max := (if st_max stats < x then x else st_max stats)\<rparr>)"

definition nr_stats :: "stats \<Rightarrow> u64" where "nr_stats stats = of_int \<lfloor>st_n stats\<rfloor>"

definition max_stats :: "stats \<Rightarrow> real" where "max_stats stats = st_max stats"

definition avg_stats :: "stats \<Rightarrow> real" where "avg_stats stats = st_mean stats"

definition stddev_stats :: "stats \<Rightarrow> real" where
  "stddev_stats stats = sqrt (st_M2 stats / (st_n stats - 1))"

definition stddev_mean_stats :: "stats \<Rightarrow> real" where
  "stddev_mean_stats stats = sqrt (st_M2 stats / (st_n stats - 1) / st_n stats)"

section \<open>Time stamps\<close>

record timespec =
  tv_sec :: u64
  tv_nsec :: u64

definition usec_since :: "timespec \<Rightarrow> timespec \<Rightarrow> u64" where
  "usec_since start stop =
     (let s = tv_sec start * 1000000000 + tv_nsec start;
          e = tv_sec stop * 1000000000 + tv_nsec stop
      in (e - s) div 1000)"

record return_stamp =
  pre_work :: timespec
  post_work :: timespec

section \<open>Random data\<close>

text \<open>\<open>(unsigned)\<close> cuts the 64-bit quotient to 32 bits.\<close>

definition get_rand :: "u64 \<Rightarrow> u32 \<times> u64" where
  "get_rand pseed =
     (let pseed = pseed * 1103515245 + 12345
      in (ucast (pseed div 65536) mod 32768, pseed))"

fun fill_random_data :: "nat \<Rightarrow> u64 \<Rightarrow> u32 list \<times> u64" where
  "fill_random_data 0 pseed = ([], pseed)"
| "fill_random_data (Suc nr_ints) pseed =
     (let (r, pseed) = get_rand pseed; (buf, pseed) = fill_random_data nr_ints pseed in (r # buf, pseed))"

section \<open>Options and command line\<close>

abbreviation MAX_CLIENTS :: nat where "MAX_CLIENTS \<equiv> 512"

record options =
  min_delay :: u32
  max_delay :: u32
  clients :: u32
  compress_size :: u32
  verbose :: u32

definition default_options :: options where
  "default_options = \<lparr>min_delay = 100, max_delay = 500, clients = 1, compress_size = 64 * 1024, verbose = 0\<rparr>"

text \<open>
  One option as \<open>getopt_long\<close> returns it, with the number \<open>atoi(optarg)\<close>. \<open>None\<close>: the program
  ends (\<open>-V\<close>).
\<close>

fun parse_option :: "char \<times> u32 \<Rightarrow> options \<Rightarrow> options option" where
  "parse_option (c, arg) opt =
     (if c = CHR ''s'' then Some (opt\<lparr>min_delay := arg\<rparr>)
      else if c = CHR ''S'' then Some (opt\<lparr>max_delay := arg\<rparr>)
      else if c = CHR ''c'' then Some (opt\<lparr>clients := (if of_nat MAX_CLIENTS < arg then of_nat MAX_CLIENTS else arg)\<rparr>)
      else if c = CHR ''v'' then Some (opt\<lparr>verbose := 1\<rparr>)
      else if c = CHR ''x'' then Some (opt\<lparr>compress_size := arg * 1024\<rparr>)
      else if c = CHR ''V'' then None
      else Some opt)"

fun parse_options :: "(char \<times> u32) list \<Rightarrow> nat \<Rightarrow> options \<Rightarrow> (nat \<times> options) option" where
  "parse_options [] index opt = Some (index + 1, opt)"
| "parse_options (c # cs) index opt =
     Option.bind (parse_option c opt) (parse_options cs (index + 1))"

text \<open>The loop of \<open>main\<close> that joins the remaining arguments in \<open>app\<close>.\<close>

fun join_app :: "byte list list \<Rightarrow> nat \<Rightarrow> byte list \<Rightarrow> byte list res" where
  "join_app [] off app = Inr app"
| "join_app (arg # args) off app =
     bind_r (if off \<noteq> 0 then bind_r (c_write app off [32]) (\<lambda>app. Inr (app, off + 1)) else Inr (app, off)) (\<lambda>(app, off).
     bind_r (c_write app off (arg @ [0])) (\<lambda>app.
     join_app args (off + length arg) app))"

section \<open>The semaphore\<close>

text \<open>
  A critical section is one step. \<open>sem_down\<close> is its loop test, after which the process either
  is through or sleeps on the condition; a sleeping process that was signalled (or wakes up
  spuriously) has to get the mutex again before it tests.
\<close>

record sem =
  sem_value :: int
  sem_waiters :: int
  asleep :: "nat list"
  woken :: "nat list"

definition init_sem :: sem where
  "init_sem = \<lparr>sem_value = 0, sem_waiters = 0, asleep = [], woken = []\<rparr>"

definition sem_down :: "nat \<Rightarrow> sem \<Rightarrow> bool \<times> sem" where
  "sem_down p s =
     (if sem_value s = 0
      then (False, s\<lparr>sem_waiters := sem_waiters s + 1, asleep := p # asleep s\<rparr>)
      else (True, s\<lparr>sem_value := sem_value s - 1\<rparr>))"

definition sem_down_woken :: "nat \<Rightarrow> sem \<Rightarrow> bool \<times> sem" where
  "sem_down_woken p s = sem_down p (s\<lparr>sem_waiters := sem_waiters s - 1, woken := remove1 p (woken s)\<rparr>)"

definition wake_up :: "nat \<Rightarrow> sem \<Rightarrow> sem" where
  "wake_up p s = (if p \<in> set (asleep s) then s\<lparr>asleep := remove1 p (asleep s), woken := p # woken s\<rparr> else s)"

text \<open>\<open>p\<close> is the process that \<open>pthread_cond_signal\<close> wakes, if any sleeps.\<close>

definition sem_up :: "nat \<Rightarrow> sem \<Rightarrow> sem" where
  "sem_up p s =
     (let s = (if sem_value s = 0 \<and> sem_waiters s \<noteq> 0 then wake_up p s else s)
      in s\<lparr>sem_value := sem_value s + 1\<rparr>)"

text \<open>
  \<open>run_test\<close>: the parent (process 0) forks a child and calls \<open>sem_down\<close>, once for each client;
  a child calls \<open>sem_up\<close> when it has started.
\<close>

datatype parent = Forking | Downing | Sleeping | Ready

record startup =
  the_sem :: sem
  parent :: parent
  forked :: nat
  upped :: nat    \<comment> \<open>children that have called \<open>sem_up\<close>\<close>

definition fresh_startup :: startup where
  "fresh_startup = \<lparr>the_sem = init_sem, parent = Forking, forked = 0, upped = 0\<rparr>"

definition after_down :: "bool \<times> sem \<Rightarrow> startup \<Rightarrow> startup" where
  "after_down r s = s\<lparr>the_sem := snd r, parent := (if fst r then Forking else Sleeping)\<rparr>"

inductive run_test :: "nat \<Rightarrow> bool \<Rightarrow> startup \<Rightarrow> startup \<Rightarrow> bool" for n spurious where
  fork: "parent s = Forking \<Longrightarrow> forked s < n \<Longrightarrow>
    run_test n spurious s (s\<lparr>forked := forked s + 1, parent := Downing\<rparr>)"
| forked_all: "parent s = Forking \<Longrightarrow> forked s = n \<Longrightarrow> run_test n spurious s (s\<lparr>parent := Ready\<rparr>)"
| down: "parent s = Downing \<Longrightarrow> run_test n spurious s (after_down (sem_down 0 (the_sem s)) s)"
| down_woken: "parent s = Sleeping \<Longrightarrow> 0 \<in> set (woken (the_sem s)) \<Longrightarrow>
    run_test n spurious s (after_down (sem_down_woken 0 (the_sem s)) s)"
| child: "upped s < forked s \<Longrightarrow>
    run_test n spurious s (s\<lparr>the_sem := sem_up 0 (the_sem s), upped := upped s + 1\<rparr>)"
| spurious_wakeup: "spurious \<Longrightarrow> 0 \<in> set (asleep (the_sem s)) \<Longrightarrow>
    run_test n spurious s (s\<lparr>the_sem := wake_up 0 (the_sem s)\<rparr>)"

section \<open>Measuring\<close>

record latt =
  delay_stats :: stats
  delay_work_stats :: stats
  pipes :: "(int \<times> int) list"
  closed_fds :: "int list"      \<comment> \<open>the descriptors given to \<open>close\<close>\<close>

text \<open>\<open>__read_ts\<close>; \<open>None\<close>: the read is not complete. \<open>True\<close>: failure.\<close>

definition one_read_ts :: "options \<Rightarrow> timespec \<Rightarrow> return_stamp option \<Rightarrow> latt \<Rightarrow> bool \<times> latt" where
  "one_read_ts opt ts reply s =
     (case reply of
        None \<Rightarrow> (True, s)
      | Some rs \<Rightarrow>
          let delay = usec_since ts (pre_work rs);
              s = s\<lparr>delay_stats := update_stats (delay_stats s) delay\<rparr>;
              s = (if compress_size opt \<noteq> 0
                   then s\<lparr>delay_work_stats :=
                     update_stats (delay_work_stats s) (usec_since ts (post_work rs) - delay)\<rparr>
                   else s)
          in (False, s))"

record pollfd =
  fd :: int
  events :: u16
  revents :: u16

abbreviation POLLIN :: u16 where "POLLIN \<equiv> 1"
abbreviation POLLERR :: u16 where "POLLERR \<equiv> 8"
abbreviation POLLHUP :: u16 where "POLLHUP \<equiv> 16"
abbreviation POLLNVAL :: u16 where "POLLNVAL \<equiv> 32"

fun read_ts :: "options \<Rightarrow> (nat \<Rightarrow> timespec) \<Rightarrow> (nat \<Rightarrow> return_stamp option) \<Rightarrow> nat \<Rightarrow> pollfd list \<Rightarrow> u32 \<Rightarrow> latt \<Rightarrow>
    bool \<times> pollfd list \<times> latt" where
  "read_ts opt ts reply i [] nr s = (False, [], s)"
| "read_ts opt ts reply i (p # pfd) nr s =
     (if revents p AND (POLLERR OR POLLHUP OR POLLNVAL) \<noteq> 0 then (True, p # pfd, s)
      else
        let ready = revents p AND POLLIN \<noteq> 0;
            p = (if ready then p\<lparr>events := 0\<rparr> else p);
            (failed, s) = (if ready then one_read_ts opt (ts i) (reply i) s else (False, s));
            nr = (if ready then nr - 1 else nr)
        in if failed then (True, p # pfd, s)
           else if nr = 0 then (False, p # pfd, s)
           else let (e, pfd, s) = read_ts opt ts reply (i + 1) pfd nr s in (e, p # pfd, s))"

text \<open>
  The results of \<open>poll\<close>: an error, or the \<open>revents\<close> of every descriptor; it returns how many
  are not zero. The loop blocks (\<open>None\<close>) when there is no further event.
\<close>

datatype poll_result = Poll_error | Poll "u16 list"

definition poll_count :: "u16 list \<Rightarrow> nat" where
  "poll_count rs = length (filter (\<lambda>r. r \<noteq> 0) rs)"

definition polled :: "pollfd list \<Rightarrow> u16 list \<Rightarrow> pollfd list" where
  "polled pfd rs = map2 (\<lambda>p r. p\<lparr>revents := r\<rparr>) pfd rs"

fun poll_replies :: "options \<Rightarrow> (nat \<Rightarrow> timespec) \<Rightarrow> (nat \<Rightarrow> return_stamp option) \<Rightarrow> poll_result list \<Rightarrow>
    pollfd list \<Rightarrow> u32 \<Rightarrow> latt \<Rightarrow> (bool \<times> latt) option" where
  "poll_replies opt ts reply [] ipfd pending s = (if pending = 0 then Some (False, s) else None)"
| "poll_replies opt ts reply (r # polls) ipfd pending s =
     (if pending = 0 then Some (False, s)
      else case r of
        Poll_error \<Rightarrow> Some (True, s)
      | Poll rs \<Rightarrow>
          let ipfd = polled ipfd rs; evts = of_nat (poll_count rs)
          in if evts = 0 then poll_replies opt ts reply polls ipfd pending s
             else let (e, ipfd, s) = read_ts opt ts reply 0 ipfd evts s
                  in if e then Some (True, s)
                     else poll_replies opt ts reply polls ipfd (pending - evts) s)"

record wakeup =
  app_exited :: bool
  t1 :: "nat \<Rightarrow> timespec"
  written :: "nat \<Rightarrow> bool"
  stamp :: "nat \<Rightarrow> return_stamp option"
  poll_results :: "poll_result list"

definition fresh_pfd :: "options \<Rightarrow> latt \<Rightarrow> pollfd list" where
  "fresh_pfd opt s =
     map (\<lambda>i. \<lparr>fd = fst (pipes s ! (2 * i + 1)), events = POLLIN, revents = 0\<rparr>) [0..<unat (clients opt)]"

fun measure_rounds :: "options \<Rightarrow> wakeup list \<Rightarrow> latt \<Rightarrow> latt option" where
  "measure_rounds opt [] s = None"
| "measure_rounds opt (r # rounds) s =
     (if app_exited r then Some s
      else if \<not> list_all (written r) [0..<unat (clients opt)] then Some s
      else Option.bind (poll_replies opt (t1 r) (stamp r) (poll_results r) (fresh_pfd opt s) (clients opt) s) (\<lambda>(do_exit, s).
        if do_exit then Some s else measure_rounds opt rounds s))"

definition kill_connection :: "options \<Rightarrow> latt \<Rightarrow> latt" where
  "kill_connection opt s =
     (let n = unat (2 * clients opt); ps = take n (pipes s)
      in s\<lparr>pipes := map (\<lambda>_. (- 1, - 1)) ps @ drop n (pipes s),
           closed_fds := closed_fds s @ concat (map (\<lambda>(a, b). filter (\<lambda>d. d \<noteq> - 1) [a, b]) ps)\<rparr>)"

definition run_parent :: "options \<Rightarrow> wakeup list \<Rightarrow> latt \<Rightarrow> latt option" where
  "run_parent opt rounds s = map_option (kill_connection opt) (measure_rounds opt rounds s)"

text \<open>
  The child: it answers every complete wakeup until a read or a write is cut short. A request
  is: read complete, the time before and after the work, write complete; \<open>post\<close> is the old content
  of the stamp when there is no work to do.
\<close>

fun run_child :: "options \<Rightarrow> (bool \<times> timespec \<times> timespec \<times> bool) list \<Rightarrow> timespec \<Rightarrow> return_stamp list" where
  "run_child opt [] post = []"
| "run_child opt ((read_ok, t, t', write_ok) # rs) post =
     (if \<not> read_ok then []
      else let post = (if compress_size opt \<noteq> 0 then t' else post)
           in if write_ok then \<lparr>pre_work = t, post_work = post\<rparr> # run_child opt rs post else [])"

end
