(* ===== verification/LattMain.thy ===== *)
theory LattMain
  imports Latt
begin

text \<open>
  The latency tester OU1/latt.c as a whole: the work of a child (zlib is the sequence of the results of
  \<open>deflate\<close>), the random sleep, the start of the application, \<open>run_test\<close> around the rounds of Latt,
  the printed statistics and \<open>main\<close>. The results of the system calls are the record \<open>latt_os\<close>.
\<close>

section \<open>Work and sleep\<close>

abbreviation Z_OK :: int where "Z_OK \<equiv> 0"

partial_function (option) deflate_loop :: "(nat \<Rightarrow> int) \<Rightarrow> nat \<Rightarrow> nat option" where
  "deflate_loop deflate k = (if deflate k = Z_OK then deflate_loop deflate (k + 1) else Some (k + 1))"

text \<open>The buffer that is compressed, the number of calls of \<open>deflate\<close>, and the new seed.\<close>

definition do_work :: "options \<Rightarrow> (nat \<Rightarrow> int) \<Rightarrow> u64 \<Rightarrow> (u32 list \<times> nat \<times> u64) option" where
  "do_work opt deflate pseed =
     (let work_size = unat (compress_size opt);
          (buf, pseed) = fill_random_data (work_size div 4) pseed
      in map_option (\<lambda>n. (buf, n, pseed)) (deflate_loop deflate 0))"

abbreviation RAND_MAX :: nat where "RAND_MAX \<equiv> 2147483647"

text \<open>The milliseconds for the result \<open>r\<close> of \<open>rand\<close>, and the microseconds that \<open>usleep\<close> is given.\<close>

definition sleep_msecs :: "options \<Rightarrow> nat \<Rightarrow> u32" where
  "sleep_msecs opt r =
     of_int \<lfloor>real (unat (min_delay opt)) + real (unat (max_delay opt)) * (real r / (real RAND_MAX + 1))\<rfloor>"

definition do_rand_sleep :: "options \<Rightarrow> nat \<Rightarrow> u32" where
  "do_rand_sleep opt r = sleep_msecs opt r * 1000"

section \<open>The application\<close>

text \<open>\<open>fork\<close> returns in the parent and in the child, which becomes the application.\<close>

datatype forked = In_parent int | Runs_app "byte list"

definition fork_off :: "int \<Rightarrow> byte list \<Rightarrow> forked" where
  "fork_off pid app = (if pid \<noteq> 0 then In_parent pid else Runs_app (upto_nul app))"

text \<open>The macros of the C library on the status that \<open>waitpid\<close> reports.\<close>

definition WIFEXITED :: "u32 \<Rightarrow> bool" where "WIFEXITED status \<longleftrightarrow> status AND 127 = 0"

definition WIFSIGNALED :: "u32 \<Rightarrow> bool" where "WIFSIGNALED status \<longleftrightarrow> status AND 127 \<noteq> 0 \<and> status AND 127 \<noteq> 127"

definition app_has_exited :: "int \<Rightarrow> int \<Rightarrow> u32 \<Rightarrow> bool" where
  "app_has_exited app_pid ret status =
     (if ret < 0 then True else ret = app_pid \<and> (WIFSIGNALED status \<or> WIFEXITED status))"

section \<open>The test\<close>

record latt_os =
  mmap_ok :: bool
  pipe_call :: "nat \<Rightarrow> (int \<times> int) option"
  fork_call :: "nat \<Rightarrow> int"
  wakeups :: "wakeup list"

fun make_pipes :: "(nat \<Rightarrow> (int \<times> int) option) \<Rightarrow> nat \<Rightarrow> nat \<Rightarrow> latt \<Rightarrow> bool \<times> latt" where
  "make_pipes pipe i 0 s = (True, s)"
| "make_pipes pipe i (Suc n) s =
     (case pipe i of
        None \<Rightarrow> (False, s)
      | Some p \<Rightarrow> make_pipes pipe (i + 1) n (s\<lparr>pipes := (pipes s)[i := p]\<rparr>))"

text \<open>
  The parent's side of the start: a child that was forked lets it through the semaphore (LattProps); a
  \<open>fork\<close> that fails gives \<open>-1\<close>, which is taken for a child, and nobody does.
\<close>

fun fork_children :: "(nat \<Rightarrow> int) \<Rightarrow> nat \<Rightarrow> nat \<Rightarrow> int list option" where
  "fork_children fork i 0 = Some []"
| "fork_children fork i (Suc n) =
     (if fork i = -1 then None else map_option ((#) (fork i)) (fork_children fork (i + 1) n))"

text \<open>With the processes that are killed and waited for at the end.\<close>

definition run_test_parent :: "options \<Rightarrow> latt_os \<Rightarrow> latt \<Rightarrow> (latt \<times> int list) option" where
  "run_test_parent opt os s =
     (if \<not> mmap_ok os then Some (s, [])
      else case make_pipes (pipe_call os) 0 (unat (2 * clients opt)) s of
        (False, s) \<Rightarrow> Some (s, [])
      | (True, s) \<Rightarrow>
          (case fork_children (fork_call os) 0 (unat (clients opt)) of
             None \<Rightarrow> None
           | Some cpids \<Rightarrow> map_option (\<lambda>s. (s, cpids)) (run_parent opt (wakeups os) s)))"

section \<open>The report\<close>

text \<open>
  Maximum, average and the two deviations; the deviations of one sample are \<open>0 / 0\<close>, which is
  printed as not a number (\<open>None\<close>).
\<close>

definition show_stats :: "stats \<Rightarrow> (real \<times> real \<times> (real \<times> real) option) option" where
  "show_stats s =
     (if st_n s = 0 then None
      else Some (max_stats s, avg_stats s,
        if st_n s = 1 then None else Some (stddev_stats s, stddev_mean_stats s)))"

record report =
  used_options :: options
  app_command :: "byte list"
  entries_logged :: u64
  shown_delay :: "(real \<times> real \<times> (real \<times> real) option) option"
  shown_work :: "(real \<times> real \<times> (real \<times> real) option) option"
  final_state :: latt
  killed :: "int list"

datatype latt_result = Version | Usage | Report report

definition fresh_latt :: latt where
  "fresh_latt = \<lparr>delay_stats = no_samples, delay_work_stats = no_samples,
     pipes = replicate (2 * MAX_CLIENTS) (0, 0), closed_fds = []\<rparr>"

text \<open>
  \<open>main\<close>, with the options that \<open>getopt_long\<close> finds, the arguments as it leaves them, and the array \<open>app\<close>.
\<close>

definition latt_main :: "(char \<times> u32) list \<Rightarrow> byte list list \<Rightarrow> byte list \<Rightarrow> latt_os \<Rightarrow> latt_result res option" where
  "latt_main optv argv app os =
     (case parse_options optv 0 default_options of
        None \<Rightarrow> Some (Inr Version)
      | Some (app_offset, opt) \<Rightarrow>
          if length argv \<le> app_offset then Some (Inr Usage)
          else case join_app (drop app_offset argv) 0 app of
            Inl e \<Rightarrow> Some (Inl e)
          | Inr app \<Rightarrow>
              map_option (\<lambda>(s, cpids). Inr (Report
                \<lparr>used_options = opt, app_command = upto_nul app, entries_logged = nr_stats (delay_stats s),
                 shown_delay = show_stats (delay_stats s), shown_work = show_stats (delay_work_stats s),
                 final_state = s, killed = cpids\<rparr>))
                (run_test_parent opt os fresh_latt))"

end
