(* ===== verification/LattProps.thy ===== *)
theory LattProps
  imports Latt "HOL-Library.Multiset"
begin

text \<open>
  What the latency tester computes: the running statistics against the direct formulas, the
  random numbers against the 31-bit reference generator, the start of the children through the
  semaphore, and the measuring rounds, in which every child is read exactly once.
\<close>

section \<open>Statistics\<close>

definition val :: "u64 \<Rightarrow> real" where "val w = real (unat w)"

text \<open>Sum and sum of squares of the samples.\<close>

definition sum_of :: "u64 list \<Rightarrow> real" where "sum_of xs = (\<Sum>x\<leftarrow>xs. val x)"

definition squares :: "u64 list \<Rightarrow> real" where "squares xs = (\<Sum>x\<leftarrow>xs. (val x)\<^sup>2)"

abbreviation collect :: "u64 list \<Rightarrow> stats" where "collect \<equiv> foldl update_stats no_samples"

lemma collect_snoc: "collect (xs @ [x]) = update_stats (collect xs) x"
  by simp

lemma update_stats_val:
  "update_stats s x = s\<lparr>st_n := st_n s + 1, st_mean := st_mean s + (val x - st_mean s) / (st_n s + 1),
     st_M2 := st_M2 s + (val x - st_mean s) * (val x - (st_mean s + (val x - st_mean s) / (st_n s + 1))),
     st_max := max (st_max s) (val x)\<rparr>"
  by (simp add: update_stats_def Let_def val_def max_def)

lemma collect_n: "st_n (collect xs) = real (length xs)"
  by (induction xs rule: rev_induct) (simp_all add: no_samples_def update_stats_val)

lemma collect_mean: "st_mean (collect xs) * real (length xs) = sum_of xs"
proof (induction xs rule: rev_induct)
  case (snoc x xs)
  let ?n = "real (length xs)" and ?m = "st_mean (collect xs)"
  have "st_mean (collect (xs @ [x])) = ?m + (val x - ?m) / (?n + 1)"
    unfolding collect_snoc by (simp add: update_stats_val collect_n)
  also have "\<dots> * (?n + 1) = ?m * (?n + 1) + (val x - ?m)"
    by (simp add: distrib_right)
  also have "\<dots> = ?m * ?n + val x" by (simp add: algebra_simps)
  finally show ?case using snoc.IH by (simp add: sum_of_def add.commute)
qed (simp add: sum_of_def)

lemma square_shift:
  fixes m d k :: real
  assumes "k \<noteq> 0"
  shows "(m + d / k)\<^sup>2 * k = m\<^sup>2 * k + 2 * m * d + d\<^sup>2 / k"
proof -
  obtain e where "d = e * k" "d / k = e" using assms by (metis nonzero_divide_eq_eq)
  with assms show ?thesis by (simp add: power2_eq_square algebra_simps)
qed

lemma collect_M2: "st_M2 (collect xs) = squares xs - (st_mean (collect xs))\<^sup>2 * real (length xs)"
proof (induction xs rule: rev_induct)
  case Nil
  show ?case by (simp add: squares_def no_samples_def)
next
  case (snoc x xs)
  let ?n = "real (length xs)" and ?m = "st_mean (collect xs)" and ?x = "val x"
  define d where "d = ?x - ?m"
  have N: "?n + 1 \<noteq> 0" by linarith
  have "st_M2 (collect (xs @ [x])) = st_M2 (collect xs) + d * (?x - (?m + d / (?n + 1)))"
    and m: "st_mean (collect (xs @ [x])) = ?m + d / (?n + 1)"
    unfolding collect_snoc by (simp_all add: update_stats_val collect_n d_def)
  then have "st_M2 (collect (xs @ [x])) = squares xs - ?m\<^sup>2 * ?n + d * (d - d / (?n + 1))"
    using snoc.IH by (simp add: d_def)
  moreover have "d * (d - d / (?n + 1)) - ?m\<^sup>2 * ?n = ?x\<^sup>2 - (?m + d / (?n + 1))\<^sup>2 * (?n + 1)"
  proof -
    have x: "?x = ?m + d" by (simp add: d_def)
    note square_shift [OF N, of ?m d]
    moreover have "d * (d - d / (?n + 1)) = d\<^sup>2 - d\<^sup>2 / (?n + 1)"
      by (simp add: power2_eq_square algebra_simps)
    ultimately show ?thesis unfolding x by (simp add: power2_eq_square algebra_simps)
  qed
  ultimately show ?case unfolding m by (simp add: squares_def algebra_simps)
qed

lemma collect_max: "xs \<noteq> [] \<Longrightarrow> st_max (collect xs) = real (Max (unat ` set xs))"
proof (induction xs rule: rev_induct)
  case (snoc x xs)
  show ?case
  proof (cases "xs = []")
    case False
    then have "Max (unat ` set (xs @ [x])) = max (Max (unat ` set xs)) (unat x)" by (simp add: max.commute)
    with False snoc.IH show ?thesis by (simp add: update_stats_val val_def of_nat_max del: of_nat_unat)
  next
    case True
    then show ?thesis by (simp add: update_stats_val no_samples_def val_def max_def del: of_nat_unat)
  qed
qed simp

lemma deviations: "(\<Sum>x\<leftarrow>xs. (val x - m)\<^sup>2) = squares xs - 2 * m * sum_of xs + m\<^sup>2 * real (length xs)"
  by (induction xs) (simp_all add: squares_def sum_of_def power2_eq_square algebra_simps)

lemma collect_formulas:
  assumes "xs \<noteq> []" "s = foldl update_stats no_samples xs" "n = real (length xs)" "mean = sum_of xs / n"
  shows "nr_stats s = of_nat (length xs) \<and> avg_stats s = mean \<and> max_stats s = real (Max (unat ` set xs)) \<and>
    (2 \<le> length xs \<longrightarrow>
      stddev_stats s = sqrt ((\<Sum>x\<leftarrow>xs. (val x - mean)\<^sup>2) / (n - 1)) \<and>
      stddev_stats s = sqrt ((squares xs - (sum_of xs)\<^sup>2 / n) / (n - 1)) \<and>
      stddev_mean_stats s = stddev_stats s / sqrt n)"
proof -
  have n: "n \<noteq> 0" using assms(1,3) by simp
  have mean: "st_mean s = mean"
    unfolding assms(2,4) eq_divide_eq using collect_mean [of xs] n assms(3) by simp
  have M2: "st_M2 s = squares xs - mean\<^sup>2 * n" using collect_M2 [of xs] mean assms(2,3) by simp
  have "mean\<^sup>2 * n = (sum_of xs)\<^sup>2 / n" using n assms(4) by (simp add: power2_eq_square)
  moreover have "(\<Sum>x\<leftarrow>xs. (val x - mean)\<^sup>2) = squares xs - mean\<^sup>2 * n"
    unfolding deviations using n assms(3,4) by (simp add: power2_eq_square)
  ultimately show ?thesis
    using mean M2 collect_n [of xs] collect_max [OF assms(1)] assms(2,3)
    by (simp add: nr_stats_def avg_stats_def max_stats_def stddev_stats_def stddev_mean_stats_def real_sqrt_divide real_sqrt_mult)
qed

text \<open>
  C18. The one-pass statistics of the latency tester agree with the direct formulas: after any
  non-empty sequence of samples the count, mean and maximum are those of the samples, and from two
  samples on the standard deviation is that of the textbook (the mean square distance from the
  mean) and of the formula in the code's comment, and the deviation of the mean is it over \<open>sqrt n\<close>.
\<close>

theorem stats_match_formulas:
  assumes "xs \<noteq> []" "s = foldl update_stats no_samples xs" "n = real (length xs)" "mean = sum_of xs / n"
  shows "nr_stats s = of_nat (length xs) \<and> avg_stats s = mean \<and> max_stats s = real (Max (unat ` set xs)) \<and>
    (2 \<le> length xs \<longrightarrow>
      stddev_stats s = sqrt ((\<Sum>x\<leftarrow>xs. (val x - mean)\<^sup>2) / (n - 1)) \<and>
      stddev_stats s = sqrt ((squares xs - (sum_of xs)\<^sup>2 / n) / (n - 1)) \<and>
      stddev_mean_stats s = stddev_stats s / sqrt n)"
  by (rule collect_formulas [OF assms])

theorem stats_match_formulas_witness:
  "stddev_stats (foldl update_stats no_samples [2, 4, 6]) = sqrt 4 \<and>
   avg_stats (foldl update_stats no_samples [2, 4, 6]) = 4"
proof -
  have v: "val 2 = 2" "val 4 = 4" "val 6 = 6" by (simp_all add: val_def)
  show ?thesis
    using stats_match_formulas [of "[2, 4, 6]" "foldl update_stats no_samples [2, 4, 6]" 3 4]
    by (simp add: sum_of_def squares_def v del: foldl.simps)
qed

section \<open>Random numbers\<close>

text \<open>The generator of the C standard's example: 31 bits of state, the upper 15 are the number.\<close>

fun reference_rand :: "nat \<Rightarrow> nat \<Rightarrow> nat list" where
  "reference_rand 0 seed = []"
| "reference_rand (Suc k) seed =
     (let seed = (seed * 1103515245 + 12345) mod 2 ^ 31 in seed div 65536 # reference_rand k seed)"

lemma get_rand_reference:
  "unat (fst (get_rand w)) = (unat w mod 2 ^ 31 * 1103515245 + 12345) mod 2 ^ 31 div 65536"
  "unat (snd (get_rand w)) mod 2 ^ 31 = (unat w mod 2 ^ 31 * 1103515245 + 12345) mod 2 ^ 31"
proof -
  let ?w = "w * 1103515245 + 12345"
  have "unat ?w mod 2 ^ 31 = (unat w * 1103515245 + 12345) mod 2 ^ 64 mod 2 ^ 31"
    by (simp add: unat_word_ariths mod_simps)
  also have "\<dots> = (unat w * 1103515245 + 12345) mod 2 ^ 31"
    by (intro mod_mod_cancel le_imp_power_dvd) simp
  also have "\<dots> = (unat w mod 2 ^ 31 * 1103515245 + 12345) mod 2 ^ 31"
    by (metis mod_add_left_eq mod_mult_left_eq)
  finally have w: "unat ?w mod 2 ^ 31 = (unat w mod 2 ^ 31 * 1103515245 + 12345) mod 2 ^ 31" .
  then show "unat (snd (get_rand w)) mod 2 ^ 31 = (unat w mod 2 ^ 31 * 1103515245 + 12345) mod 2 ^ 31"
    by (simp add: get_rand_def Let_def)
  have "unat (ucast (?w div 65536) mod 32768 :: u32) = unat ?w div 65536 mod 2 ^ 32 mod 32768"
    by (simp add: unat_mod unat_div unsigned_ucast_eq take_bit_eq_mod)
  also have "\<dots> = unat ?w div 2 ^ 16 mod 2 ^ 15" by (simp add: mod_mod_cancel)
  also have "\<dots> = unat ?w mod 2 ^ 31 div 2 ^ 16"
    using mod_mult2_eq [of "unat ?w" "2 ^ 16" "2 ^ 15"] by simp
  finally show "unat (fst (get_rand w)) = (unat w mod 2 ^ 31 * 1103515245 + 12345) mod 2 ^ 31 div 65536"
    using w by (simp add: get_rand_def Let_def)
qed

text \<open>
  The random work buffer holds the numbers of the reference generator: although \<open>pseed\<close> is a
  64-bit word that overflows and is cut to 32 bits in between, the buffer is the sequence of the
  31-bit generator from the lower bits of the seed, and every number is below 32768.
\<close>

theorem random_data_reference:
  "map unat (fst (fill_random_data k seed)) = reference_rand k (unat seed mod 2 ^ 31) \<and>
   list_all (\<lambda>r. r < 32768) (fst (fill_random_data k seed))"
proof (induction k arbitrary: seed)
  case (Suc k)
  obtain r s' where g: "get_rand seed = (r, s')" by (cases "get_rand seed")
  obtain buf s'' where b: "fill_random_data k s' = (buf, s'')" by (cases "fill_random_data k s'")
  note ref = get_rand_reference [of seed, unfolded g fst_conv snd_conv]
  have "(unat seed mod 2 ^ 31 * 1103515245 + 12345) mod 2 ^ 31 < 2 ^ 31" by simp
  then have "(unat seed mod 2 ^ 31 * 1103515245 + 12345) mod 2 ^ 31 div 65536 < 32768"
    by (simp add: less_mult_imp_div_less)
  then have "r < 32768" using ref(1) by (simp add: word_less_nat_alt)
  then show ?case using Suc.IH [of s'] ref by (simp add: g b Let_def)
qed simp

section \<open>Starting the children\<close>

fun place_ok :: "nat \<Rightarrow> parent \<Rightarrow> nat \<Rightarrow> nat \<Rightarrow> sem \<Rightarrow> bool" where
  "place_ok n Forking f u m \<longleftrightarrow> u = f \<and> f \<le> n \<and> m = init_sem"
| "place_ok n Downing f u m \<longleftrightarrow> 0 < f \<and> f \<le> n \<and> (u = f - 1 \<and> m = init_sem \<or> u = f \<and> m = init_sem\<lparr>sem_value := 1\<rparr>)"
| "place_ok n Sleeping f u m \<longleftrightarrow> 0 < f \<and> f \<le> n \<and>
     (u = f - 1 \<and> m = init_sem\<lparr>sem_waiters := 1, asleep := [0]\<rparr> \<or>
      u = f - 1 \<and> m = init_sem\<lparr>sem_waiters := 1, woken := [0]\<rparr> \<or>
      u = f \<and> m = init_sem\<lparr>sem_value := 1, sem_waiters := 1, woken := [0]\<rparr>)"
| "place_ok n Ready f u m \<longleftrightarrow> u = n \<and> f = n \<and> m = init_sem"

abbreviation startup_ok :: "nat \<Rightarrow> startup \<Rightarrow> bool" where
  "startup_ok n s \<equiv> place_ok n (parent s) (forked s) (upped s) (the_sem s)"

lemmas sem_ops = after_down_def sem_down_def sem_down_woken_def sem_up_def wake_up_def init_sem_def Let_def

lemma startup_ok_step: "run_test n spurious s s' \<Longrightarrow> startup_ok n s \<Longrightarrow> startup_ok n s'"
  by (cases "parent s") (auto elim!: run_test.cases simp: sem_ops)

lemma startup_ok_steps: "(run_test n spurious)\<^sup>*\<^sup>* s s' \<Longrightarrow> startup_ok n s \<Longrightarrow> startup_ok n s'"
  by (induction rule: rtranclp_induct) (auto intro: startup_ok_step)

lemma startup_ok_reachable: "(run_test n spurious)\<^sup>*\<^sup>* fresh_startup s \<Longrightarrow> startup_ok n s"
  by (erule startup_ok_steps) (simp add: fresh_startup_def)

text \<open>What is left to do.\<close>

fun place_left :: "parent \<Rightarrow> nat list \<Rightarrow> nat" where
  "place_left Forking w = 1"
| "place_left Downing w = 4"
| "place_left Sleeping w = (if w = [] then 2 else 3)"
| "place_left Ready w = 0"

definition startup_left :: "nat \<Rightarrow> startup \<Rightarrow> nat" where
  "startup_left n s = 5 * (n - forked s) + 3 * (n - upped s) + place_left (parent s) (woken (the_sem s))"

lemma startup_left_step: "run_test n False s s' \<Longrightarrow> startup_ok n s \<Longrightarrow> startup_left n s' < startup_left n s"
  by (cases "parent s") (auto elim!: run_test.cases simp: sem_ops startup_left_def)

lemma startup_left_bound: "startup_ok n s \<Longrightarrow> startup_left n s \<le> 8 * n + 1"
  by (cases "parent s") (auto simp: startup_left_def init_sem_def)

lemma startup_progress: "startup_ok n s \<Longrightarrow> parent s \<noteq> Ready \<Longrightarrow> \<exists>s'. run_test n False s s'"
proof (cases "parent s")
  case Forking
  moreover assume "startup_ok n s"
  ultimately show ?thesis using run_test.fork [of s n False] run_test.forked_all [of s n False]
    by (cases "forked s < n") auto
next
  case Downing
  then show ?thesis using run_test.down by blast
next
  case Sleeping
  moreover assume "startup_ok n s"
  ultimately have "upped s < forked s \<or> 0 \<in> set (woken (the_sem s))" by (auto simp: init_sem_def)
  with Sleeping show ?thesis using run_test.child run_test.down_woken by blast
qed simp

lemma startup_reaches_ready:
  "startup_ok n s \<Longrightarrow> \<exists>s'. (run_test n False)\<^sup>*\<^sup>* s s' \<and> parent s' = Ready"
proof (induction "startup_left n s" arbitrary: s rule: less_induct)
  case less
  show ?case
  proof (cases "parent s = Ready")
    case False
    then obtain s1 where s1: "run_test n False s s1" using startup_progress [OF less.prems] by blast
    with less.hyps startup_left_step startup_ok_step less.prems obtain s' where
      "(run_test n False)\<^sup>*\<^sup>* s1 s'" "parent s' = Ready" by blast
    with s1 show ?thesis by (meson converse_rtranclp_into_rtranclp)
  qed blast
qed

lemma startup_steps_bound: "(run_test n False ^^ k) s s' \<Longrightarrow> startup_ok n s \<Longrightarrow> k + startup_left n s' \<le> startup_left n s"
proof (induction k arbitrary: s')
  case (Suc k)
  then obtain s1 where s1: "(run_test n False ^^ k) s s1" "run_test n False s1 s'" by auto
  have "startup_ok n s1" using relpowp_imp_rtranclp [OF s1(1)] Suc.prems(2) by (rule startup_ok_steps)
  with Suc.IH [OF s1(1) Suc.prems(2)] startup_left_step [OF s1(2)] show ?case by simp
qed simp

text \<open>
  C19. The tester starts its children one by one and misses none: in every state that the forking
  parent and its children can reach through the semaphore, spurious wakeups included, a parent
  that is through has seen each of its \<open>n\<close> children and left the semaphore as it was; from every
  state it gets there; and without spurious wakeups it does within \<open>8 * n + 1\<close> steps, however the
  processes are scheduled. No wakeup is lost with a single waiting process.
\<close>

theorem startup_completes:
  assumes "(run_test n spurious)\<^sup>*\<^sup>* fresh_startup s"
  shows "(parent s = Ready \<longrightarrow> forked s = n \<and> upped s = n \<and> the_sem s = init_sem) \<and>
    (\<exists>s'. (run_test n False)\<^sup>*\<^sup>* s s' \<and> parent s' = Ready) \<and>
    ((run_test n False ^^ k) s s' \<longrightarrow> k \<le> 8 * n + 1)"
proof (intro conjI impI)
  note ok = startup_ok_reachable [OF assms]
  show "\<exists>s'. (run_test n False)\<^sup>*\<^sup>* s s' \<and> parent s' = Ready" by (rule startup_reaches_ready [OF ok])
  show "k \<le> 8 * n + 1" if "(run_test n False ^^ k) s s'"
    using startup_steps_bound [OF that ok] startup_left_bound [OF ok] by simp
qed (use startup_ok_reachable [OF assms] in auto)

theorem startup_completes_witness:
  "\<exists>s'. (run_test 3 False)\<^sup>*\<^sup>* fresh_startup s' \<and> parent s' = Ready"
  by (rule startup_completes [of 3 True, OF rtranclp.rtrancl_refl, THEN conjunct2, THEN conjunct1])

section \<open>Time stamps\<close>

definition nanoseconds :: "timespec \<Rightarrow> nat" where
  "nanoseconds t = unat (tv_sec t) * 1000000000 + unat (tv_nsec t)"

lemma nanoseconds_word: "tv_sec t * 1000000000 + tv_nsec t = of_nat (nanoseconds t)"
  by (simp add: nanoseconds_def)

text \<open>
  A delay is the exact number of whole microseconds between two stamps whose nanoseconds fit
  in 64 bits, when the later one is given second; the other way round it wraps to a number close
  to \<open>2 ^ 64 / 1000\<close>.
\<close>

theorem usec_since_exact:
  assumes "nanoseconds start < 2 ^ 64" "nanoseconds stop < 2 ^ 64"
  shows "unat (usec_since start stop) =
    (if nanoseconds start \<le> nanoseconds stop then (nanoseconds stop - nanoseconds start) div 1000
     else (2 ^ 64 - (nanoseconds start - nanoseconds stop)) div 1000)"
proof -
  let ?s = "of_nat (nanoseconds start) :: u64" and ?e = "of_nat (nanoseconds stop) :: u64"
  have u: "unat ?s = nanoseconds start" "unat ?e = nanoseconds stop" using assms by (simp_all add: unat_of_nat)
  have "unat (?e - ?s) = (if unat ?s \<le> unat ?e then unat ?e - unat ?s else unat ?e + 2 ^ 64 - unat ?s)"
    by (simp only: unat_sub_if') simp
  then have "unat (?e - ?s) = (if nanoseconds start \<le> nanoseconds stop then nanoseconds stop - nanoseconds start
      else 2 ^ 64 - (nanoseconds start - nanoseconds stop))"
    unfolding u using assms by auto
  then show ?thesis by (simp add: usec_since_def Let_def nanoseconds_word unat_div del: of_nat_add of_nat_mult)
qed

theorem usec_since_exact_witness:
  "unat (usec_since \<lparr>tv_sec = 7, tv_nsec = 999999000\<rparr> \<lparr>tv_sec = 8, tv_nsec = 2500\<rparr>) = 3 \<and>
   unat (usec_since \<lparr>tv_sec = 0, tv_nsec = 1\<rparr> \<lparr>tv_sec = 0, tv_nsec = 0\<rparr>) = 18446744073709551"
  using usec_since_exact [of "\<lparr>tv_sec = 7, tv_nsec = 999999000\<rparr>" "\<lparr>tv_sec = 8, tv_nsec = 2500\<rparr>"]
    usec_since_exact [of "\<lparr>tv_sec = 0, tv_nsec = 1\<rparr>" "\<lparr>tv_sec = 0, tv_nsec = 0\<rparr>"]
  by (simp add: nanoseconds_def)

section \<open>The command line\<close>

lemma parse_option_clients:
  "parse_option c opt = Some opt' \<Longrightarrow> unat (clients opt) \<le> MAX_CLIENTS \<Longrightarrow> unat (clients opt') \<le> MAX_CLIENTS"
  by (cases c) (auto simp: word_less_nat_alt split: if_splits)

text \<open>
  The number of clients is capped. The returned index counts the options and not the arguments
  they take up, so \<open>-c 8\<close> leaves the 8 to the command.
\<close>

lemma parse_options_clients:
  "parse_options cs index opt = Some (i, opt') \<Longrightarrow> unat (clients opt) \<le> MAX_CLIENTS \<Longrightarrow>
   unat (clients opt') \<le> MAX_CLIENTS \<and> i = index + length cs + 1"
proof (induction cs arbitrary: index opt)
  case (Cons c cs)
  from Cons.prems(1) obtain o1 where "parse_option c opt = Some o1" "parse_options cs (index + 1) o1 = Some (i, opt')"
    by (auto split: bind_splits)
  with Cons.IH [of "index + 1" o1] Cons.prems(2) parse_option_clients show ?case by simp
qed auto

text \<open>The command that is meant: the arguments with a space between them.\<close>

fun command :: "byte list list \<Rightarrow> byte list" where
  "command [] = []"
| "command (arg # args) = (if arg = [] then command args else arg @ concat (map ((#) 32) args))"

lemma join_app_rest:
  "pre \<noteq> [] \<Longrightarrow>
   if length (pre @ concat (map ((#) 32) args)) \<le> length pre + length rest
   then \<exists>rest'. join_app args (length pre) (pre @ 0 # rest) = Inr ((pre @ concat (map ((#) 32) args)) @ 0 # rest') \<and>
     length ((pre @ concat (map ((#) 32) args)) @ 0 # rest') = length (pre @ 0 # rest)
   else join_app args (length pre) (pre @ 0 # rest) = Inl OutOfBoundsWrite"
proof (induction args arbitrary: pre rest)
  case (Cons arg args)
  have sp: "c_write (pre @ 0 # rest) (length pre) [32] = Inr (pre @ 32 # rest)" by simp
  show ?case
  proof (cases "length arg < length rest")
    case True
    have w: "c_write (pre @ 32 # rest) (length pre + 1) (arg @ [0]) =
        Inr ((pre @ 32 # arg) @ 0 # drop (length arg + 1) rest)" using True by simp
    have j: "join_app (arg # args) (length pre) (pre @ 0 # rest) =
        join_app args (length (pre @ 32 # arg)) ((pre @ 32 # arg) @ 0 # drop (length arg + 1) rest)"
      using Cons.prems by (simp add: sp [simplified] w [simplified])
    have len: "length (pre @ 32 # arg) + length (drop (length arg + 1) rest) = length pre + length rest"
      "length ((pre @ 32 # arg) @ 0 # drop (length arg + 1) rest) = length (pre @ 0 # rest)"
      using True by simp_all
    have l: "(pre @ 32 # arg) @ concat (map ((#) 32) args) = pre @ concat (map ((#) 32) (arg # args))" by simp
    show ?thesis unfolding j
      by (rule Cons.IH [of "pre @ 32 # arg" "drop (length arg + 1) rest", unfolded len l]) simp
  next
    case False
    then have "c_write (pre @ 32 # rest) (length pre + 1) (arg @ [0]) = Inl OutOfBoundsWrite"
      by (intro c_write_fail) simp
    then have "join_app (arg # args) (length pre) (pre @ 0 # rest) = Inl OutOfBoundsWrite"
      using Cons.prems by (simp add: sp [simplified])
    with False show ?thesis by simp
  qed
qed simp

text \<open>
  The command line of the tester fits or overruns: for any arguments (one at least) \<open>main\<close>
  builds exactly the command in \<open>app\<close> when it has at most 255 characters, and writes past the
  array when it has more.
\<close>

theorem command_line_bound:
  assumes "args \<noteq> []" "length app = 256"
  shows "if length (command args) \<le> 255
    then \<exists>rest. join_app args 0 app = Inr (command args @ 0 # rest) \<and> length (command args @ 0 # rest) = 256
    else join_app args 0 app = Inl OutOfBoundsWrite"
  using assms
proof (induction args arbitrary: app rule: command.induct)
  case (2 arg args)
  show ?case
  proof (cases "arg = []")
    case True
    obtain b r where app: "app = b # r" using "2.prems"(2) by (cases app) auto
    have j: "join_app (arg # args) 0 app = join_app args 0 (0 # r)" using True app by simp
    show ?thesis
    proof (cases "args = []")
      case True
      then show ?thesis using j \<open>arg = []\<close> "2.prems"(2) app by simp
    next
      case False
      with "2.IH" [OF \<open>arg = []\<close> this, of "0 # r"] show ?thesis
        using \<open>arg = []\<close> j "2.prems"(2) app by (auto split: if_splits)
    qed
  next
    case False
    show ?thesis
    proof (cases "length arg < 256")
      case True
      then have w: "c_write app 0 (arg @ [0]) = Inr (arg @ 0 # drop (length arg + 1) app)" using "2.prems"(2) by simp
      have "join_app (arg # args) 0 app = join_app args (length arg) (arg @ 0 # drop (length arg + 1) app)"
        using w by simp
      moreover have "length arg + length (drop (length arg + 1) app) = 255" using True "2.prems"(2) by simp
      ultimately show ?thesis
        using join_app_rest [OF False, of args "drop (length arg + 1) app"] False True "2.prems"(2)
        by (auto split: if_splits)
    next
      case long: False
      then have "c_write app 0 (arg @ [0]) = Inl OutOfBoundsWrite" using "2.prems"(2) by (intro c_write_fail) simp
      with long False show ?thesis by simp
    qed
  qed
qed simp

theorem command_line_bound_witness:
  "join_app [replicate 200 65, replicate 100 66] 0 (replicate 256 0) = Inl OutOfBoundsWrite"
  using command_line_bound [of "[replicate 200 65, replicate 100 66]" "replicate 256 0"]
  by (simp del: replicate.simps join_app.simps)

end
