(* ===== verification/LattRounds.thy ===== *)
theory LattRounds
  imports LattProps
begin

text \<open>
  The measuring rounds of the latency tester: with polls that answer as \<open>poll\<close> is documented
  to, every client's reply is read and logged exactly once in a round, whatever the order in
  which and the groups by which the replies come.
\<close>

section \<open>Reading the replies\<close>

definition log_reply :: "options \<Rightarrow> (nat \<Rightarrow> timespec) \<Rightarrow> (nat \<Rightarrow> return_stamp option) \<Rightarrow> latt \<Rightarrow> nat \<Rightarrow> latt" where
  "log_reply opt ts reply s i = snd (one_read_ts opt (ts i) (reply i) s)"

definition clear :: "pollfd \<Rightarrow> pollfd" where
  "clear p = (if revents p \<noteq> 0 then p\<lparr>events := 0\<rparr> else p)"

fun ready_from :: "nat \<Rightarrow> pollfd list \<Rightarrow> nat list" where
  "ready_from i [] = []"
| "ready_from i (p # pfd) = (if revents p \<noteq> 0 then [i] else []) @ ready_from (i + 1) pfd"

lemma one_read_ts_reply: "reply \<noteq> None \<Longrightarrow> \<not> fst (one_read_ts opt ts reply s)"
  by (auto simp: one_read_ts_def Let_def)

lemma none_ready: "ready_from i pfd = [] \<Longrightarrow> map clear pfd = pfd"
  by (induction pfd arbitrary: i) (auto simp: clear_def split: if_splits)

lemma length_ready: "length (ready_from i pfd) \<le> length pfd"
  by (induction pfd arbitrary: i) (auto simp: le_SucI)

lemma of_nat_0_iff: "m < 2 ^ 32 \<Longrightarrow> (of_nat m :: u32) = 0 \<longleftrightarrow> m = 0"
  by (auto simp: word_of_nat_eq_0_iff dest!: dvd_imp_le)

lemma read_ts_reads_ready:
  assumes "list_all (\<lambda>p. revents p = 0 \<or> revents p = POLLIN) pfd" "\<forall>j < length pfd. reply (i + j) \<noteq> None"
    "length pfd < 2 ^ 32"
  shows "read_ts opt ts reply i pfd (of_nat (length (ready_from i pfd))) s =
    (False, map clear pfd, foldl (log_reply opt ts reply) s (ready_from i pfd))"
  using assms
proof (induction pfd arbitrary: i s)
  case (Cons p pfd)
  have shift: "\<forall>j < length pfd. reply (i + 1 + j) \<noteq> None" using Cons.prems(2) by auto
  note IH = Cons.IH [OF _ shift]
  let ?k = "length (ready_from (i + 1) pfd)"
  have k: "?k < 2 ^ 32" using length_ready [of "i + 1" pfd] Cons.prems(3) by simp
  show ?case
  proof (cases "revents p = 0")
    case True
    then have c: "clear p = p" by (simp add: clear_def)
    show ?thesis
    proof (cases "?k = 0")
      case z: True
      then show ?thesis using True c none_ready [of "i + 1" pfd] by simp
    next
      case False
      then have "(of_nat ?k :: u32) \<noteq> 0" using k by (simp add: of_nat_0_iff)
      then show ?thesis using True c IH Cons.prems by (simp add: Let_def split_beta)
    qed
  next
    case False
    then have r: "revents p = POLLIN" and c: "clear p = p\<lparr>events := 0\<rparr>" using Cons.prems(1) by (auto simp: clear_def)
    have "reply i \<noteq> None" using Cons.prems(2) by (metis add_0_right length_Cons zero_less_Suc)
    then obtain s' where o: "one_read_ts opt (ts i) (reply i) s = (False, s')" "log_reply opt ts reply s i = s'"
      using one_read_ts_reply [of "reply i" opt "ts i" s] by (cases "one_read_ts opt (ts i) (reply i) s") (auto simp: log_reply_def)
    have n: "of_nat (length (ready_from i (p # pfd))) - 1 = (of_nat ?k :: u32)" using False by simp
    show ?thesis
    proof (cases "?k = 0")
      case z: True
      then show ?thesis using r c o n none_ready [of "i + 1" pfd] by simp
    next
      case nz: False
      then have "(of_nat ?k :: u32) \<noteq> 0" using k by (simp add: of_nat_0_iff)
      then show ?thesis using r c o n nz IH Cons.prems by (simp add: Let_def split_beta)
    qed
  qed
qed simp

section \<open>Polling\<close>

text \<open>The clients whose reply is still awaited.\<close>

definition waiting :: "pollfd list \<Rightarrow> nat list" where
  "waiting pfd = filter (\<lambda>i. events (pfd ! i) \<noteq> 0) [0..<length pfd]"

text \<open>
  \<open>poll\<close> as documented, with no connection broken: only input is reported that the array asks for
  at the time of the call (\<open>read_ts\<close> leaves the array for the next one, whatever the statistics
  in \<open>s\<close> are), and the replies of all clients come at last.
\<close>

definition poll_ok :: "pollfd list \<Rightarrow> u16 list \<Rightarrow> bool" where
  "poll_ok pfd rs \<longleftrightarrow> list_all2 (\<lambda>p r. r = 0 \<or> r = POLLIN \<and> events p \<noteq> 0) pfd rs"

definition array_read :: "options \<Rightarrow> (nat \<Rightarrow> timespec) \<Rightarrow> (nat \<Rightarrow> return_stamp option) \<Rightarrow> latt \<Rightarrow> pollfd list \<Rightarrow>
    u16 list \<Rightarrow> pollfd list" where
  "array_read opt ts reply s pfd rs = fst (snd (read_ts opt ts reply 0 (polled pfd rs) (of_nat (poll_count rs)) s))"

fun polls_ok :: "(pollfd list \<Rightarrow> u16 list \<Rightarrow> pollfd list) \<Rightarrow> pollfd list \<Rightarrow> poll_result list \<Rightarrow> bool" where
  "polls_ok after pfd (Poll rs # polls) \<longleftrightarrow>
     waiting pfd = [] \<or> poll_ok pfd rs \<and> polls_ok after (after pfd rs) polls"
| "polls_ok after pfd polls \<longleftrightarrow> waiting pfd = []"

lemma polled_props:
  assumes "poll_ok pfd rs"
  shows "length (polled pfd rs) = length pfd"
    and "\<And>i. i < length pfd \<Longrightarrow> polled pfd rs ! i = (pfd ! i)\<lparr>revents := rs ! i\<rparr>"
    and "list_all (\<lambda>p. revents p = 0 \<or> revents p = POLLIN) (polled pfd rs)"
    and "poll_count rs = length (ready_from i (polled pfd rs))"
proof -
  show "length (polled pfd rs) = length pfd" "\<And>i. i < length pfd \<Longrightarrow> polled pfd rs ! i = (pfd ! i)\<lparr>revents := rs ! i\<rparr>"
    "list_all (\<lambda>p. revents p = 0 \<or> revents p = POLLIN) (polled pfd rs)"
    using assms by (auto simp: poll_ok_def polled_def list_all_length list_all2_conv_all_nth)
  show "poll_count rs = length (ready_from i (polled pfd rs))"
    using assms unfolding poll_ok_def polled_def poll_count_def
    by (induction arbitrary: i rule: list_all2_induct) auto
qed

lemma ready_from_filter: "ready_from i pfd = filter (\<lambda>j. revents (pfd ! (j - i)) \<noteq> 0) [i..<i + length pfd]"
proof (induction pfd arbitrary: i)
  case (Cons p pfd)
  have "filter (\<lambda>j. revents (pfd ! (j - (i + 1))) \<noteq> 0) [i + 1..<i + 1 + length pfd] =
      filter (\<lambda>j. revents ((p # pfd) ! (j - i)) \<noteq> 0) [i + 1..<i + 1 + length pfd]"
    by (intro filter_cong) (auto simp: nth_Cons' Suc_diff_Suc)
  with Cons.IH [of "i + 1"] show ?case by (simp add: upt_conv_Cons del: upt_Suc)
qed simp

lemma waiting_split:
  assumes "poll_ok pfd rs"
  shows "mset (waiting pfd) =
    mset (ready_from 0 (polled pfd rs)) + mset (waiting (map clear (polled pfd rs)))"
proof -
  note p = polled_props(1,2) [OF assms]
  have e: "rs ! i \<noteq> 0 \<longrightarrow> events (pfd ! i) \<noteq> 0" if "i < length pfd" for i
    using assms that by (auto simp: poll_ok_def list_all2_conv_all_nth)
  have "ready_from 0 (polled pfd rs) = filter (\<lambda>i. rs ! i \<noteq> 0) (waiting pfd)"
    unfolding ready_from_filter waiting_def filter_filter
    by (simp add: p(1)) (auto intro!: filter_cong simp: p e)
  moreover have "waiting (map clear (polled pfd rs)) = filter (\<lambda>i. \<not> rs ! i \<noteq> 0) (waiting pfd)"
    unfolding waiting_def filter_filter by (simp add: p(1)) (auto intro!: filter_cong simp: p clear_def split: if_splits)
  ultimately show ?thesis using multiset_partition [of "mset (waiting pfd)" "\<lambda>i. rs ! i \<noteq> 0"] by simp
qed

lemma array_read_clear:
  assumes "poll_ok pfd rs" "\<forall>i < length pfd. reply i \<noteq> None" "length pfd < 2 ^ 32"
  shows "array_read opt ts reply s pfd rs = map clear (polled pfd rs)"
  using read_ts_reads_ready [of "polled pfd rs" reply 0 opt ts s] polled_props [OF assms(1)] assms(2,3)
  by (simp add: array_read_def)

lemma poll_replies_read_all:
  assumes "polls_ok (array_read opt ts reply s0) ipfd polls" "\<forall>i < length ipfd. reply i \<noteq> None" "length ipfd < 2 ^ 32"
  shows "\<exists>order. mset order = mset (waiting ipfd) \<and>
    poll_replies opt ts reply polls ipfd (of_nat (length (waiting ipfd))) s =
      Some (False, foldl (log_reply opt ts reply) s order)"
  using assms
proof (induction polls arbitrary: ipfd s)
  case Nil
  then show ?case by (intro exI [of _ "[]"]) simp
next
  case (Cons r polls)
  have lw: "length (waiting pfd) \<le> length pfd" for pfd
    unfolding waiting_def by (rule le_trans [OF length_filter_le]) simp
  show ?case
  proof (cases "waiting ipfd = []")
    case True
    then show ?thesis by (intro exI [of _ "[]"]) simp
  next
    case False
    have nz: "(of_nat (length (waiting ipfd)) :: u32) \<noteq> 0"
      using False lw [of ipfd] Cons.prems(3) by (simp add: of_nat_0_iff)
    obtain rs where r: "r = Poll rs" "poll_ok ipfd rs" "polls_ok (array_read opt ts reply s0) (map clear (polled ipfd rs)) polls"
      using Cons.prems False array_read_clear by (cases r) auto
    let ?p = "polled ipfd rs"
    note p = polled_props [OF r(2)]
    have "\<forall>i < length (map clear ?p). reply i \<noteq> None" "length (map clear ?p) < 2 ^ 32"
      using Cons.prems(2,3) p(1) by simp_all
    note IH = Cons.IH [OF r(3) this]
    have k: "length (ready_from 0 ?p) < 2 ^ 32" using length_ready [of 0 ?p] p(1) Cons.prems(3) by simp
    note sp = waiting_split [OF r(2)]
    then have len: "length (waiting ipfd) = length (ready_from 0 ?p) + length (waiting (map clear ?p))"
      by (metis size_mset size_union)
    show ?thesis
    proof (cases "ready_from 0 ?p = []")
      case True
      obtain order where "mset order = mset (waiting (map clear ?p))"
        "poll_replies opt ts reply polls (map clear ?p) (of_nat (length (waiting (map clear ?p)))) s =
          Some (False, foldl (log_reply opt ts reply) s order)" using IH by blast
      with True sp len nz r(1) p(4) [of 0] none_ready [OF True] show ?thesis
        by (intro exI [of _ order]) simp
    next
      case rd: False
      let ?s = "foldl (log_reply opt ts reply) s (ready_from 0 ?p)"
      obtain order where o: "mset order = mset (waiting (map clear ?p))"
        "poll_replies opt ts reply polls (map clear ?p) (of_nat (length (waiting (map clear ?p)))) ?s =
          Some (False, foldl (log_reply opt ts reply) ?s order)" using IH by blast
      have "read_ts opt ts reply 0 ?p (of_nat (length (ready_from 0 ?p))) s = (False, map clear ?p, ?s)"
        using p(1,3) Cons.prems(2,3) by (intro read_ts_reads_ready) simp_all
      moreover have "(of_nat (length (ready_from 0 ?p)) :: u32) \<noteq> 0" using rd k by (simp add: of_nat_0_iff)
      ultimately show ?thesis
        using o sp len nz r(1) p(4) [of 0] by (intro exI [of _ "ready_from 0 ?p @ order"]) (simp add: Let_def)
    qed
  qed
qed

section \<open>Rounds\<close>

definition round_delay :: "wakeup \<Rightarrow> nat \<Rightarrow> u64" where
  "round_delay r i = usec_since (t1 r i) (pre_work (the (stamp r i)))"

definition wakeup_ok :: "options \<Rightarrow> latt \<Rightarrow> wakeup \<Rightarrow> bool" where
  "wakeup_ok opt s r \<longleftrightarrow> \<not> app_exited r \<and>
     (\<forall>i < unat (clients opt). written r i \<and> stamp r i \<noteq> None) \<and>
     polls_ok (array_read opt (t1 r) (stamp r) s) (fresh_pfd opt s) (poll_results r)"

lemma log_reply_delay:
  "reply i \<noteq> None \<Longrightarrow> delay_stats (log_reply opt ts reply s i) =
     update_stats (delay_stats s) (usec_since (ts i) (pre_work (the (reply i))))"
  by (auto simp: log_reply_def one_read_ts_def Let_def)

lemma log_reply_pipes: "pipes (log_reply opt ts reply s i) = pipes s" "closed_fds (log_reply opt ts reply s i) = closed_fds s"
  by (auto simp: log_reply_def one_read_ts_def Let_def split: option.splits)

lemma log_replies_pipes:
  "pipes (foldl (log_reply opt ts reply) s order) = pipes s"
  "closed_fds (foldl (log_reply opt ts reply) s order) = closed_fds s"
  by (induction order arbitrary: s) (simp_all add: log_reply_pipes)

lemma log_replies_delays:
  "\<forall>i \<in> set order. stamp r i \<noteq> None \<Longrightarrow>
   delay_stats (foldl (log_reply opt (t1 r) (stamp r)) s order) =
     foldl update_stats (delay_stats s) (map (round_delay r) order)"
  by (induction order arbitrary: s) (simp_all add: log_reply_delay round_delay_def)

lemma fresh_pfd_waiting: "waiting (fresh_pfd opt s) = [0..<unat (clients opt)]" "length (fresh_pfd opt s) = unat (clients opt)"
proof -
  have "waiting (fresh_pfd opt s) = filter (\<lambda>_. True) [0..<length (fresh_pfd opt s)]"
    unfolding waiting_def by (rule filter_cong) (simp_all add: fresh_pfd_def)
  then show "waiting (fresh_pfd opt s) = [0..<unat (clients opt)]" by (simp add: fresh_pfd_def)
qed (simp add: fresh_pfd_def)

lemma measure_round:
  assumes "wakeup_ok opt s0 r" "fresh_pfd opt s = fresh_pfd opt s0"
  obtains order s' where "mset order = mset [0..<unat (clients opt)]"
    "measure_rounds opt (r # rounds) s = measure_rounds opt rounds s'"
    "delay_stats s' = foldl update_stats (delay_stats s) (map (round_delay r) order)"
    "pipes s' = pipes s" "closed_fds s' = closed_fds s"
proof -
  have r: "\<not> app_exited r" "\<forall>i < unat (clients opt). written r i \<and> stamp r i \<noteq> None"
    "polls_ok (array_read opt (t1 r) (stamp r) s0) (fresh_pfd opt s) (poll_results r)"
    using assms by (auto simp: wakeup_ok_def)
  have "\<forall>i < length (fresh_pfd opt s). stamp r i \<noteq> None" "length (fresh_pfd opt s) < 2 ^ 32"
    using r(2) unsigned_less [of "clients opt"] by (simp_all add: fresh_pfd_waiting)
  from poll_replies_read_all [OF r(3) this, of s] obtain order where
    o: "mset order = mset [0..<unat (clients opt)]"
    "poll_replies opt (t1 r) (stamp r) (poll_results r) (fresh_pfd opt s) (clients opt) s =
      Some (False, foldl (log_reply opt (t1 r) (stamp r)) s order)" by (auto simp: fresh_pfd_waiting)
  have "\<forall>i \<in> set order. stamp r i \<noteq> None" using r(2) mset_eq_setD [OF o(1)] by auto
  note log = log_replies_delays [OF this, of opt s] log_replies_pipes [of opt "t1 r" "stamp r" s order]
  have "measure_rounds opt (r # rounds) s =
      measure_rounds opt rounds (foldl (log_reply opt (t1 r) (stamp r)) s order)"
    using r(1,2) o(2) by (simp add: list_all_length)
  with log show thesis using that o(1) by blast
qed

lemma measure_all:
  assumes "list_all (wakeup_ok opt s0) rounds" "app_exited end_round" "fresh_pfd opt s = fresh_pfd opt s0"
  shows "\<exists>xs s'. measure_rounds opt (rounds @ [end_round]) s = Some s' \<and>
    delay_stats s' = foldl update_stats (delay_stats s) xs \<and> pipes s' = pipes s \<and> closed_fds s' = closed_fds s \<and>
    mset xs = (\<Sum>r\<leftarrow>rounds. mset (map (round_delay r) [0..<unat (clients opt)]))"
  using assms(1,3)
proof (induction rounds arbitrary: s)
  case Nil
  show ?case using assms(2) by (intro exI [of _ "[]"] exI [of _ s]) simp
next
  case (Cons r rounds)
  have ok: "wakeup_ok opt s0 r" using Cons.prems(1) by simp
  obtain order s1 where r: "mset order = mset [0..<unat (clients opt)]"
    "measure_rounds opt (r # rounds @ [end_round]) s = measure_rounds opt (rounds @ [end_round]) s1"
    "delay_stats s1 = foldl update_stats (delay_stats s) (map (round_delay r) order)"
    "pipes s1 = pipes s" "closed_fds s1 = closed_fds s" by (rule measure_round [OF ok Cons.prems(2)])
  have "fresh_pfd opt s1 = fresh_pfd opt s0" using r(4) Cons.prems(2) by (simp add: fresh_pfd_def)
  from Cons.IH [OF _ this] Cons.prems(1) obtain xs s' where x: "measure_rounds opt (rounds @ [end_round]) s1 = Some s'"
    "delay_stats s' = foldl update_stats (delay_stats s1) xs" "pipes s' = pipes s1" "closed_fds s' = closed_fds s1"
    "mset xs = (\<Sum>r\<leftarrow>rounds. mset (map (round_delay r) [0..<unat (clients opt)]))" by auto
  have "mset (map (round_delay r) order) = mset (map (round_delay r) [0..<unat (clients opt)])"
    using r(1) by (simp only: mset_map)
  with x r show ?case by (intro exI [of _ "map (round_delay r) order @ xs"] exI [of _ s']) simp
qed

lemma sum_of_mset: "sum_of xs = sum_mset (image_mset val (mset xs))"
  by (simp add: sum_of_def sum_mset_sum_list flip: mset_map)

lemma size_rounds: "size (\<Sum>r\<leftarrow>rounds. mset (map (f r) [0..<n])) = length rounds * n"
  by (induction rounds) simp_all

lemma sum_rounds:
  "sum_mset (image_mset val (\<Sum>r\<leftarrow>rounds. mset (map (f r) [0..<n]))) = (\<Sum>r\<leftarrow>rounds. \<Sum>i<n. val (f r i))"
  by (induction rounds) (simp_all add: sum_mset_sum_list interv_sum_list_conv_sum_set_nat atLeast0LessThan flip: mset_map)

text \<open>
  The tester measures what it means to: when every round's wakeups are written, the children
  answer and \<open>poll\<close> reports their replies in any order and grouping, the run ends when the
  program under test does, exactly one delay per client and round has been logged, their average
  is the average over all clients and rounds, and every open pipe of the clients has been closed
  exactly once.
\<close>

theorem every_reply_counted_once:
  assumes "unat (clients opt) \<le> MAX_CLIENTS" "2 * MAX_CLIENTS = length (pipes s)"
    "delay_stats s = no_samples" "list_all (wakeup_ok opt s) rounds" "app_exited end_round"
    "n = length rounds * unat (clients opt)"
  shows "\<exists>s'. run_parent opt (rounds @ [end_round]) s = Some s' \<and>
    nr_stats (delay_stats s') = of_nat n \<and>
    avg_stats (delay_stats s') = (\<Sum>r\<leftarrow>rounds. \<Sum>i<unat (clients opt). val (round_delay r i)) / real n \<and>
    take (2 * unat (clients opt)) (pipes s') = replicate (2 * unat (clients opt)) (- 1, - 1) \<and>
    closed_fds s' = closed_fds s @ filter (\<lambda>d. d \<noteq> - 1)
      (concat (map (\<lambda>(a, b). [a, b]) (take (2 * unat (clients opt)) (pipes s))))"
proof -
  obtain xs s1 where x: "measure_rounds opt (rounds @ [end_round]) s = Some s1"
    "delay_stats s1 = collect xs" "pipes s1 = pipes s" "closed_fds s1 = closed_fds s"
    "mset xs = (\<Sum>r\<leftarrow>rounds. mset (map (round_delay r) [0..<unat (clients opt)]))"
    using measure_all [OF assms(4,5) refl] assms(3) by auto
  have n: "length xs = n" using arg_cong [OF x(5), where f = size] assms(6) by (simp only: size_mset size_rounds)
  have sum: "sum_of xs = (\<Sum>r\<leftarrow>rounds. \<Sum>i<unat (clients opt). val (round_delay r i))"
    by (simp only: sum_of_mset x(5) sum_rounds)
  have avg: "st_mean (collect xs) = sum_of xs / real n"
  proof (cases "xs = []")
    case False
    then show ?thesis using collect_mean [of xs] n by (auto simp: eq_divide_eq)
  qed (simp add: no_samples_def n [symmetric])
  have u: "unat (2 * clients opt) = 2 * unat (clients opt)"
    using assms(1) by (simp add: unat_word_ariths)
  have f: "concat (map (\<lambda>(a, b). filter (\<lambda>d. d \<noteq> - 1) [a, b]) ps) =
      filter (\<lambda>d. d \<noteq> - 1) (concat (map (\<lambda>(a, b). [a, b]) ps))" for ps :: "(int \<times> int) list"
    by (induction ps) auto
  let ?s = "kill_connection opt s1"
  have "run_parent opt (rounds @ [end_round]) s = Some ?s" by (simp add: run_parent_def x(1))
  moreover have "nr_stats (delay_stats ?s) = of_nat n" "avg_stats (delay_stats ?s) = sum_of xs / real n"
    using avg by (simp_all add: kill_connection_def Let_def nr_stats_def avg_stats_def x(2) collect_n n)
  moreover have "take (2 * unat (clients opt)) (pipes ?s) = replicate (2 * unat (clients opt)) (- 1, - 1)"
    using assms(1,2) by (simp add: kill_connection_def Let_def u x(3) map_replicate_const)
  moreover have "closed_fds ?s = closed_fds s @ filter (\<lambda>d. d \<noteq> - 1)
      (concat (map (\<lambda>(a, b). [a, b]) (take (2 * unat (clients opt)) (pipes s))))"
    by (simp add: kill_connection_def Let_def u x(3,4) f [symmetric] del: filter.simps)
  ultimately show ?thesis unfolding sum by blast
qed

text \<open>A round of two clients whose replies come one after the other.\<close>

definition example_options :: options where "example_options = default_options\<lparr>clients := 2\<rparr>"

definition example_latt :: latt where
  "example_latt = \<lparr>delay_stats = no_samples, delay_work_stats = no_samples,
     pipes = replicate (2 * MAX_CLIENTS) (3, 4), closed_fds = []\<rparr>"

definition example_round :: wakeup where
  "example_round = \<lparr>app_exited = False, t1 = (\<lambda>_. \<lparr>tv_sec = 0, tv_nsec = 0\<rparr>), written = (\<lambda>_. True),
     stamp = (\<lambda>_. Some \<lparr>pre_work = \<lparr>tv_sec = 0, tv_nsec = 5000\<rparr>, post_work = \<lparr>tv_sec = 0, tv_nsec = 9000\<rparr>\<rparr>),
     poll_results = [Poll [0, POLLIN], Poll [0, 0], Poll [POLLIN, 0]]\<rparr>"

lemma example_pfd: "fresh_pfd example_options example_latt =
  [\<lparr>fd = 3, events = POLLIN, revents = 0\<rparr>, \<lparr>fd = 3, events = POLLIN, revents = 0\<rparr>]"
proof -
  have "[0..<unat (clients example_options)] = [0, 1]"
    by (simp add: example_options_def default_options_def upt_conv_Cons)
  then show ?thesis by (simp add: fresh_pfd_def example_latt_def)
qed

lemma example_round_ok: "list_all (wakeup_ok example_options example_latt) [example_round]"
  by (simp add: wakeup_ok_def example_pfd) (simp add: example_round_def waiting_def poll_ok_def polled_def array_read_def poll_count_def
      one_read_ts_def Let_def upt_rec)

theorem every_reply_counted_once_witness:
  "\<exists>s'. run_parent example_options ([example_round] @ [example_round\<lparr>app_exited := True\<rparr>]) example_latt = Some s' \<and>
    nr_stats (delay_stats s') = of_nat (2 :: nat)"
proof -
  have "unat (clients example_options) = 2" by (simp add: example_options_def)
  then have c: "unat (clients example_options) \<le> MAX_CLIENTS" "2 = length [example_round] * unat (clients example_options)"
    by simp_all
  have s: "2 * MAX_CLIENTS = length (pipes example_latt)" "delay_stats example_latt = no_samples"
    by (simp_all add: example_latt_def)
  have e: "app_exited (example_round\<lparr>app_exited := True\<rparr>)" by simp
  show ?thesis using every_reply_counted_once [OF c(1) s example_round_ok e c(2)] by blast
qed

end
