(* ===== verification/LattMainProps.thy ===== *)
theory LattMainProps
  imports LattMain LattRounds
begin

text \<open>What the latency tester prints, and its sleeps and work.\<close>

section \<open>Sleep and work\<close>

lemma real_of_int_floor_bounds: "real_of_int \<lfloor>x\<rfloor> \<le> x" "x < real_of_int \<lfloor>x\<rfloor> + 1"
  by linarith+

text \<open>
  The random sleep lies between the minimum and the sum of minimum and maximum: \<open>-S\<close> is the width of the
  interval, not the maximum that the head of the file and the comment of \<open>do_rand_sleep\<close> promise.
\<close>

theorem sleep_between:
  assumes "r \<le> RAND_MAX" "unat (min_delay opt) + unat (max_delay opt) < 2 ^ 32"
  shows "unat (min_delay opt) \<le> unat (sleep_msecs opt r)"
    "unat (sleep_msecs opt r) \<le> unat (min_delay opt) + unat (max_delay opt)"
proof -
  let ?a = "real (unat (min_delay opt))" and ?b = "real (unat (max_delay opt))"
  let ?q = "real r / (real RAND_MAX + 1)"
  let ?f = "\<lfloor>?a + ?b * ?q\<rfloor>"
  have q: "0 \<le> ?q" "?q \<le> 1" using assms(1) by auto
  have b: "0 \<le> ?b" by (rule of_nat_0_le_iff)
  have "0 \<le> ?b * ?q" "?b * ?q \<le> ?b" by (rule mult_nonneg_nonneg [OF b q(1)], rule mult_left_le [OF q(2) b])
  then have f: "int (unat (min_delay opt)) \<le> ?f" "?f \<le> int (unat (min_delay opt) + unat (max_delay opt))"
    by (simp_all add: le_floor_iff floor_le_iff)
  have "int (unat (min_delay opt) + unat (max_delay opt)) < int (2 ^ 32)" using assms(2) by (simp only: of_nat_less_iff)
  also have "\<dots> = 2 ^ 32" by simp
  finally have "0 \<le> ?f" "?f < 2 ^ 32" using f by linarith+
  then have "uint (sleep_msecs opt r) = ?f" by (simp add: sleep_msecs_def uint_word_of_int_eq take_bit_int_eq_self)
  then have "int (unat (sleep_msecs opt r)) = ?f" by simp
  with f show "unat (min_delay opt) \<le> unat (sleep_msecs opt r)"
    "unat (sleep_msecs opt r) \<le> unat (min_delay opt) + unat (max_delay opt)" by linarith+
qed

theorem sleep_exceeds_maximum: "unat (max_delay default_options) < unat (sleep_msecs default_options 2000000000)"
proof -
  have "\<lfloor>100 + 500 * (2000000000 / (2147483648 :: real))\<rfloor> = 565" by (simp add: floor_eq_iff)
  then show ?thesis by (simp add: sleep_msecs_def default_options_def)
qed

lemma deflate_loop_ends:
  assumes "deflate k \<noteq> Z_OK"
  shows "\<exists>n. deflate_loop deflate 0 = Some n \<and> n \<le> k + 1"
proof -
  have "\<exists>n. deflate_loop deflate i = Some n \<and> n \<le> k + 1" if "i \<le> k" for i
    using that
  proof (induction "k - i" arbitrary: i)
    case 0
    with assms show ?case by (subst deflate_loop.simps) simp
  next
    case (Suc d)
    then show ?case
    proof (cases "deflate i = Z_OK")
      case True
      with Suc have "\<exists>n. deflate_loop deflate (i + 1) = Some n \<and> n \<le> k + 1" by simp
      with True show ?thesis by (subst deflate_loop.simps) simp
    qed (subst deflate_loop.simps, simp)
  qed
  then show ?thesis by simp
qed

lemma length_random_data: "length (fst (fill_random_data k seed)) = k"
  by (induction k arbitrary: seed) (auto simp: case_prod_beta Let_def)

lemma deflate_loop_blocks:
  assumes "\<forall>k. deflate k = Z_OK"
  shows "deflate_loop deflate i = None"
proof -
  have "\<not> (\<forall>k. d k = Z_OK)" if "deflate_loop d j = Some n" for d j n
    by (rule deflate_loop.raw_induct [of "\<lambda>d _ _. \<not> (\<forall>k. d k = Z_OK)", OF _ that]) (auto split: if_splits)
  with assms show ?thesis by (cases "deflate_loop deflate i") auto
qed

text \<open>The work of a child ends exactly when zlib at last reports something else than that it wants to go on.\<close>

theorem work_ends:
  "(\<exists>k. deflate k \<noteq> Z_OK) \<longleftrightarrow> (\<exists>buf n seed. do_work opt deflate pseed = Some (buf, n, seed) \<and>
     length buf = unat (compress_size opt) div 4)"
proof
  assume "\<exists>k. deflate k \<noteq> Z_OK"
  then obtain n where "deflate_loop deflate 0 = Some n" using deflate_loop_ends by blast
  then show "\<exists>buf n seed. do_work opt deflate pseed = Some (buf, n, seed) \<and> length buf = unat (compress_size opt) div 4"
    using length_random_data by (simp add: do_work_def case_prod_beta Let_def)
next
  assume "\<exists>buf n seed. do_work opt deflate pseed = Some (buf, n, seed) \<and> length buf = unat (compress_size opt) div 4"
  then have "deflate_loop deflate 0 \<noteq> None" by (auto simp: do_work_def case_prod_beta Let_def)
  with deflate_loop_blocks [of deflate 0] show "\<exists>k. deflate k \<noteq> Z_OK" by metis
qed

section \<open>Statistics\<close>

text \<open>The formulas, on the samples in any order.\<close>

definition reference_stats :: "u64 list \<Rightarrow> (real \<times> real \<times> (real \<times> real) option) option" where
  "reference_stats xs =
     (if xs = [] then None
      else
        let n = real (length xs); mean = sum_of xs / n; dev = sqrt ((\<Sum>x\<leftarrow>xs. (val x - mean)\<^sup>2) / (n - 1))
        in Some (real (Max (unat ` set xs)), mean, if length xs = 1 then None else Some (dev, dev / sqrt n)))"

lemma reference_stats_mset:
  assumes "mset xs = mset ys"
  shows "reference_stats xs = reference_stats ys"
proof -
  have "length xs = length ys" "set xs = set ys" "sum_of xs = sum_of ys" using assms
    by (auto simp: sum_of_mset dest: mset_eq_length mset_eq_setD)
  moreover have "(\<Sum>x\<leftarrow>xs. f x) = (\<Sum>x\<leftarrow>ys. f x)" for f :: "u64 \<Rightarrow> real"
    using assms by (metis mset_map sum_mset_sum_list)
  ultimately show ?thesis unfolding reference_stats_def by (metis length_0_conv)
qed

lemma show_collected: "show_stats (collect xs) = reference_stats xs"
proof (cases "xs = []")
  case True
  then show ?thesis by (simp add: show_stats_def reference_stats_def no_samples_def)
next
  case False
  note f = collect_formulas [OF False refl refl refl]
  have n: "st_n (collect xs) = real (length xs)" by (rule collect_n)
  show ?thesis
  proof (cases "length xs = 1")
    case True
    with f n False show ?thesis by (simp add: show_stats_def reference_stats_def Let_def)
  next
    case more: False
    from False have "length xs \<noteq> 0" by simp
    with more have "2 \<le> length xs" by linarith
    with f n False more show ?thesis by (simp add: show_stats_def reference_stats_def Let_def)
  qed
qed

section \<open>The test\<close>

lemma make_pipes_all:
  "\<forall>j. i \<le> j \<and> j < i + n \<longrightarrow> pipe j \<noteq> None \<Longrightarrow> i + n \<le> length (pipes s) \<Longrightarrow>
   make_pipes pipe i n s = (True, s\<lparr>pipes := take i (pipes s) @ map (\<lambda>j. the (pipe j)) [i..<i + n] @ drop (i + n) (pipes s)\<rparr>)"
proof (induction n arbitrary: i s)
  case (Suc n)
  have "pipe i \<noteq> None" using Suc.prems(1) by simp
  then obtain p where p: "pipe i = Some p" by blast
  have "make_pipes pipe (i + 1) n (s\<lparr>pipes := (pipes s)[i := p]\<rparr>) =
    (True, s\<lparr>pipes := take (i + 1) ((pipes s)[i := p]) @ map (\<lambda>j. the (pipe j)) [i + 1..<i + 1 + n] @ drop (i + 1 + n) ((pipes s)[i := p])\<rparr>)"
    using Suc.IH [of "i + 1" "s\<lparr>pipes := (pipes s)[i := p]\<rparr>"] Suc.prems by simp
  moreover have "take (i + 1) ((pipes s)[i := p]) = take i (pipes s) @ [p]"
    using Suc.prems(2) by (simp add: take_Suc_conv_app_nth)
  moreover have "[i..<i + Suc n] = i # [i + 1..<i + 1 + n]" by (simp add: upt_conv_Cons)
  ultimately show ?case using p by (simp del: upt_Suc)
qed simp

lemma fork_children_all:
  "fork_children fork i n = (if \<forall>j. i \<le> j \<and> j < i + n \<longrightarrow> fork j \<noteq> -1 then Some (map fork [i..<i + n]) else None)"
proof (induction n arbitrary: i)
  case (Suc n)
  have "(\<forall>j. i \<le> j \<and> j < i + Suc n \<longrightarrow> fork j \<noteq> -1) \<longleftrightarrow> fork i \<noteq> -1 \<and> (\<forall>j. i + 1 \<le> j \<and> j < i + 1 + n \<longrightarrow> fork j \<noteq> -1)"
    by (metis Suc_eq_plus1 Suc_leI add_Suc_right add_Suc_shift le_eq_less_or_eq le_add1 not_less_eq_eq plus_1_eq_Suc Suc_le_lessD less_add_Suc1)
  moreover have "[i..<i + Suc n] = i # [i + 1..<i + 1 + n]" by (simp add: upt_conv_Cons)
  ultimately show ?case using Suc.IH [of "i + 1"] by (auto simp del: upt_Suc)
qed simp

text \<open>The state with the pipes of the run, and the delays of all rounds in the order of rounds and clients.\<close>

definition with_pipes :: "options \<Rightarrow> latt_os \<Rightarrow> latt" where
  "with_pipes opt os = fresh_latt\<lparr>pipes := map (\<lambda>j. the (pipe_call os j)) [0..<2 * unat (clients opt)] @
     replicate (2 * MAX_CLIENTS - 2 * unat (clients opt)) (0, 0)\<rparr>"

definition all_delays :: "options \<Rightarrow> wakeup list \<Rightarrow> u64 list" where
  "all_delays opt rounds = concat (map (\<lambda>r. map (round_delay r) [0..<unat (clients opt)]) rounds)"

lemma mset_all_delays: "mset (all_delays opt rounds) = (\<Sum>r\<leftarrow>rounds. mset (map (round_delay r) [0..<unat (clients opt)]))"
  by (induction rounds) (simp_all add: all_delays_def)

lemma length_all_delays: "length (all_delays opt rounds) = length rounds * unat (clients opt)"
  by (induction rounds) (simp_all add: all_delays_def)

text \<open>The operating system carries out every call.\<close>

definition calls_succeed :: "options \<Rightarrow> latt_os \<Rightarrow> bool" where
  "calls_succeed opt os \<longleftrightarrow> mmap_ok os \<and> (\<forall>j < 2 * unat (clients opt). pipe_call os j \<noteq> None) \<and>
     (\<forall>j < unat (clients opt). fork_call os j \<noteq> -1)"

lemma twice_clients: "unat (clients opt) \<le> MAX_CLIENTS \<Longrightarrow> unat (2 * clients opt) = 2 * unat (clients opt)"
  by (simp add: unat_word_ariths)

lemma pipes_made:
  assumes "unat (clients opt) \<le> MAX_CLIENTS" "\<forall>j < 2 * unat (clients opt). pipe_call os j \<noteq> None"
  shows "make_pipes (pipe_call os) 0 (unat (2 * clients opt)) fresh_latt = (True, with_pipes opt os)"
proof -
  have "0 + 2 * unat (clients opt) \<le> length (pipes fresh_latt)" using assms(1) by (simp add: fresh_latt_def)
  from make_pipes_all [OF _ this, of "pipe_call os"] assms show ?thesis
    by (simp add: twice_clients with_pipes_def fresh_latt_def)
qed

lemma run_test_parent_report:
  assumes "unat (clients opt) \<le> MAX_CLIENTS" "calls_succeed opt os" "wakeups os = rounds @ [end_round]"
    "list_all (wakeup_ok opt (with_pipes opt os)) rounds" "app_exited end_round"
  shows "\<exists>s xs. run_test_parent opt os fresh_latt = Some (s, map (fork_call os) [0..<unat (clients opt)]) \<and>
    delay_stats s = collect xs \<and> mset xs = mset (all_delays opt rounds) \<and>
    closed_fds s = filter (\<lambda>d. d \<noteq> - 1) (concat (map (\<lambda>j. [fst (the (pipe_call os j)), snd (the (pipe_call os j))]) [0..<2 * unat (clients opt)]))"
proof -
  let ?s = "with_pipes opt os" and ?m = "2 * unat (clients opt)"
  have d: "delay_stats ?s = no_samples" "closed_fds ?s = []" by (simp_all add: with_pipes_def fresh_latt_def)
  obtain xs s1 where x: "measure_rounds opt (rounds @ [end_round]) ?s = Some s1" "delay_stats s1 = collect xs"
    "pipes s1 = pipes ?s" "closed_fds s1 = []" "mset xs = mset (all_delays opt rounds)"
    using measure_all [OF assms(4,5) refl] d mset_all_delays by metis
  have f: "fork_children (fork_call os) 0 (unat (clients opt)) = Some (map (fork_call os) [0..<unat (clients opt)])"
    using assms(2) by (simp add: fork_children_all calls_succeed_def)
  have "\<forall>j < ?m. pipe_call os j \<noteq> None" using assms(2) by (simp add: calls_succeed_def)
  note p = pipes_made [OF assms(1) this]
  have t: "take ?m (pipes ?s) = map (\<lambda>j. the (pipe_call os j)) [0..<?m]" by (simp add: with_pipes_def)
  have "run_test_parent opt os fresh_latt = Some (kill_connection opt s1, map (fork_call os) [0..<unat (clients opt)])"
    using assms(2,3) p f x(1) by (simp add: run_test_parent_def calls_succeed_def run_parent_def)
  moreover have "closed_fds (kill_connection opt s1) = concat (map (\<lambda>(a, b). filter (\<lambda>d. d \<noteq> - 1) [a, b]) (take ?m (pipes ?s)))"
    using x(3,4) by (simp add: kill_connection_def Let_def twice_clients [OF assms(1)] del: filter.simps)
  moreover have "\<dots> = filter (\<lambda>d. d \<noteq> - 1) (concat (map (\<lambda>j. [fst (the (pipe_call os j)), snd (the (pipe_call os j))]) [0..<?m]))"
    unfolding t by (simp add: filter_concat case_prod_beta o_def del: filter.simps)
  moreover have "delay_stats (kill_connection opt s1) = collect xs" using x(2) by (simp add: kill_connection_def Let_def)
  ultimately show ?thesis using x(5) by metis
qed

lemma make_pipes_fail:
  "\<exists>j. i \<le> j \<and> j < i + n \<and> pipe j = None \<Longrightarrow> \<exists>s'. make_pipes pipe i n s = (False, s') \<and> delay_stats s' = delay_stats s"
proof (induction n arbitrary: i s)
  case (Suc n)
  show ?case
  proof (cases "pipe i")
    case (Some p)
    from Suc.prems obtain j where j: "i \<le> j" "j < i + Suc n" "pipe j = None" by blast
    with Some have "i + 1 \<le> j \<and> j < i + 1 + n \<and> pipe j = None" by (cases "j = i") auto
    then have "\<exists>j. i + 1 \<le> j \<and> j < i + 1 + n \<and> pipe j = None" by blast
    from Suc.IH [OF this, of "s\<lparr>pipes := (pipes s)[i := p]\<rparr>"] Some show ?thesis by simp
  qed simp
qed auto

lemma run_test_parent_fails:
  assumes "\<not> (mmap_ok os \<and> (\<forall>j < 2 * unat (clients opt). pipe_call os j \<noteq> None))" "unat (clients opt) \<le> MAX_CLIENTS"
  shows "\<exists>s. run_test_parent opt os fresh_latt = Some (s, []) \<and> delay_stats s = no_samples"
proof (cases "mmap_ok os")
  case True
  with assms(1) obtain j where "j < 2 * unat (clients opt)" "pipe_call os j = None" by blast
  then have "\<exists>j. 0 \<le> j \<and> j < 0 + unat (2 * clients opt) \<and> pipe_call os j = None"
    unfolding twice_clients [OF assms(2)] by (intro exI [of _ j]) simp
  from make_pipes_fail [OF this, of fresh_latt] True show ?thesis
    by (auto simp: run_test_parent_def fresh_latt_def)
qed (simp add: run_test_parent_def fresh_latt_def)

lemma run_test_parent_blocks:
  assumes "mmap_ok os" "\<forall>j < 2 * unat (clients opt). pipe_call os j \<noteq> None" "\<not> calls_succeed opt os" "unat (clients opt) \<le> MAX_CLIENTS"
  shows "run_test_parent opt os fresh_latt = None"
  using assms pipes_made [OF assms(4,2)] by (auto simp: run_test_parent_def fork_children_all calls_succeed_def)

section \<open>The report\<close>

text \<open>
  C16. What the latency tester prints. When the options leave arguments over, their command fits
  its 255 characters, the system carries out the calls and poll reports the replies of every round
  in any order and grouping, it ends: it has run the command, logged one entry for each round
  and client, and shows maximum, mean, standard deviation and deviation of the mean of exactly
  these delays; every end of a pipe has been closed once and every child killed. A longer command
  overruns its array, without arguments the usage is printed, \<open>-V\<close> prints the version, and a \<open>fork\<close> that
  fails makes the tester wait for ever.
\<close>

theorem latt_reports:
  assumes "length app = 256" "parse_options optv 0 default_options = Some (off, opt)" "off < length argv"
    "wakeups os = rounds @ [end_round]" "list_all (wakeup_ok opt (with_pipes opt os)) rounds" "app_exited end_round"
    "length rounds * unat (clients opt) < 2 ^ 64"
  shows "let cmd = command (drop off argv); r = latt_main optv argv app os
    in if 255 < length cmd then r = Some (Inl OutOfBoundsWrite)
       else if calls_succeed opt os then \<exists>rep. r = Some (Inr (Report rep)) \<and>
         app_command rep = upto_nul cmd \<and> used_options rep = opt \<and>
         unat (entries_logged rep) = length rounds * unat (clients opt) \<and>
         shown_delay rep = reference_stats (all_delays opt rounds) \<and>
         closed_fds (final_state rep) = filter (\<lambda>d. d \<noteq> - 1) (concat (map (\<lambda>j. [fst (the (pipe_call os j)), snd (the (pipe_call os j))]) [0..<2 * unat (clients opt)])) \<and>
         killed rep = map (fork_call os) [0..<unat (clients opt)]
       else if mmap_ok os \<and> (\<forall>j < 2 * unat (clients opt). pipe_call os j \<noteq> None) then r = None
       else \<exists>rep. r = Some (Inr (Report rep)) \<and> entries_logged rep = 0 \<and> shown_delay rep = None"
proof -
  let ?cmd = "command (drop off argv)" and ?n = "length rounds * unat (clients opt)"
  have c: "unat (clients opt) \<le> MAX_CLIENTS"
    using parse_options_clients [OF assms(2)] by (simp add: default_options_def)
  have ne: "drop off argv \<noteq> []" using assms(3) by simp
  have main: "latt_main optv argv app os =
      (case join_app (drop off argv) 0 app of Inl e \<Rightarrow> Some (Inl e)
       | Inr app \<Rightarrow> map_option (\<lambda>(s, cpids). Inr (Report \<lparr>used_options = opt, app_command = upto_nul app,
           entries_logged = nr_stats (delay_stats s), shown_delay = show_stats (delay_stats s),
           shown_work = show_stats (delay_work_stats s), final_state = s, killed = cpids\<rparr>)) (run_test_parent opt os fresh_latt))"
    using assms(2,3) by (simp add: latt_main_def)
  show ?thesis
  proof (cases "255 < length ?cmd")
    case True
    with command_line_bound [OF ne assms(1)] have "join_app (drop off argv) 0 app = Inl OutOfBoundsWrite" by simp
    with main True show ?thesis by (simp add: Let_def)
  next
    case False
    with command_line_bound [OF ne assms(1)] obtain rest where
      j: "join_app (drop off argv) 0 app = Inr (?cmd @ 0 # rest)" by auto
    have u: "upto_nul (?cmd @ 0 # rest) = upto_nul ?cmd" by (simp add: upto_nul_def takeWhile_tail)
    consider "calls_succeed opt os"
      | "\<not> calls_succeed opt os" "mmap_ok os \<and> (\<forall>j < 2 * unat (clients opt). pipe_call os j \<noteq> None)"
      | "\<not> calls_succeed opt os" "\<not> (mmap_ok os \<and> (\<forall>j < 2 * unat (clients opt). pipe_call os j \<noteq> None))" by blast
    then show ?thesis
    proof cases
      case 1
      from run_test_parent_report [OF c 1 assms(4-6)] obtain s xs where
        s: "run_test_parent opt os fresh_latt = Some (s, map (fork_call os) [0..<unat (clients opt)])"
        "delay_stats s = collect xs" "mset xs = mset (all_delays opt rounds)"
        "closed_fds s = filter (\<lambda>d. d \<noteq> - 1) (concat (map (\<lambda>j. [fst (the (pipe_call os j)), snd (the (pipe_call os j))]) [0..<2 * unat (clients opt)]))"
        by blast
      have "length xs = ?n" using mset_eq_length [OF s(3)] by (simp add: length_all_delays)
      then have "unat (nr_stats (delay_stats s)) = ?n"
        unfolding s(2) nr_stats_def collect_n floor_of_nat of_int_of_nat_eq using assms(7) by (simp only: unat_of_nat) simp
      moreover have "show_stats (delay_stats s) = reference_stats (all_delays opt rounds)"
        unfolding s(2) show_collected by (rule reference_stats_mset [OF s(3)])
      ultimately show ?thesis using main j s(1,4) 1 False u by (simp add: Let_def)
    next
      case 2
      then have "run_test_parent opt os fresh_latt = None" using run_test_parent_blocks c by blast
      with main j 2 False show ?thesis by (simp add: Let_def)
    next
      case 3
      from run_test_parent_fails [OF 3(2) c] obtain s where
        "run_test_parent opt os fresh_latt = Some (s, [])" "delay_stats s = no_samples" by blast
      with main j 3 False show ?thesis
        by (auto simp: Let_def nr_stats_def show_stats_def no_samples_def)
    qed
  qed
qed

definition example_os :: latt_os where
  "example_os = \<lparr>mmap_ok = True, pipe_call = (\<lambda>_. Some (3, 4)), fork_call = (\<lambda>_. 7),
     wakeups = [example_round] @ [example_round\<lparr>app_exited := True\<rparr>]\<rparr>"

lemma example_os_ok: "list_all (wakeup_ok example_options (with_pipes example_options example_os)) [example_round]"
proof -
  have p: "fresh_pfd example_options (with_pipes example_options example_os) =
    [\<lparr>fd = 3, events = POLLIN, revents = 0\<rparr>, \<lparr>fd = 3, events = POLLIN, revents = 0\<rparr>]"
    by (simp add: fresh_pfd_def with_pipes_def example_os_def example_options_def default_options_def fresh_latt_def upt_rec)
  show ?thesis
    by (simp add: wakeup_ok_def p) (simp add: example_round_def waiting_def poll_ok_def polled_def array_read_def poll_count_def
        one_read_ts_def Let_def upt_rec)
qed

theorem latt_reports_witness:
  "\<exists>rep. latt_main [(CHR ''c'', 2)] [bytes ''latt'', bytes ''-c2'', bytes ''ls''] (replicate 256 0) example_os = Some (Inr (Report rep)) \<and>
    app_command rep = bytes ''ls'' \<and> unat (entries_logged rep) = 2"
proof -
  have n: "unat (clients example_options) = 2" by (simp add: example_options_def)
  have o: "parse_options [(CHR ''c'', 2)] 0 default_options = Some (2, example_options)"
    by (simp add: example_options_def default_options_def)
  have w: "wakeups example_os = [example_round] @ [example_round\<lparr>app_exited := True\<rparr>]" by (simp add: example_os_def)
  have c: "calls_succeed example_options example_os" by (simp add: calls_succeed_def example_os_def)
  have m: "command (drop 2 [bytes ''latt'', bytes ''-c2'', bytes ''ls'']) = bytes ''ls''" by simp
  have l: "\<not> 255 < length (bytes ''ls'')" by simp
  have u: "upto_nul (bytes ''ls'') = bytes ''ls''" by (rule upto_nul_id) (simp add: nul_free_def)
  have r: "length [example_round] * unat (clients example_options) < 2 ^ 64" "length [example_round] * unat (clients example_options) = 2"
    "2 < length [bytes ''latt'', bytes ''-c2'', bytes ''ls'']" "length (replicate 256 (0 :: byte)) = 256"
    "app_exited (example_round\<lparr>app_exited := True\<rparr>)"
    using n by simp_all
  from latt_reports [OF r(4) o r(3) w example_os_ok r(5,1)] show ?thesis
    unfolding Let_def m if_not_P [OF l] if_P [OF c] u r(2) by blast
qed

end
