(* ===== verification/Sched.thy ===== *)
theory Sched
  imports Complex_Main
begin

text \<open>
  The measurements of the scheduler tester OU1/schedule_tester.c for one scheduling policy: the
  counting loops that are the work, and what is computed from the clock readings of its threads.
  A clock reading is its seconds and nanoseconds, a \<open>double\<close> a real number.
\<close>

section \<open>Clocks and work\<close>

type_synonym clock = "int \<times> int"

definition sec_since :: "clock \<Rightarrow> clock \<Rightarrow> real" where
  "sec_since start stop =
     (let s = real_of_int (fst start) * 1000000000 + real_of_int (snd start);
          e = real_of_int (fst stop) * 1000000000 + real_of_int (snd stop)
      in (e - s) / 1000000000)"

text \<open>\<open>for (i = 0; i < loops; ++i) a++;\<close> on a 32-bit \<open>int\<close>; \<open>None\<close>: \<open>a\<close> overflows.\<close>

fun count_up :: "nat \<Rightarrow> int \<Rightarrow> int option" where
  "count_up 0 a = Some a"
| "count_up (Suc loops) a = (if a + 1 < 2 ^ 31 then count_up loops (a + 1) else None)"

fun spin :: "nat \<Rightarrow> int \<Rightarrow> int \<Rightarrow> int option" where
  "spin 0 loops a = Some a"
| "spin (Suc j) loops a = Option.bind (count_up (nat loops) a) (spin j loops)"

text \<open>
  The times of the three threads' variables, and one thread: the clock when it starts, before and
  after its loops. The threads add to them under a mutex (\<open>big_work\<close> alone adds to its own).
\<close>

record times =
  wait_time :: real
  work_time :: real
  big_work_time :: real

record reading =
  r_entry :: clock
  r_start :: clock
  r_end :: clock

definition work :: "int \<Rightarrow> clock \<Rightarrow> reading \<Rightarrow> times \<Rightarrow> times option" where
  "work loops start_wait r t =
     (let t = t\<lparr>wait_time := wait_time t + sec_since start_wait (r_entry r)\<rparr>
      in Option.bind (spin 10000 loops 0) (\<lambda>a.
         Some (t\<lparr>work_time := work_time t + sec_since (r_start r) (r_end r)\<rparr>)))"

definition big_work :: "int \<Rightarrow> reading \<Rightarrow> times \<Rightarrow> times option" where
  "big_work loops r t =
     Option.bind (spin 20000 loops 0) (\<lambda>a.
     Some (t\<lparr>big_work_time := big_work_time t + sec_since (r_start r) (r_end r)\<rparr>))"

fun works :: "int \<Rightarrow> clock \<Rightarrow> reading list \<Rightarrow> times \<Rightarrow> times option" where
  "works loops start_wait [] t = Some t"
| "works loops start_wait (r # rs) t = Option.bind (work loops start_wait r t) (works loops start_wait rs)"

abbreviation number_test :: nat where "number_test \<equiv> 5"

section \<open>Tail latency\<close>

text \<open>
  One test: a thread with the double work and the other \<open>NRTHR\<close> (the main thread among them), in
  the order in which they add their times. \<open>params1->start_wait\<close> is never set; it only shows in
  \<open>wait_time\<close>.
\<close>

record tail_test =
  big :: reading
  others :: "reading list"

fun tail_tests :: "int \<Rightarrow> clock \<Rightarrow> tail_test list \<Rightarrow> times \<Rightarrow> times option" where
  "tail_tests loops start_wait [] t = Some t"
| "tail_tests loops start_wait (r # rs) t =
     Option.bind (big_work loops (big r) t) (\<lambda>t.
     Option.bind (works loops start_wait (others r) t) (tail_tests loops start_wait rs))"

text \<open>The printed percentage; \<open>wait\<close> is what the waiting time was before.\<close>

definition measure_tail_latency :: "nat \<Rightarrow> int \<Rightarrow> clock \<Rightarrow> real \<Rightarrow> tail_test list \<Rightarrow> real option" where
  "measure_tail_latency NRTHR loops start_wait wait rs =
     Option.bind (tail_tests loops start_wait rs \<lparr>wait_time = wait, work_time = 0, big_work_time = 0\<rparr>) (\<lambda>t.
     let tail_latency_time_work = (work_time t / real NRTHR) / real number_test;
         tail_latency_time_big_work = (big_work_time t / 1) / real number_test
     in Some ((tail_latency_time_big_work / tail_latency_time_work) * 100 - 100))"

section \<open>Throughput and latency\<close>

fun throughput_tests :: "int \<Rightarrow> clock \<Rightarrow> (clock \<times> reading list \<times> clock) list \<Rightarrow> real \<Rightarrow> times \<Rightarrow> (real \<times> times) option" where
  "throughput_tests loops start_wait [] time t = Some (time, t)"
| "throughput_tests loops start_wait ((start_latency, rs, end_latency) # tests) time t =
     Option.bind (works loops start_wait rs t) (\<lambda>t.
     throughput_tests loops start_wait tests (time + sec_since start_latency end_latency) t)"

definition measure_throughput_or_latency ::
  "bool \<Rightarrow> nat \<Rightarrow> int \<Rightarrow> clock \<Rightarrow> (clock \<times> reading list \<times> clock) list \<Rightarrow> times \<Rightarrow> real option" where
  "measure_throughput_or_latency latency NRTHR loops start_wait tests t =
     Option.bind (throughput_tests loops start_wait tests 0 t) (\<lambda>(time, t).
     Some (if latency then time / real number_test else real (NRTHR + 1) / (time / real number_test)))"

section \<open>Waiting time\<close>

text \<open>
  Every thread is given the address of the first element of \<open>param1\<close>, so all of them store the
  time they start in its \<open>end_wait\<close> and add the difference from its \<open>start_wait\<close>. The two steps of
  a thread: it takes the time, and (under the mutex) adds; the loops change nothing here.
\<close>

datatype wait_event = Stamp nat clock | Add nat

fun wait_events :: "clock \<Rightarrow> wait_event list \<Rightarrow> clock \<Rightarrow> real \<Rightarrow> real" where
  "wait_events start_wait [] end_wait waited = waited"
| "wait_events start_wait (Stamp i now # evs) end_wait waited = wait_events start_wait evs now waited"
| "wait_events start_wait (Add i # evs) end_wait waited =
     wait_events start_wait evs end_wait (waited + sec_since start_wait end_wait)"

text \<open>The tests: the start times of the elements, the events; \<open>junk\<close> is \<open>malloc\<close>'s \<open>end_wait\<close>.\<close>

fun wait_tests :: "(clock list \<times> clock \<times> wait_event list) list \<Rightarrow> real \<Rightarrow> real" where
  "wait_tests [] waited = waited"
| "wait_tests ((starts, junk, evs) # tests) waited = wait_tests tests (wait_events (starts ! 0) evs junk waited)"

definition measure_waiting_time :: "nat \<Rightarrow> (clock list \<times> clock \<times> wait_event list) list \<Rightarrow> real" where
  "measure_waiting_time NRTHR tests = wait_tests tests 0 / real (NRTHR + 1)"

end
