(* ===== verification/SchedMain.thy ===== *)
theory SchedMain
  imports Sched CPrelude
begin

text \<open>
  The scheduler tester OU1/schedule_tester.c around its measurements: the options, the menu, and what each
  measurement does to its array of threads and with its parameters, whatever the clocks say (Sched has
  the printed values). The numbers that \<open>scanf\<close> reads are a list; when it ends the loop runs on for ever.
\<close>

section \<open>Threads and loops of a measurement\<close>

datatype measurement = Throughput | Latency | Tail_latency | Waiting_time

text \<open>\<open>calloc((size_t) NRTHR, sizeof(pthread_t))\<close>: a negative number is too large.\<close>

definition thread_array :: "int \<Rightarrow> nat option" where
  "thread_array NRTHR = (if NRTHR < 0 then None else Some (nat NRTHR))"

text \<open>The elements that the loops around \<open>pthread_create\<close> assign.\<close>

definition created :: "measurement \<Rightarrow> int \<Rightarrow> nat list" where
  "created m NRTHR = (if m = Tail_latency then 0 # [1..<nat NRTHR] else [0..<nat NRTHR])"

fun create_all :: "nat option \<Rightarrow> nat list \<Rightarrow> unit res" where
  "create_all trd [] = Inr ()"
| "create_all trd (j # js) =
     (case trd of
        None \<Rightarrow> Inl NullDeref
      | Some n \<Rightarrow> if j < n then create_all trd js else Inl OutOfBoundsWrite)"

text \<open>
  The loops that the threads count: those of \<open>params1\<close>, and of \<open>param1[0]\<close> in the measurement of the waiting
  time, which is assigned for the first of the other threads.
\<close>

definition loops_used :: "measurement \<Rightarrow> int \<Rightarrow> int \<Rightarrow> int res" where
  "loops_used m NRTHR loops =
     (if m = Waiting_time
      then if NRTHR < 0 then Inl OutOfBoundsWrite   \<comment> \<open>\<open>param1[NRTHR].start_wait\<close>\<close>
           else if NRTHR = 0 then Inl UninitRead
           else Inr loops
      else Inr loops)"

definition count :: "nat \<Rightarrow> int \<Rightarrow> unit res" where
  "count j loops = (case spin j loops 0 of None \<Rightarrow> Inl IntOverflow | Some a \<Rightarrow> Inr ())"

definition run_measurement :: "measurement \<Rightarrow> int \<Rightarrow> int \<Rightarrow> unit res" where
  "run_measurement m NRTHR loops =
     bind_r (create_all (thread_array NRTHR) (created m NRTHR)) (\<lambda>_.
     bind_r (loops_used m NRTHR loops) (\<lambda>loops.
     bind_r (if m = Tail_latency then count 20000 loops else Inr ()) (\<lambda>_.
     count 10000 loops)))"

section \<open>The menu\<close>

record tester =
  NRTHR :: int
  loops :: int

datatype act = Measured measurement int int | Interval | Bad_input

text \<open>The two numbers that are typed.\<close>

definition change_threads_and_loops :: "int \<Rightarrow> int \<Rightarrow> tester \<Rightarrow> tester" where
  [simp]: "change_threads_and_loops n l s = s\<lparr>NRTHR := n - 1, loops := l\<rparr>"

fun menu :: "int list \<Rightarrow> tester \<Rightarrow> act list res option" where
  "menu [] s = None"
| "menu (choice # input) s =
     (if choice \<in> {1, 2, 3, 4} then
        let m = (if choice = 1 then Throughput else if choice = 2 then Latency
                 else if choice = 3 then Tail_latency else Waiting_time)
        in case run_measurement m (NRTHR s) (loops s) of
             Inl e \<Rightarrow> Some (Inl e)
           | Inr _ \<Rightarrow> map_option (\<lambda>r. bind_r r (\<lambda>acts. Inr (Measured m (NRTHR s) (loops s) # acts))) (menu input s)
      else if choice = 5 then
        (case input of n # l # input \<Rightarrow> menu input (change_threads_and_loops n l s) | _ \<Rightarrow> None)
      else if choice = 6 then Some (Inr [])
      else if choice = 7 \<or> choice = 8 then map_option (\<lambda>r. bind_r r (\<lambda>acts. Inr (Interval # acts))) (menu input s)
      else map_option (\<lambda>r. bind_r r (\<lambda>acts. Inr (Bad_input # acts))) (menu input s))"

section \<open>The options\<close>

text \<open>\<open>atoi\<close> without white space before the number.\<close>

fun digits :: "int \<Rightarrow> byte list \<Rightarrow> int" where
  "digits n [] = n"
| "digits n (c # s) = (if 48 \<le> c \<and> c \<le> 57 then digits (10 * n + (uint c - 48)) s else n)"

definition c_atoi :: "byte list \<Rightarrow> int" where
  "c_atoi s =
     (case s of
        [] \<Rightarrow> 0
      | c # t \<Rightarrow> if c = 45 then - digits 0 t else if c = 43 then digits 0 t else digits 0 s)"

text \<open>The options that \<open>getopt\<close> finds; \<open>None\<close>: the program exits. \<open>pstring\<close> is the array of 1024 bytes.\<close>

fun parse_tester :: "(char \<times> byte list) list \<Rightarrow> byte list \<Rightarrow> tester \<Rightarrow> tester option res" where
  "parse_tester [] pstring s = Inr (Some s)"
| "parse_tester ((c, arg) # opts) pstring s =
     (if c = CHR ''p'' then
        bind_r (c_write pstring 0 (upto_nul arg @ [0])) (\<lambda>pstring.
        let n = c_atoi (upto_nul pstring)
        in if n \<noteq> 0 then parse_tester opts pstring (s\<lparr>NRTHR := n - 1\<rparr>) else Inr None)
      else if c = CHR ''l'' then
        bind_r (c_write pstring 0 (upto_nul arg @ [0])) (\<lambda>pstring.
        let n = c_atoi (upto_nul pstring)
        in if n \<le> 0 then Inr None else parse_tester opts pstring (s\<lparr>loops := n\<rparr>))
      else Inr None)"

definition tester_main :: "(char \<times> byte list) list \<Rightarrow> byte list \<Rightarrow> int list \<Rightarrow> act list option res option" where
  "tester_main opts pstring input =
     (case parse_tester opts pstring \<lparr>NRTHR = 0, loops = 0\<rparr> of
        Inl e \<Rightarrow> Some (Inl e)
      | Inr None \<Rightarrow> Some (Inr None)
      | Inr (Some s) \<Rightarrow> map_option (\<lambda>r. bind_r r (\<lambda>acts. Inr (Some acts))) (menu input s))"

end
