(* ===== verification/SchedProps.thy ===== *)
theory SchedProps
  imports Sched
begin

text \<open>
  What the scheduler tester prints: the tail latency compares the true means, the counting loops
  bound the number of loops, and the waiting time is over-estimated.
\<close>

section \<open>The loops\<close>

lemma count_up_value: "0 \<le> a \<Longrightarrow> a < 2 ^ 31 \<Longrightarrow>
  count_up k a = (if a + int k < 2 ^ 31 then Some (a + int k) else None)"
  by (induction k arbitrary: a) auto

lemma spin_value: "0 \<le> a \<Longrightarrow> a < 2 ^ 31 \<Longrightarrow> 0 \<le> loops \<Longrightarrow>
  spin j loops a = (if a + int j * loops < 2 ^ 31 then Some (a + int j * loops) else None)"
proof (induction j arbitrary: a)
  case (Suc j)
  have nn: "0 \<le> int j * loops" using Suc.prems by simp
  show ?case
  proof (cases "a + loops < 2 ^ 31")
    case True
    then have "count_up (nat loops) a = Some (a + loops)" using Suc.prems count_up_value [of a "nat loops"] by simp
    with Suc.IH [of "a + loops"] True Suc.prems show ?thesis by (simp add: algebra_simps)
  next
    case False
    then have "count_up (nat loops) a = None" using Suc.prems count_up_value [of a "nat loops"] by simp
    with False nn show ?thesis by (simp add: algebra_simps)
  qed
qed simp

section \<open>Tail latency\<close>

definition duration :: "reading \<Rightarrow> real" where
  "duration r = sec_since (r_start r) (r_end r)"

lemma works_time:
  assumes "0 \<le> loops" "10000 * loops < 2 ^ 31"
  shows "\<exists>w. works loops sw rs t = Some (t\<lparr>wait_time := w, work_time := work_time t + (\<Sum>r\<leftarrow>rs. duration r)\<rparr>)"
proof (induction rs arbitrary: t)
  case (Cons r rs)
  have sp: "\<exists>a. spin 10000 loops 0 = Some a" using assms spin_value [of 0 loops 10000] by simp
  let ?t = "t\<lparr>wait_time := wait_time t + sec_since sw (r_entry r), work_time := work_time t + duration r\<rparr>"
  from Cons.IH [of ?t] sp show ?case
    by (auto simp: work_def Let_def duration_def add.assoc simp del: spin.simps)
next
  case Nil
  show ?case by (rule exI [of _ "wait_time t"]) simp
qed

lemma tail_tests_time:
  assumes "0 \<le> loops" "20000 * loops < 2 ^ 31"
  shows "\<exists>w. tail_tests loops sw rs t = Some (t\<lparr>wait_time := w,
    work_time := work_time t + (\<Sum>r\<leftarrow>concat (map others rs). duration r),
    big_work_time := big_work_time t + (\<Sum>r\<leftarrow>rs. duration (big r))\<rparr>)"
proof (induction rs arbitrary: t)
  case (Cons r rs)
  have sp: "\<exists>a. spin 20000 loops 0 = Some a" using assms spin_value [of 0 loops 20000] by simp
  then have b: "big_work loops (big r) t = Some (t\<lparr>big_work_time := big_work_time t + duration (big r)\<rparr>)" (is "_ = Some ?t")
    by (auto simp: big_work_def duration_def simp del: spin.simps)
  have "10000 * loops < 2 ^ 31" using assms by simp
  from works_time [OF assms(1) this, of sw "others r" ?t] obtain w where
    "works loops sw (others r) ?t = Some (?t\<lparr>wait_time := w,
      work_time := work_time t + (\<Sum>r\<leftarrow>others r. duration r)\<rparr>)" (is "_ = Some ?u") by auto
  with Cons.IH [of ?u] b show ?case by (auto simp: add.assoc)
next
  case Nil
  show ?case by (rule exI [of _ "wait_time t"]) simp
qed

definition mean :: "real list \<Rightarrow> real" where
  "mean xs = sum_list xs / real (length xs)"

text \<open>
  C39. The tail latency that is printed compares true means: with \<open>NRTHR\<close> ordinary threads in each
  test it is the percentage by which the mean time of the threads with the double work exceeds
  the mean time of all the others over all tests, as long as the counter of the double loop stays
  an \<open>int\<close>; from 107375 loops on (the 500000 of the example in the source, too) it overflows.
\<close>

theorem tail_latency_compares_means:
  assumes "0 < NRTHR" "length rs = number_test" "list_all (\<lambda>r. length (others r) = NRTHR) rs" "0 \<le> loops"
  shows "measure_tail_latency NRTHR loops sw w rs =
    (if loops < 107375
     then Some (mean (map (duration \<circ> big) rs) / mean (map duration (concat (map others rs))) * 100 - 100)
     else None)"
proof (cases "loops < 107375")
  case True
  then have "20000 * loops < 2 ^ 31" by simp
  from tail_tests_time [OF assms(4) this, of sw rs "\<lparr>wait_time = w, work_time = 0, big_work_time = 0\<rparr>"] obtain w' where
    t: "tail_tests loops sw rs \<lparr>wait_time = w, work_time = 0, big_work_time = 0\<rparr> = Some \<lparr>wait_time = w',
      work_time = (\<Sum>r\<leftarrow>concat (map others rs). duration r), big_work_time = (\<Sum>r\<leftarrow>rs. duration (big r))\<rparr>" by auto
  have "length (concat (map others rs)) = length rs * NRTHR" using assms(3) by (induction rs) auto
  with True t assms(2) show ?thesis
    by (simp add: measure_tail_latency_def mean_def Let_def comp_def)
next
  case False
  then have "spin 20000 loops 0 = None" using assms(4) spin_value [of 0 loops 20000] by simp
  moreover obtain r rs' where "rs = r # rs'" using assms(2) by (cases rs) auto
  ultimately show ?thesis using False
    by (simp add: measure_tail_latency_def big_work_def del: spin.simps)
qed

theorem tail_latency_compares_means_witness:
  "measure_tail_latency 1 10000 (0, 0) 0 (replicate 5 \<lparr>big = \<lparr>r_entry = (0, 0), r_start = (1, 0), r_end = (4, 0)\<rparr>,
      others = [\<lparr>r_entry = (0, 0), r_start = (1, 0), r_end = (3, 0)\<rparr>]\<rparr>) = Some 50"
  by (subst tail_latency_compares_means) (simp_all add: mean_def duration_def sec_since_def numeral_eq_Suc)

section \<open>Waiting time\<close>

text \<open>When each thread asked for a clock, and what its own waiting time is.\<close>

fun own_waits :: "clock list \<Rightarrow> (nat \<Rightarrow> clock) \<Rightarrow> wait_event list \<Rightarrow> real" where
  "own_waits starts st [] = 0"
| "own_waits starts st (Stamp i now # evs) = own_waits starts (st(i := now)) evs"
| "own_waits starts st (Add i # evs) = sec_since (starts ! i) (st i) + own_waits starts st evs"

text \<open>
  An interleaving of the threads: the clock does not run backwards, a thread adds after it has
  taken the time, and the first thread was started first.
\<close>

fun interleaved :: "clock list \<Rightarrow> clock \<Rightarrow> nat set \<Rightarrow> wait_event list \<Rightarrow> bool" where
  "interleaved starts now S [] \<longleftrightarrow> True"
| "interleaved starts now S (Stamp i t # evs) \<longleftrightarrow>
     (S = {} \<or> 0 \<le> sec_since now t) \<and> interleaved starts t (insert i S) evs"
| "interleaved starts now S (Add i # evs) \<longleftrightarrow>
     i \<in> S \<and> 0 \<le> sec_since (starts ! 0) (starts ! i) \<and> interleaved starts now S evs"

lemma sec_since_add: "sec_since a b + sec_since b c = sec_since a c"
  by (simp add: sec_since_def Let_def add_divide_distrib [symmetric])

lemma wait_events_own:
  assumes "interleaved starts now S evs" "\<And>i. i \<in> S \<Longrightarrow> 0 \<le> sec_since (st i) now"
  shows "waited + own_waits starts st evs \<le> wait_events (starts ! 0) evs now waited"
  using assms
proof (induction evs arbitrary: now S st waited)
  case (Cons e evs)
  show ?case
  proof (cases e)
    case (Stamp i t)
    have "0 \<le> sec_since ((st(i := t)) j) t" if "j \<in> insert i S" for j
    proof (cases "j = i")
      case False
      with that have "j \<in> S" by simp
      then have "0 \<le> sec_since (st j) now" "0 \<le> sec_since now t"
        using Cons.prems Stamp by auto
      with False sec_since_add [of "st j" now t] show ?thesis by simp
    qed (simp add: sec_since_def)
    with Cons.IH [of t "insert i S" "st(i := t)" waited] Cons.prems(1) Stamp show ?thesis by (simp add: fun_upd_def)
  next
    case (Add i)
    then have "0 \<le> sec_since (starts ! 0) (starts ! i)" "0 \<le> sec_since (st i) now"
      using Cons.prems by auto
    then have "sec_since (starts ! i) (st i) \<le> sec_since (starts ! 0) now"
      using sec_since_add [of "starts ! 0" "starts ! i" "st i"] sec_since_add [of "starts ! 0" "st i" now] by simp
    with Cons.IH [of now S st "waited + sec_since (starts ! 0) now"] Cons.prems Add show ?thesis by simp
  qed
qed simp

lemma wait_tests_own:
  "list_all (\<lambda>(starts, junk, evs). interleaved starts junk {} evs) tests \<Longrightarrow>
   waited + (\<Sum>(starts, junk, evs)\<leftarrow>tests. own_waits starts (\<lambda>_. junk) evs) \<le> wait_tests tests waited"
proof (induction tests waited rule: wait_tests.induct)
  case (2 starts junk evs tests waited)
  have "waited + own_waits starts (\<lambda>_. junk) evs \<le> wait_events (starts ! 0) evs junk waited"
    using "2.prems" by (intro wait_events_own [of _ _ "{}"]) auto
  with "2.IH" "2.prems" show ?case by simp
qed simp

text \<open>
  C40. The average waiting time that is printed is too long by a factor and more: in any
  interleaving of the threads it is at least the number of tests times the average over all
  tests and threads, since the sum over the tests is divided by the number of threads only, and
  each thread measures from the start of the first one to the latest clock any of them has read.
\<close>

theorem waiting_time_overestimated:
  assumes "list_all (\<lambda>(starts, junk, evs). interleaved starts junk {} evs) tests" "length tests = number_test"
  shows "real number_test * ((\<Sum>(starts, junk, evs)\<leftarrow>tests. own_waits starts (\<lambda>_. junk) evs) / real (number_test * (NRTHR + 1)))
    \<le> measure_waiting_time NRTHR tests"
proof -
  let ?own = "\<Sum>(starts, junk, evs)\<leftarrow>tests. own_waits starts (\<lambda>_. junk) evs"
  have "real number_test * (?own / real (number_test * (NRTHR + 1))) = ?own / real (NRTHR + 1)"
    by (simp add: field_simps)
  also have "\<dots> \<le> wait_tests tests 0 / real (NRTHR + 1)"
    using wait_tests_own [OF assms(1), of 0] by (intro divide_right_mono) simp_all
  finally show ?thesis by (simp only: measure_waiting_time_def)
qed

theorem waiting_time_overestimated_witness:
  "real number_test * ((\<Sum>(starts, junk, evs)\<leftarrow>replicate number_test
      ([(0, 0), (2, 0)], (0, 0), [Stamp 0 (1, 0), Stamp 1 (3, 0), Add 0, Add 1]).
      own_waits starts (\<lambda>_. junk) evs) / real (number_test * (1 + 1)))
    \<le> measure_waiting_time 1 (replicate number_test
      ([(0, 0), (2, 0)], (0, 0), [Stamp 0 (1, 0), Stamp 1 (3, 0), Add 0, Add 1]))"
  by (rule waiting_time_overestimated) (simp_all add: sec_since_def numeral_eq_Suc)

end
