(* ===== verification/SchedMainProps.thy ===== *)
theory SchedMainProps
  imports SchedMain SchedProps
begin

text \<open>Which sessions of the scheduler tester end without a fault.\<close>

definition fault :: "measurement \<Rightarrow> int \<Rightarrow> int \<Rightarrow> c_error option" where
  "fault m n l =
     (if m = Tail_latency \<and> n < 0 then Some NullDeref
      else if m = Tail_latency \<and> n = 0 then Some OutOfBoundsWrite
      else if m = Waiting_time \<and> n < 0 then Some OutOfBoundsWrite
      else if m = Waiting_time \<and> n = 0 then Some UninitRead
      else if (if m = Tail_latency then 107374 else 214748) < l then Some IntOverflow
      else None)"

lemma count_result: "count j l = (if int j * max 0 l < 2 ^ 31 then Inr () else Inl IntOverflow)"
proof -
  have "spin j l = spin j (max 0 l)"
  proof (cases "0 \<le> l")
    case False
    then have "nat l = 0" "max 0 l = 0" by simp_all
    then have "spin j l a = spin j 0 a" for a by (induction j arbitrary: a) simp_all
    with \<open>max 0 l = 0\<close> show ?thesis by auto
  qed simp
  then have "spin j l 0 = (if int j * max 0 l < 2 ^ 31 then Some (int j * max 0 l) else None)"
    using spin_value [of 0 "max 0 l" j] by (simp only: add_0) simp
  then show ?thesis unfolding count_def by (cases "int j * max 0 l < 2 ^ 31") (simp_all only: if_True if_False option.case)
qed

lemma create_all_result:
  "create_all trd js = (case trd of
     None \<Rightarrow> if js = [] then Inr () else Inl NullDeref
   | Some n \<Rightarrow> if \<forall>j \<in> set js. j < n then Inr () else Inl OutOfBoundsWrite)"
  by (induction js) (auto split: option.splits)

lemma run_measurement_result:
  "run_measurement m n l = (case fault m n l of None \<Rightarrow> Inr () | Some e \<Rightarrow> Inl e)"
proof -
  have c: "count 10000 l = (if 214748 < l then Inl IntOverflow else Inr ())"
    "count 20000 l = (if 107374 < l then Inl IntOverflow else Inr ())"
    by (auto simp: count_result)
  show ?thesis
    by (cases m) (auto simp: run_measurement_def fault_def create_all_result thread_array_def created_def loops_used_def c)
qed

text \<open>What the user asks for, and whether the input reaches the choice \<open>6\<close>.\<close>

fun requested :: "int list \<Rightarrow> int \<Rightarrow> int \<Rightarrow> act list \<times> bool" where
  "requested [] n l = ([], False)"
| "requested (c # input) n l =
     (if c = 1 then map_prod ((#) (Measured Throughput n l)) id (requested input n l)
      else if c = 2 then map_prod ((#) (Measured Latency n l)) id (requested input n l)
      else if c = 3 then map_prod ((#) (Measured Tail_latency n l)) id (requested input n l)
      else if c = 4 then map_prod ((#) (Measured Waiting_time n l)) id (requested input n l)
      else if c = 5 then (case input of n' # l' # input \<Rightarrow> requested input (n' - 1) l' | _ \<Rightarrow> ([], False))
      else if c = 6 then ([], True)
      else map_prod ((#) (if c = 7 \<or> c = 8 then Interval else Bad_input)) id (requested input n l))"

definition act_fault :: "act \<Rightarrow> c_error option" where
  "act_fault a = (case a of Measured m n l \<Rightarrow> fault m n l | _ \<Rightarrow> None)"

definition outcome :: "act list \<times> bool \<Rightarrow> act list res option" where
  "outcome r = (case find (\<lambda>a. act_fault a \<noteq> None) (fst r) of
     Some a \<Rightarrow> Some (Inl (the (act_fault a)))
   | None \<Rightarrow> if snd r then Some (Inr (fst r)) else None)"

lemma outcome_Cons:
  "outcome (map_prod ((#) a) id r) = (case act_fault a of
     Some e \<Rightarrow> Some (Inl e)
   | None \<Rightarrow> map_option (\<lambda>r. bind_r r (\<lambda>acts. Inr (a # acts))) (outcome r))"
  by (cases r) (auto simp: outcome_def split: option.splits)

lemma menu_outcome: "menu input s = outcome (requested input (NRTHR s) (loops s))"
proof (induction input s rule: menu.induct)
  case (1 s)
  show ?case by (simp add: outcome_def)
next
  case (2 choice input s)
  have o: "outcome ([], b) = (if b then Some (Inr []) else None)" for b by (simp add: outcome_def)
  have a: "act_fault Interval = None" "act_fault Bad_input = None" "act_fault (Measured m n l) = fault m n l" for m n l
    by (simp_all add: act_fault_def)
  consider "choice = 1" | "choice = 2" | "choice = 3" | "choice = 4" | "choice = 5" | "choice = 6" | "choice = 7 \<or> choice = 8"
    | "choice \<notin> {1, 2, 3, 4, 5, 6, 7, 8}" by auto
  then show ?case
    by cases (use 2 in \<open>auto simp: outcome_Cons o a run_measurement_result split: option.splits list.splits\<close>)
qed

text \<open>
  C31. The outcome of a session of the scheduler tester: it faults at the first measurement with
  unfit settings, and otherwise carries out what is asked for and ends at the choice \<open>6\<close>, or
  never. The tail latency needs at least two threads (its array is indexed at 0 before the number
  is looked at), the waiting time, too (the loops of the only thread are never assigned); more than
  214748 loops overflow the counter, for the tail latency more than 107374.
\<close>

theorem tester_session:
  assumes "parse_tester opts pstring \<lparr>NRTHR = 0, loops = 0\<rparr> = Inr (Some s)"
  shows "tester_main opts pstring input =
    (let (acts, ended) = requested input (NRTHR s) (loops s)
     in case find (\<lambda>a. act_fault a \<noteq> None) acts of
          Some a \<Rightarrow> Some (Inl (the (act_fault a)))
        | None \<Rightarrow> if ended then Some (Inr (Some acts)) else None)"
  using assms by (simp add: tester_main_def menu_outcome outcome_def case_prod_beta Let_def split: option.split)

theorem tester_session_witness:
  "tester_main [(CHR ''p'', c_str ''7''), (CHR ''l'', c_str ''10000'')] (replicate 1024 0) [3, 5, 1, 20, 3, 6] = Some (Inl OutOfBoundsWrite) \<and>
   tester_main [(CHR ''p'', c_str ''10000''), (CHR ''l'', c_str ''500000'')] (replicate 1024 0) [1, 6] = Some (Inl IntOverflow)"
proof -
  have n: "nul_free (bytes ''7'')" "nul_free (bytes ''10000'')" "nul_free (bytes ''500000'')" by (simp_all add: nul_free_def)
  have w: "c_write (replicate 1024 0) 0 (bytes t @ [0]) = Inr (bytes t @ 0 # replicate (1023 - length t) 0)" if "length t < 1024" for t
    using that by simp
  have p: "parse_tester [(CHR ''p'', c_str ''7''), (CHR ''l'', c_str ''10000'')] (replicate 1024 0) \<lparr>NRTHR = 0, loops = 0\<rparr> =
      Inr (Some \<lparr>NRTHR = 6, loops = 10000\<rparr>)"
    "parse_tester [(CHR ''p'', c_str ''10000''), (CHR ''l'', c_str ''500000'')] (replicate 1024 0) \<lparr>NRTHR = 0, loops = 0\<rparr> =
      Inr (Some \<lparr>NRTHR = 9999, loops = 500000\<rparr>)"
    by (simp_all add: c_str_def upto_nul_def c_atoi_def)
  show ?thesis using tester_session [OF p(1), of "[3, 5, 1, 20, 3, 6]"] tester_session [OF p(2), of "[1, 6]"]
    by (simp add: act_fault_def fault_def)
qed

end
