(* ===== verification/Loads.thy ===== *)
theory Loads
  imports Sched CPrelude
begin

text \<open>
  The load programs of OU1: loop.c counts and times itself, IOtester.c writes a file and times itself, test.c
  loops without an effect and ends. The clock readings are parameters.
\<close>

fun count_unsigned :: "nat \<Rightarrow> u32 \<Rightarrow> u32" where
  "count_unsigned 0 a = a"
| "count_unsigned (Suc n) a = count_unsigned n (a + 1)"

fun repeat_count :: "nat \<Rightarrow> u32 \<Rightarrow> u32" where
  "repeat_count 0 a = a"
| "repeat_count (Suc k) a = repeat_count k (count_unsigned 10000 a)"

text \<open>The counter at the end, and the time that is printed.\<close>

definition loop_main :: "clock \<Rightarrow> clock \<Rightarrow> u32 \<times> real" where
  "loop_main start stop = (repeat_count 10000 0, sec_since start stop)"

definition io_line :: "byte list" where
  "io_line = bytes ''This is testing for fprintf...'' @ [10]"

fun write_lines :: "nat \<Rightarrow> byte list \<Rightarrow> byte list" where
  "write_lines 0 out = out"
| "write_lines (Suc n) out = write_lines n (out @ io_line)"

text \<open>The file at the end and the time that is printed; a file that cannot be opened is not noticed.\<close>

definition io_main :: "bool \<Rightarrow> clock \<Rightarrow> clock \<Rightarrow> (byte list \<times> real) res" where
  "io_main opened time_start time_end =
     (if opened then Inr (write_lines 1000000000 [], sec_since time_start time_end) else Inl NullDeref)"

text \<open>test.c; its counters are \<open>int\<close>, whose overflow would be undefined.\<close>

partial_function (option) idle_loop :: "int \<Rightarrow> int \<Rightarrow> unit res option" where
  "idle_loop n i =
     (if \<not> i < n then Some (Inr ())
      else if i + 1 = 2 ^ 31 then Some (Inl IntOverflow)
      else idle_loop n (i + 1))"

partial_function (option) test_main :: "int \<Rightarrow> unit res option" where
  "test_main j =
     (if \<not> j < 50 then Some (Inr ())
      else case idle_loop 1000000000 0 of
        None \<Rightarrow> None
      | Some (Inl e) \<Rightarrow> Some (Inl e)
      | Some (Inr _) \<Rightarrow> if j + 1 = 2 ^ 31 then Some (Inl IntOverflow) else test_main (j + 1))"

lemma count_unsigned_value: "count_unsigned n a = a + of_nat n"
  by (induction n arbitrary: a) simp_all

lemma repeat_count_value: "repeat_count k a = a + of_nat k * 10000"
  by (induction k arbitrary: a) (simp_all add: count_unsigned_value algebra_simps)

theorem loop_main_counts: "fst (loop_main start stop) = 100000000"
  by (simp add: loop_main_def repeat_count_value)

lemma length_write_lines: "length (write_lines n out) = length out + 31 * n"
  by (induction n arbitrary: out) (simp_all add: io_line_def)

theorem io_main_writes: "io_main True t0 t1 = Inr (out, time) \<Longrightarrow> length out = 31000000000"
  by (auto simp: io_main_def length_write_lines simp del: write_lines.simps)

lemma idle_loop_ends: "i \<le> n \<Longrightarrow> n < 2 ^ 31 \<Longrightarrow> idle_loop n i = Some (Inr ())"
proof (induction "nat (n - i)" arbitrary: i)
  case 0
  then show ?case by (simp add: idle_loop.simps)
next
  case (Suc k)
  then have "idle_loop n (i + 1) = Some (Inr ())" by simp
  then show ?case using Suc.prems by (subst idle_loop.simps) simp
qed

lemma test_main_ends: "j \<le> 50 \<Longrightarrow> test_main j = Some (Inr ())"
proof (induction "nat (50 - j)" arbitrary: j)
  case 0
  then show ?case by (simp add: test_main.simps)
next
  case (Suc k)
  then have "test_main (j + 1) = Some (Inr ())" by simp
  then show ?case using Suc.prems by (subst test_main.simps) (simp add: idle_loop_ends)
qed

end
