(* ===== verification/Spec2Isabelle.thy ===== *)
theory Spec2Isabelle
  imports ListProps ServerList PduProps StoreProps EndToEnd Interleave ClientMain ServerMainProps ServerEnd NetlinkUserProps
    PoolMemoryProps Leavers ClientThreads QueueMemory LattMainProps SchedMainProps Loads
begin

text \<open>
  A verification library for the two assignments of this repository: the key-value store of OU4
  (a kernel module with a hash table, a server that talks to it over netlink and to its clients
  over TCP, and a client), and the latency tester (latt.c) and the scheduler tester
  (schedule_tester.c) of OU1.

  \<^bold>\<open>The program.\<close> A client builds request messages (INSERT, GET, DELETE) and sends them in PDUs. For
  each client the server has a listening thread, which receives PDUs and appends them to
  \<open>sender_list\<close>; one thread takes them from there, passes them to the kernel module, receives its
  answer, updates a text file of the stored pairs, and sends the answer to every client.
  Listening threads are numbered; the numbers circulate between \<open>availableThreads\<close>, the running
  threads and \<open>terminatedThreads\<close>. All these lists are the doubly linked list of list.c.

  \<^bold>\<open>How C is modelled.\<close> CPrelude has the errors of the C machine (bad pointers, accesses out of
  bounds, deadlock) and the result type \<open>'a res\<close> = error or value, in which every operation that
  can fail is written. A pointer into a buffer is the list of bytes from there to the end of the
  object, machine integers are words of their width, a C string ends at its first NUL and reading
  past an object is an error. Where pointers are shared (the list and the queue's memory) CHeap
  gives a heap of typed blocks with \<open>malloc\<close>, \<open>free\<close> and mutexes. A call that may block or a
  loop that may not end is a \<open>partial_function\<close> in \<open>option\<close>, with \<open>None\<close> for not returning.

  \<^bold>\<open>Theories and code.\<close>
  \<^item> LinkedList, ListQueue, ListProps: Resources/list.c over the heap; the predicate \<open>dl\<close> is the
    invariant of a list, the locale \<open>fifo\<close> the contract of a queue, interpreted for thread numbers
    and for PDUs. QueueMemory adds \<open>free_struct\<close> and counts the blocks alive, ServerList
    has the two functions for lists of servers.
  \<^item> Pdu, PduProps: the structs and encoders of Resources/PDU_user.{c,h}.
  \<^item> Kernel: Kernel/netlinkKernel.c, one definition per function. The Linux rhashtable is the record
    \<open>rht_ops\<close> of its operations under the contract of the locale \<open>rhashtable\<close> (in Kernel), which
    is interpreted on an association list. KernelSpec states the abstract store \<open>kv_step\<close>,
    The work queue holds addresses of buffers, which netlink releases when the input callback returns: in \<open>handle\<close>
    the worker is done before that, in \<open>handle_late\<close> it comes after. KernelRefine proves that the module refines it (locale \<open>kv_service\<close>, a sublocale of the table
    contract), KernelProps has the properties of the module.
  \<^item> Sock, SockProps: \<open>receive_pdu\<close> of Resources/socket.c and the readers of PDU_user.c on a socket
    with arrived bytes, segments still to come, and an end (silence, shutdown or an error). The
    locale \<open>stream_codec\<close> is the contract of an encoder and a receiver on a stream.
  \<^item> Store, StoreProps: the text file (\<open>store_data\<close>, the line parser of \<open>load_stored_values\<close>).
  \<^item> Server, ServerProps: \<open>init_hashtable\<close>, \<open>kernel_communication\<close>, \<open>client_listener\<close> of User/server.c,
    composed with the module, the file and the receivers. The locale \<open>module_exchange\<close> is what
    start-up needs of the exchange with the module. Interleave: any number of listening threads
    and the thread of \<open>kernel_communication\<close> in any order, with its unlocked test for an empty list, its wait under an
    \<open>if\<close>, and wakeups without a signal.
  \<^item> ServerMain, ServerMainProps: the netlink sockets (\<open>setup_netlink_send\<close>, \<open>setup_netlink_receive\<close>) and
    \<open>main\<close> up to its threads, for any answers of the system; ServerEnd: its end, from the joins to the memory freed.
  \<^item> Threads: the thread pool and the waiting loops of User/server.c as step relations. PoolMemory: the same
    pool on the heap, with every call on its lists and blocks, one operation at a time; SeveralLists has list.c on several lists in one heap,
    PoolRelation and PoolSteps the simulation of each operation, PoolMemoryProps the runs. Broadcast: the
    loop of \<open>kernel_communication\<close> over the list of sockets in that memory, while clients leave; Leavers: two
    threads of which one walks through that list and the other takes a node out.
  \<^item> Client, ClientProps: Client/client.c; EndToEnd: a session from the client's constructors through
    the server and the module and back to the client.
  \<^item> Drivers, DriversProps: the throughput tests of server and client, on local arrays of any size.
    ClientThreads: the main thread of the client in such a test and \<open>client_listen\<close>, in any order, with
    answers for other clients in between (locale \<open>client_test\<close>).
    Terminal, TerminalProps: \<open>server_writer\<close> and the loop of \<open>client_send\<close> on the bytes that are typed; after the end of
    the input \<open>fgets\<close> leaves the array as it is, and the loops act on its old contents again.
  \<^item> Connect, ConnectProps: \<open>createsocket_server\<close> and \<open>createsocket_client\<close> of Resources/socket.c and their
    callers, for any sequence of answers of the system calls. ClientMain: \<open>main\<close> of the client.
  \<^item> NetlinkUser, NetlinkUserProps: the test driver User/netlinkUser.c.
  \<^item> Latt, LattProps, LattRounds: the parts of OU1/latt.c; LattMain, LattMainProps: the work, the sleep, and
    \<open>main\<close> around them. Sched, SchedProps: the measurements of OU1/schedule_tester.c; SchedMain,
    SchedMainProps: its options and menu, and the arrays and counters of its measurements. Loads:
    OU1/loop.c, OU1/IOtester.c and OU1/test.c.

  \<^bold>\<open>What the lemmas show.\<close> The list operations refine lists, the queues are first in, first out,
  without leaks; encoders, receivers and the
  module's decoders are inverse to each other; the module refines the abstract store on every
  message it can read safely, and exactly those messages are told apart from the ones that make it
  read or write out of bounds; the server with its file refines the same store for plain text
  that fits the netlink buffer, also when its threads are interleaved (linearizability), where only
  a spurious wakeup makes it fault and only a lost one stops it early; every thread number is in one place at a time, and the
  lists and blocks in memory represent such states in every run of whole operations; an answer reaches all clients in order
  as long as none leaves; a throughput test ends with equal counters; the statistics, time stamps, random data and rounds of the latency tester agree with their
  specifications up to what \<open>main\<close> prints, and the tail latency of the scheduler tester compares the true means.
  A second group states what goes wrong outside these bounds: messages in several segments,
  sizes that wrap, long values, colons and newlines, messages of the wrong kind, lost and spurious
  wakeups, a message buffer released before the worker reads it, a block freed too early, a list walked through while nodes
  are removed, counters compared without a lock, the key buffer of the client's menu (no request can be typed
  without a fault), system calls that fail unnoticed at start-up, settings under which the
  scheduler tester faults, an overestimated waiting time.

  \<^bold>\<open>Bounds.\<close> Heap properties ask for as many free blocks as a run allocates at most (3 for the list,
  3 for each operation; for the pool 12 blocks for its lists, two for each thread number and at most 4 for each step;
  5 module blocks for each message, of which 3 are never freed). \<open>serve_queue\<close>
  and \<open>receive_n\<close> run the code's endless loops a given number of times; the properties use the
  length of the queue or the number of messages, after which there is nothing left to do. The loops
  at the terminals have no bound: not returning is one of their results. A run of Interleave has at most five turns for each request
  and three more, one of ClientThreads five for each request and three for each answer to another client.

  \<^bold>\<open>Idealised.\<close> An operation on a list is one step of its caller (its mutex is held throughout), in PoolMemory a
  loop over a list is, too. A freed block is never handed out again. A \<open>pthread_create\<close> that fails, which ends
  the process, is followed in \<open>main\<close> of server and client only; the numbers and counters of the scheduler tester are unbounded
  where no overflow is stated; a thread there reads the clock and stores the time in one step. The
  server theory sees a list as the sequence of its items, and a message that has arrived as a
  whole. \<open>double\<close> is a real number. Timing, printing and errors of \<open>fopen\<close> and the like, which end
  the process, are left out.

  \<^bold>\<open>Not modelled.\<close> Printing, timing output and signals; in the server's \<open>main\<close> the joins and
  cancellations of the threads beyond their results; the contents of IP addresses; that \<open>TEST_INT_INSERT\<close>
  shares the socket with the listening thread of the client (each is followed alone);
  the scheduling policy itself; zlib, of which only the results of \<open>deflate\<close> matter.
\<close>

end
